(* ===== verification/Prelude.thy ===== *)
theory Prelude
  imports Main "HOL-Library.Word"
begin

text \<open>
  Shared vocabulary of the development: the abnormal ends of an operation (\<open>err\<close>), the result
  type \<open>'a res\<close> with its sequencing combinator \<open>bindE\<close>, C++ size arithmetic at 64 bits, the
  memory operations of a \<^verbatim>\<open>std::vector<char>\<close> (bounds-checked copy), and the rules the component
  theories share.  A name of the C++ code that ends in an underscore (\<^verbatim>\<open>readerIndex_\<close>) is written
  without it, and a member of a class carries the class (or a short form of it) as a prefix.
\<close>

unbundle bit_operations_syntax

section \<open>Abnormal ends\<close>

text \<open>
  \<open>Exit_fatal\<close> is the \<^verbatim>\<open>exit(-1)\<close> of \<^verbatim>\<open>LOG_FATAL\<close> with its format string; the others are the
  exceptions and the undefined behaviours the code can run into.
\<close>

datatype err =
    Exit_fatal string
  | Bad_function_call
  | Null_dereference
  | Use_after_free
  | Out_of_bounds
  | Length_error
  | Signed_overflow

type_synonym 'a res = "err + 'a"

fun bindE :: "'e + 'a \<Rightarrow> ('a \<Rightarrow> 'e + 'b) \<Rightarrow> 'e + 'b" where
  "bindE (Inl e) f = Inl e"
| "bindE (Inr x) f = f x"

text \<open>A \<open>for\<close> loop whose body may end abnormally.\<close>

fun foldE :: "('a \<Rightarrow> 's \<Rightarrow> 'e + 's) \<Rightarrow> 'a list \<Rightarrow> 's \<Rightarrow> 'e + 's" where
  "foldE f [] s = Inr s"
| "foldE f (x # xs) s = bindE (f x s) (foldE f xs)"

lemma bindE_eq_Inr [simp]: "bindE m f = Inr y \<longleftrightarrow> (\<exists>x. m = Inr x \<and> f x = Inr y)"
  by (cases m) auto

lemma bindE_eq_Inl: "bindE m f = Inl e \<longleftrightarrow> m = Inl e \<or> (\<exists>x. m = Inr x \<and> f x = Inl e)"
  by (cases m) auto

lemma bindE_Inr_right [simp]: "bindE m Inr = m"
  by (cases m) auto

lemma bindE_assoc: "bindE (bindE m f) g = bindE m (\<lambda>x. bindE (f x) g)"
  by (cases m) auto

lemma bindE_cong [fundef_cong]:
  "m = m' \<Longrightarrow> (\<And>x. m' = Inr x \<Longrightarrow> f x = f' x) \<Longrightarrow> bindE m f = bindE m' f'"
  by (cases m) auto

lemma foldE_Nil_fun [simp]: "foldE f [] = Inr"
  by (rule ext) simp

lemma foldE_append: "foldE f (xs @ ys) s = bindE (foldE f xs s) (foldE f ys)"
proof (induction xs arbitrary: s)
  case Nil
  then show ?case by simp
next
  case (Cons x xs)
  then show ?case by (cases "f x s") auto
qed

lemma foldE_cong [fundef_cong]:
  "xs = ys \<Longrightarrow> s = t \<Longrightarrow> (\<And>x u. x \<in> set ys \<Longrightarrow> f x u = g x u) \<Longrightarrow> foldE f xs s = foldE g ys t"
proof (induction ys arbitrary: xs s t)
  case Nil
  then show ?case by simp
next
  case (Cons y ys)
  then have "bindE (g y t) (foldE f ys) = bindE (g y t) (foldE g ys)"
    by (intro bindE_cong) auto
  with Cons.prems show ?case by simp
qed

text \<open>A relation that every round of a loop keeps holds between its start and its end.\<close>

lemma foldE_rel:
  assumes "foldE f xs s = Inr t"
    and "R s s"
    and "\<And>x a b c. x \<in> set xs \<Longrightarrow> R a b \<Longrightarrow> f x b = Inr c \<Longrightarrow> R a c"
  shows "R s t"
proof -
  have "foldE f xs u = Inr t \<Longrightarrow> R s u \<Longrightarrow> R s t" for u
    using assms(3)
  proof (induction xs arbitrary: u)
    case Nil
    then show ?case by simp
  next
    case (Cons x xs)
    from Cons.prems(1) obtain v where v: "f x u = Inr v" "foldE f xs v = Inr t" by auto
    with Cons.prems have "R s v" by (meson list.set_intros(1))
    with v Cons show ?case by (meson list.set_intros(2))
  qed
  with assms(1,2) show ?thesis by blast
qed

lemma foldE_inv:
  assumes "foldE f xs s = Inr t"
    and "P s"
    and "\<And>x a b. x \<in> set xs \<Longrightarrow> P a \<Longrightarrow> f x a = Inr b \<Longrightarrow> P b"
  shows "P t"
  using foldE_rel [of f xs s t "\<lambda>_. P"] assms by blast

text \<open>A loop every round of which succeeds from a state with \<open>P\<close>, and keeps \<open>P\<close>, succeeds.\<close>

lemma foldE_total:
  assumes "P s"
    and "\<And>x a. x \<in> set xs \<Longrightarrow> P a \<Longrightarrow> \<exists>b. f x a = Inr b \<and> P b"
  shows "\<exists>t. foldE f xs s = Inr t \<and> P t"
  using assms
proof (induction xs arbitrary: s)
  case Nil
  then show ?case by simp
next
  case (Cons x xs)
  then obtain b where "f x s = Inr b" "P b"
    by (meson list.set_intros(1))
  with Cons show ?case by auto
qed

text \<open>A loop that fails does so in one of its rounds.\<close>

lemma foldE_error:
  assumes "foldE f xs s = Inl e" "P s"
    and "\<And>x a b. x \<in> set xs \<Longrightarrow> P a \<Longrightarrow> f x a = Inr b \<Longrightarrow> P b" "\<And>x a. x \<in> set xs \<Longrightarrow> P a \<Longrightarrow> f x a = Inl e \<Longrightarrow> Q"
  shows Q
  using assms
proof (induction xs arbitrary: s)
  case (Cons x xs)
  show ?case
  proof (cases "f x s")
    case (Inl e')
    then have "f x s = Inl e" using Cons.prems(1) by simp
    then show ?thesis using Cons.prems(4) [of x s] Cons.prems(2) by simp
  next
    case (Inr b)
    have "foldE f xs b = Inl e" "P b" using Cons.prems(1) Cons.prems(3) [OF list.set_intros(1) Cons.prems(2) Inr] Inr by simp_all
    then show ?thesis
      using Cons.IH [of b] Cons.prems(3) [OF list.set_intros(2)] Cons.prems(4) [OF list.set_intros(2)] by blast
  qed
qed simp

section \<open>C++ integers\<close>

text \<open>
  \<^verbatim>\<open>size_t\<close> is a 64-bit unsigned type: its values are naturals below \<open>2 ^ 64\<close>, and \<open>size_add\<close>,
  \<open>size_sub\<close> are its wrapping operations.  \<^verbatim>\<open>std::vector\<close> refuses (\<^verbatim>\<open>std::length_error\<close>) to grow
  beyond \<open>max_size\<close>, half of the address space.
\<close>

definition size_add :: "nat \<Rightarrow> nat \<Rightarrow> nat" where
  "size_add a b = (a + b) mod 2 ^ 64"

definition size_sub :: "nat \<Rightarrow> nat \<Rightarrow> nat" where
  "size_sub a b = (a + (2 ^ 64 - b)) mod 2 ^ 64"

definition max_size :: nat where
  "max_size = 2 ^ 63 - 1"

lemma size_add_exact [simp]: "a + b < 2 ^ 64 \<Longrightarrow> size_add a b = a + b"
  by (simp add: size_add_def)

lemma size_sub_exact [simp]:
  assumes "b \<le> a" "a < 2 ^ 64"
  shows "size_sub a b = a - b"
proof -
  have "a + (2 ^ 64 - b) = (a - b) + 2 ^ 64" using assms by simp
  then have "size_sub a b = (a - b) mod 2 ^ 64" by (simp add: size_sub_def)
  also have "\<dots> = a - b" using assms by simp
  finally show ?thesis .
qed

text \<open>The two conversions to and from \<^verbatim>\<open>uint64_t\<close> words agree with these operations.\<close>

lemma size_add_word: "size_add (unat a) (unat b) = unat (a + b)" for a b :: "64 word"
  by (simp add: size_add_def unat_word_ariths)

lemma size_sub_word: "size_sub (unat a) (unat b) = unat (a - b)" for a b :: "64 word"
proof -
  have lt: "unat b < 2 ^ 64" using unsigned_less [of b, where 'a = nat] by simp
  have eq: "a - b = word_of_nat (unat a + (2 ^ 64 - unat b))"
    using lt by (simp add: of_nat_diff)
  show ?thesis
    unfolding size_sub_def eq unsigned_of_nat by (simp add: take_bit_eq_mod)
qed

text \<open>\<^verbatim>\<open>int\<close> is a 32-bit signed type; overflow of \<^verbatim>\<open>++\<close> is undefined behaviour.\<close>

definition INT_MAX :: int where
  "INT_MAX = 2 ^ 31 - 1"

definition incr_int :: "int \<Rightarrow> int res" where
  "incr_int i = (if i < INT_MAX then Inr (i + 1) else Inl Signed_overflow)"

section \<open>Memory of a byte vector\<close>

text \<open>A byte is a \<^verbatim>\<open>char\<close>; a \<^verbatim>\<open>std::string\<close> and the contents of a \<^verbatim>\<open>std::vector<char>\<close> are lists of them.\<close>

type_synonym bytes = string

text \<open>
  \<open>vec_write pos d v\<close> is \<^verbatim>\<open>std::copy\<close> of the bytes \<open>d\<close> to \<^verbatim>\<open>begin() + pos\<close>; \<open>vec_read pos n v\<close> reads
  \<open>n\<close> bytes from there.  Outside of the vector both are undefined behaviour.
\<close>

definition vec_write :: "nat \<Rightarrow> bytes \<Rightarrow> bytes \<Rightarrow> bytes res" where
  "vec_write pos d v =
     (if pos + length d \<le> length v then Inr (take pos v @ d @ drop (pos + length d) v)
      else Inl Out_of_bounds)"

definition vec_read :: "nat \<Rightarrow> nat \<Rightarrow> bytes \<Rightarrow> bytes res" where
  "vec_read pos n v = (if pos + n \<le> length v then Inr (take n (drop pos v)) else Inl Out_of_bounds)"

text \<open>\<^verbatim>\<open>resize\<close> cuts the vector or pads it with zero bytes.\<close>

definition vec_resize :: "nat \<Rightarrow> bytes \<Rightarrow> bytes res" where
  "vec_resize n v =
     (if n \<le> max_size then Inr (take n v @ replicate (n - length v) (CHR 0x00)) else Inl Length_error)"

lemma vec_write_length: "vec_write pos d v = Inr v' \<Longrightarrow> length v' = length v"
  by (auto simp: vec_write_def split: if_splits)

lemma vec_write_fits: "pos + length d \<le> length v \<Longrightarrow>
    vec_write pos d v = Inr (take pos v @ d @ drop (pos + length d) v)"
  by (simp add: vec_write_def)

lemma vec_resize_length: "vec_resize n v = Inr v' \<Longrightarrow> length v' = n"
  by (auto simp: vec_resize_def split: if_splits)

section \<open>Lists\<close>

lemma take_drop_segment: "i \<le> j \<Longrightarrow> take (j - i) (drop i xs) = drop i (take j xs)"
  by (simp add: drop_take)

lemma drop_segment: "n \<le> length xs \<Longrightarrow> length (drop n xs) = length xs - n"
  by simp

end
