(* ===== verification/CFormat.thy ===== *)
theory CFormat
  imports Prelude
begin

text \<open>
  The part of the C library's \<^verbatim>\<open>snprintf\<close> the program uses: decimal rendering of integers, field
  widths with blank or zero padding, strings, and truncation to the buffer.  The lemmas give what
  the components rely on: decimal numerals are injective, made of digits only, and of known length.
\<close>

section \<open>Decimal numerals\<close>

definition digit_char :: "nat \<Rightarrow> char" where
  "digit_char d = char_of (48 + d)"

definition digit_val :: "char \<Rightarrow> nat" where
  "digit_val c = of_char c - 48"

definition is_digit :: "char \<Rightarrow> bool" where
  "is_digit c \<longleftrightarrow> 48 \<le> (of_char c :: nat) \<and> (of_char c :: nat) \<le> 57"

fun show_nat :: "nat \<Rightarrow> string" where
  "show_nat n = (if n < 10 then [digit_char n] else show_nat (n div 10) @ [digit_char (n mod 10)])"

declare show_nat.simps [simp del]

fun read_nat :: "nat \<Rightarrow> string \<Rightarrow> nat" where
  "read_nat acc [] = acc"
| "read_nat acc (c # cs) = read_nat (10 * acc + digit_val c) cs"

definition show_int :: "int \<Rightarrow> string" where
  "show_int i = (if i < 0 then CHR ''-'' # show_nat (nat (- i)) else show_nat (nat i))"

lemma of_char_digit: "d < 10 \<Longrightarrow> (of_char (digit_char d) :: nat) = 48 + d"
  by (simp add: digit_char_def of_char_of)

lemma digit_val_char [simp]: "d < 10 \<Longrightarrow> digit_val (digit_char d) = d"
  by (simp add: digit_val_def of_char_digit)

lemma is_digit_char [simp]: "d < 10 \<Longrightarrow> is_digit (digit_char d)"
  by (simp add: is_digit_def of_char_digit)

lemma read_nat_append: "read_nat acc (xs @ ys) = read_nat (read_nat acc xs) ys"
  by (induction xs arbitrary: acc) auto

lemma read_show_nat [simp]: "read_nat 0 (show_nat n) = n"
proof (induction n rule: show_nat.induct)
  case (1 n)
  show ?case
  proof (cases "n < 10")
    case True
    then show ?thesis by (subst show_nat.simps) simp
  next
    case False
    then have "read_nat 0 (show_nat (n div 10)) = n div 10" by (rule 1)
    with False show ?thesis
      by (subst show_nat.simps) (simp add: read_nat_append)
  qed
qed

lemma show_nat_inj [simp]: "show_nat m = show_nat n \<longleftrightarrow> m = n"
  by (metis read_show_nat)

lemma show_nat_digits: "c \<in> set (show_nat n) \<Longrightarrow> is_digit c"
proof (induction n rule: show_nat.induct)
  case (1 n)
  show ?case
  proof (cases "n < 10")
    case True
    with 1 show ?thesis by (simp add: show_nat.simps [of n])
  next
    case False
    with 1 have "c \<in> set (show_nat (n div 10)) \<or> c = digit_char (n mod 10)"
      by (auto simp: show_nat.simps [of n])
    with False 1 show ?thesis by auto
  qed
qed

lemma show_nat_nonempty [simp]: "show_nat n \<noteq> []"
  by (subst show_nat.simps) simp

lemma length_show_nat: "n < 10 ^ k \<Longrightarrow> 0 < k \<Longrightarrow> length (show_nat n) \<le> k"
proof (induction n arbitrary: k rule: show_nat.induct)
  case (1 n)
  show ?case
  proof (cases "n < 10")
    case True
    with 1 show ?thesis by (simp add: show_nat.simps [of n])
  next
    case False
    then obtain j where k: "k = Suc j" "0 < j"
      using 1(2,3) by (cases k; cases "k - 1") auto
    then have "n div 10 < 10 ^ j" using 1(2) by (simp add: less_mult_imp_div_less mult.commute)
    then have "length (show_nat (n div 10)) \<le> j" using 1(1) False k(2) by blast
    with False k show ?thesis by (simp add: show_nat.simps [of n])
  qed
qed

lemma show_nat_no_leading_zero: "1 \<le> n \<Longrightarrow> hd (show_nat n) \<noteq> CHR ''0''"
proof (induction n rule: show_nat.induct)
  case (1 n)
  have z: "CHR ''0'' = digit_char 0" by code_simp
  show ?case
  proof (cases "n < 10")
    case True
    then have "digit_char n \<noteq> digit_char 0" using 1(2)
      by (metis digit_val_char less_one linorder_not_less zero_less_numeral)
    with True show ?thesis by (simp add: show_nat.simps [of n] z)
  next
    case False
    then have "hd (show_nat (n div 10)) \<noteq> CHR ''0''" using 1(1) by simp
    with False show ?thesis by (simp add: show_nat.simps [of n])
  qed
qed

lemma show_int_inj [simp]:
  assumes "0 \<le> i" "0 \<le> j"
  shows "show_int i = show_int j \<longleftrightarrow> i = j"
  using assms by (auto simp: show_int_def)

section \<open>Format strings\<close>

datatype farg = AInt int | AStr string

definition pad :: "bool \<Rightarrow> nat \<Rightarrow> string \<Rightarrow> string" where
  "pad zero w s = replicate (w - length s) (if zero then CHR ''0'' else CHR '' '') @ s"

fun render :: "bool \<Rightarrow> nat \<Rightarrow> farg \<Rightarrow> string" where
  "render zero w (AStr s) = pad False w s"
| "render zero w (AInt i) =
     (if zero \<and> i < 0 then CHR ''-'' # pad True (w - 1) (show_nat (nat (- i)))
      else pad zero w (show_int i))"

text \<open>
  \<open>cformat None\<close> copies characters up to a percent sign; \<open>cformat (Some (zero, w))\<close> is inside of a
  directive, with its zero flag and its width so far.  Length modifiers do not change the rendering.
\<close>

fun cformat :: "(bool \<times> nat) option \<Rightarrow> string \<Rightarrow> farg list \<Rightarrow> string" where
  "cformat m [] args = []"
| "cformat None (c # cs) args =
     (if c = CHR ''%'' then cformat (Some (False, 0)) cs args else c # cformat None cs args)"
| "cformat (Some (zero, w)) (c # cs) args =
     (if c = CHR ''%'' then CHR ''%'' # cformat None cs args
      else if c = CHR ''l'' then cformat (Some (zero, w)) cs args
      else if c = CHR ''0'' \<and> w = 0 then cformat (Some (True, 0)) cs args
      else if is_digit c then cformat (Some (zero, 10 * w + digit_val c)) cs args
      else (case args of [] \<Rightarrow> cformat None cs []
            | a # as \<Rightarrow> render zero w a @ cformat None cs as))"

text \<open>\<open>snprintf n fmt args\<close> leaves in a buffer of \<open>n\<close> bytes what fits beside the final zero.\<close>

definition sprintf :: "string \<Rightarrow> farg list \<Rightarrow> string" where
  "sprintf fmt args = cformat None fmt args"

definition snprintf :: "nat \<Rightarrow> string \<Rightarrow> farg list \<Rightarrow> string" where
  "snprintf n fmt args = take (n - 1) (sprintf fmt args)"

lemma snprintf_fits: "length (sprintf fmt args) < n \<Longrightarrow> snprintf n fmt args = sprintf fmt args"
  by (simp add: snprintf_def)

lemma pad_zero_width [simp]: "pad z 0 s = s"
  by (simp add: pad_def)

lemma length_pad: "length (pad z w s) = max w (length s)"
  by (simp add: pad_def)

lemma sprintf_simps [simp]:
  "sprintf [] args = []"
  "sprintf (c # cs) args =
     (if c = CHR ''%'' then cformat (Some (False, 0)) cs args else c # sprintf cs args)"
  by (simp_all add: sprintf_def)

lemma cformat_back [simp]: "cformat None cs args = sprintf cs args"
  by (simp add: sprintf_def)

lemma is_digit_literals [simp]:
  "\<not> is_digit CHR ''d''" "\<not> is_digit CHR ''u''" "\<not> is_digit CHR ''s''" "\<not> is_digit CHR ''p''"
  "is_digit CHR ''2''" "is_digit CHR ''4''"
  "\<not> is_digit CHR '':''" "\<not> is_digit CHR ''.''" "\<not> is_digit CHR ''#''" "\<not> is_digit CHR ''-''"
  by (simp_all add: is_digit_def)

lemma digit_val_literals [simp]: "digit_val CHR ''2'' = 2" "digit_val CHR ''4'' = 4"
  by (simp_all add: digit_val_def)

text \<open>The directives the program uses, evaluated.\<close>

lemma sprintf_examples:
  "sprintf ''Thread%d'' [AInt 7] = ''Thread7''"
  "sprintf ''%4d%02d%02d %02d:%02d:%02d'' [AInt 2022, AInt 6, AInt 1, AInt 9, AInt 5, AInt 59]
     = ''20220601 09:05:59''"
  by code_simp+

end
