(* ===== verification/InetAddress.thy ===== *)
theory InetAddress
  imports CFormat
begin

text \<open>
  \<^verbatim>\<open>InetAddress.h\<close>, \<^verbatim>\<open>InetAddress.cc\<close>: an IPv4 socket address.  \<open>sin_port\<close> is kept in network order as in
  the C structure (\<open>htons\<close> swaps the bytes of the host's 16-bit word), \<open>sin_addr\<close> is the four bytes of
  the address in memory order.  \<open>inet_pton\<close> and \<open>inet_ntop\<close> are the dotted-decimal conversions of the C
  library for \<^verbatim>\<open>AF_INET\<close>; \<open>inet_pton\<close> refuses anything but four decimal numbers below 256 without
  leading zeros.
\<close>

type_synonym in_addr = "8 word \<times> 8 word \<times> 8 word \<times> 8 word"

record sockaddr_in =
  sin_family :: int
  sin_port :: "16 word"
  sin_addr :: in_addr

record InetAddress =
  addr :: sockaddr_in

definition AF_INET :: int where
  "AF_INET = 2"

definition htons :: "16 word \<Rightarrow> 16 word" where
  "htons x = push_bit 8 x OR drop_bit 8 x"

definition ntohs :: "16 word \<Rightarrow> 16 word" where
  "ntohs x = push_bit 8 x OR drop_bit 8 x"

definition sockaddr_zero :: sockaddr_in where
  "sockaddr_zero = \<lparr>sin_family = 0, sin_port = 0, sin_addr = (0, 0, 0, 0)\<rparr>"

section \<open>Dotted decimal\<close>

definition inet_ntop :: "in_addr \<Rightarrow> string" where
  "inet_ntop a = (case a of (a1, a2, a3, a4) \<Rightarrow>
     show_nat (unat a1) @ ''.'' @ show_nat (unat a2) @ ''.'' @ show_nat (unat a3) @ ''.''
     @ show_nat (unat a4))"

fun split_dots :: "string \<Rightarrow> string list" where
  "split_dots [] = [[]]"
| "split_dots (c # cs) =
     (if c = CHR ''.'' then [] # split_dots cs
      else (case split_dots cs of [] \<Rightarrow> [[c]] | p # ps \<Rightarrow> (c # p) # ps))"

definition octet :: "string \<Rightarrow> 8 word option" where
  "octet s =
     (if s \<noteq> [] \<and> length s \<le> 3 \<and> list_all is_digit s \<and> (hd s = CHR ''0'' \<longrightarrow> length s = 1)
         \<and> read_nat 0 s < 256
      then Some (word_of_nat (read_nat 0 s)) else None)"

definition inet_pton :: "string \<Rightarrow> in_addr option" where
  "inet_pton s = (case map octet (split_dots s) of
     [Some a1, Some a2, Some a3, Some a4] \<Rightarrow> Some (a1, a2, a3, a4)
   | _ \<Rightarrow> None)"

definition c_str :: "string \<Rightarrow> string" where
  "c_str s = takeWhile (\<lambda>c. c \<noteq> CHR 0x00) s"

section \<open>The class\<close>

text \<open>The answer of \<^verbatim>\<open>inet_pton\<close> is ignored: an address that does not parse stays zero.\<close>

definition InetAddress_ctor :: "16 word \<Rightarrow> string \<Rightarrow> InetAddress" where
  "InetAddress_ctor port ip =
     (let a = sockaddr_zero\<lparr>sin_family := AF_INET, sin_port := htons port\<rparr>
      in \<lparr>addr = (case inet_pton (c_str ip) of None \<Rightarrow> a | Some b \<Rightarrow> a\<lparr>sin_addr := b\<rparr>)\<rparr>)"

text \<open>The default arguments.\<close>

definition InetAddress_default :: InetAddress where
  "InetAddress_default = InetAddress_ctor 0 ''127.0.0.1''"

definition InetAddress_of_sockaddr :: "sockaddr_in \<Rightarrow> InetAddress" where
  "InetAddress_of_sockaddr a = \<lparr>addr = a\<rparr>"

definition InetAddress_getSockAddr :: "InetAddress \<Rightarrow> sockaddr_in" where
  "InetAddress_getSockAddr i = addr i"

definition InetAddress_setSockAddr :: "sockaddr_in \<Rightarrow> InetAddress \<Rightarrow> InetAddress" where
  "InetAddress_setSockAddr a i = i\<lparr>addr := a\<rparr>"

definition InetAddress_toIp :: "InetAddress \<Rightarrow> string" where
  "InetAddress_toIp i = take 63 (inet_ntop (sin_addr (addr i)))"

definition InetAddress_port :: "InetAddress \<Rightarrow> 16 word" where
  "InetAddress_port i = ntohs (sin_port (addr i))"

text \<open>\<^verbatim>\<open>sprintf(buf + end, ...)\<close> writes past the 64-byte array when the text does not fit.\<close>

definition InetAddress_toIpPort :: "InetAddress \<Rightarrow> string res" where
  "InetAddress_toIpPort i =
     (let buf = take 63 (inet_ntop (sin_addr (addr i)));
          text = buf @ sprintf '':%u'' [AInt (int (unat (ntohs (sin_port (addr i)))))]
      in if length text < 64 then Inr text else Inl Out_of_bounds)"

section \<open>Lemmas\<close>

lemma ntohs_htons [simp]: "ntohs (htons x) = x"
  unfolding ntohs_def htons_def
  by (rule bit_word_eqI) (auto simp: bit_simps)

lemma length_show_byte: "length (show_nat (unat (a :: 8 word))) \<le> 3"
proof -
  have "unat a < 2 ^ 8" using unsigned_less [of a, where 'a = nat] by simp
  then show ?thesis by (intro length_show_nat) simp_all
qed

lemma length_inet_ntop: "length (inet_ntop a) \<le> 15"
proof -
  obtain a1 a2 a3 a4 where a: "a = (a1, a2, a3, a4)" by (cases a)
  show ?thesis
    unfolding a inet_ntop_def
    using length_show_byte [of a1] length_show_byte [of a2] length_show_byte [of a3]
      length_show_byte [of a4] by simp
qed

lemma split_dots_nonempty [simp]: "split_dots s \<noteq> []"
  by (cases s) (auto split: list.splits)

lemma split_dots_plain: "CHR ''.'' \<notin> set s \<Longrightarrow> split_dots s = [s]"
  by (induction s) auto

lemma split_dots_append:
  "CHR ''.'' \<notin> set s \<Longrightarrow> split_dots (s @ CHR ''.'' # t) = s # split_dots t"
  by (induction s) auto

lemma dot_not_in_show_nat [simp]: "CHR ''.'' \<notin> set (show_nat n)"
  using show_nat_digits is_digit_literals(8) by blast

lemma octet_show: "octet (show_nat (unat a)) = Some a"
proof -
  have lt: "unat a < 256" using unsigned_less [of a, where 'a = nat] by simp
  have "hd (show_nat (unat a)) = CHR ''0'' \<longrightarrow> length (show_nat (unat a)) = 1"
  proof (cases "unat a = 0")
    case True
    then show ?thesis by (simp add: show_nat.simps)
  next
    case False
    then show ?thesis using show_nat_no_leading_zero [of "unat a"] by simp
  qed
  with lt length_show_byte [of a] show ?thesis
    by (auto simp: octet_def list_all_iff dest: show_nat_digits)
qed

text \<open>
  C39: printing the four bytes of an address and parsing the text gives the address back, so an
  \<^verbatim>\<open>InetAddress\<close> built from the text of \<^verbatim>\<open>toIp\<close> and from \<^verbatim>\<open>port\<close> is the address one started with.
\<close>

theorem InetAddress_roundtrip:
  "InetAddress_ctor (InetAddress_port i) (InetAddress_toIp i) =
     \<lparr>addr = \<lparr>sin_family = AF_INET, sin_port = sin_port (addr i), sin_addr = sin_addr (addr i)\<rparr>\<rparr>"
proof -
  obtain a1 a2 a3 a4 where a: "sin_addr (addr i) = (a1, a2, a3, a4)" by (cases "sin_addr (addr i)")
  have ip: "InetAddress_toIp i = inet_ntop (a1, a2, a3, a4)"
    using length_inet_ntop [of "(a1, a2, a3, a4)"] by (simp add: InetAddress_toIp_def a)
  have "CHR 0x00 \<notin> set (inet_ntop (a1, a2, a3, a4))"
    by (auto simp: inet_ntop_def is_digit_def dest: show_nat_digits)
  then have cs: "c_str (inet_ntop (a1, a2, a3, a4)) = inet_ntop (a1, a2, a3, a4)"
    unfolding c_str_def by (intro takeWhile_eq_all_conv [THEN iffD2]) auto
  have "inet_pton (inet_ntop (a1, a2, a3, a4)) = Some (a1, a2, a3, a4)"
    by (simp add: inet_pton_def inet_ntop_def split_dots_append split_dots_plain octet_show)
  moreover have "htons (ntohs p) = p" for p
    using ntohs_htons [of p] by (simp add: htons_def ntohs_def)
  ultimately show ?thesis
    by (simp add: InetAddress_ctor_def ip cs a InetAddress_port_def sockaddr_zero_def)
qed

lemma length_port_text: "length (sprintf '':%u'' [AInt (int (unat (p :: 16 word)))]) \<le> 6"
proof -
  have "unat p < 10 ^ 5" using unsigned_less [of p, where 'a = nat] by simp
  then have "length (show_nat (unat p)) \<le> 5" by (intro length_show_nat) simp_all
  then show ?thesis by (simp add: show_int_def)
qed

text \<open>
  \<^verbatim>\<open>toIpPort\<close> never writes outside of its 64-byte array: its text is the address, a colon and the
  port, at most 21 characters.
\<close>

theorem InetAddress_toIpPort_bound:
  "\<exists>text. InetAddress_toIpPort i = Inr text \<and> length text \<le> 21
     \<and> text = InetAddress_toIp i @ '':'' @ show_nat (unat (InetAddress_port i))"
  using length_inet_ntop [of "sin_addr (addr i)"] length_port_text [of "ntohs (sin_port (addr i))"]
  by (simp add: InetAddress_toIpPort_def Let_def InetAddress_toIp_def InetAddress_port_def show_int_def)

end
