(* ===== verification/Timestamp.thy ===== *)
theory Timestamp
  imports CFormat
begin

text \<open>
  \<^verbatim>\<open>Timestamp.h\<close>, \<^verbatim>\<open>Timestamp.cc\<close>: a 64-bit time value and its rendering.  \<^verbatim>\<open>localtime\<close> belongs to
  the C library and depends on the time zone of the host: it is a parameter of \<open>Timestamp_toString\<close>,
  and \<open>tm_ok\<close> states the documented ranges of the fields it returns.
\<close>

record timestamp =
  microSecondsSinceEpoch :: int

record tm =
  tm_year :: int
  tm_mon :: int
  tm_mday :: int
  tm_hour :: int
  tm_min :: int
  tm_sec :: int

definition Timestamp_default :: timestamp where
  "Timestamp_default = \<lparr>microSecondsSinceEpoch = 0\<rparr>"

definition Timestamp_ctor :: "int \<Rightarrow> timestamp" where
  "Timestamp_ctor micro = \<lparr>microSecondsSinceEpoch = micro\<rparr>"

text \<open>\<open>now\<close> stores the answer of \<^verbatim>\<open>time(NULL)\<close>, which counts seconds.\<close>

definition Timestamp_now :: "int \<Rightarrow> timestamp" where
  "Timestamp_now time_answer = Timestamp_ctor time_answer"

definition Timestamp_toString :: "(int \<Rightarrow> tm) \<Rightarrow> timestamp \<Rightarrow> string" where
  "Timestamp_toString localtime t =
     (let tm_time = localtime (microSecondsSinceEpoch t)
      in snprintf 128 ''%4d%02d%02d %02d:%02d:%02d''
           [AInt (tm_year tm_time + 1900), AInt (tm_mon tm_time + 1), AInt (tm_mday tm_time),
            AInt (tm_hour tm_time), AInt (tm_min tm_time), AInt (tm_sec tm_time)])"

definition tm_ok :: "tm \<Rightarrow> bool" where
  "tm_ok t \<longleftrightarrow> 0 \<le> tm_mon t \<and> tm_mon t \<le> 11 \<and> 1 \<le> tm_mday t \<and> tm_mday t \<le> 31
     \<and> 0 \<le> tm_hour t \<and> tm_hour t \<le> 23 \<and> 0 \<le> tm_min t \<and> tm_min t \<le> 59
     \<and> 0 \<le> tm_sec t \<and> tm_sec t \<le> 60"

section \<open>The rendering\<close>

lemma length_show_int_below:
  assumes "0 \<le> i" "i < 10 ^ k" "0 < k"
  shows "length (show_int i) \<le> k"
proof -
  have "nat i < 10 ^ k" using assms(1,2) by (simp add: nat_less_iff)
  then show ?thesis using assms(1,3) by (simp add: show_int_def length_show_nat)
qed

lemma length_render2:
  assumes "0 \<le> i" "i < 100"
  shows "length (render True 2 (AInt i)) = 2"
  using length_show_int_below [of i 2] assms by (simp add: length_pad)

lemma length_render4:
  assumes "0 \<le> i" "i < 10000"
  shows "length (render False 4 (AInt i)) = 4"
  using length_show_int_below [of i 4] assms by (simp add: length_pad)

lemma toString_sprintf:
  "sprintf ''%4d%02d%02d %02d:%02d:%02d'' [a, b, c, d, e, f] =
     render False 4 a @ render True 2 b @ render True 2 c @ '' '' @ render True 2 d @ '':''
     @ render True 2 e @ '':'' @ render True 2 f"
  by (simp add: numeral_2_eq_2 del: render.simps)

text \<open>
  C40: for every broken-down time in the documented ranges with a four-digit year, \<^verbatim>\<open>toString\<close>
  renders exactly 17 characters, so its 128-byte buffer never cuts it.
\<close>

theorem Timestamp_toString_width:
  assumes "tm_ok (localtime (microSecondsSinceEpoch t))"
    and "-1900 \<le> tm_year (localtime (microSecondsSinceEpoch t))"
    and "tm_year (localtime (microSecondsSinceEpoch t)) < 8100"
  shows "length (Timestamp_toString localtime t) = 17"
proof -
  let ?t = "localtime (microSecondsSinceEpoch t)"
  have "length (sprintf ''%4d%02d%02d %02d:%02d:%02d''
      [AInt (tm_year ?t + 1900), AInt (tm_mon ?t + 1), AInt (tm_mday ?t),
       AInt (tm_hour ?t), AInt (tm_min ?t), AInt (tm_sec ?t)]) = 17"
    using assms unfolding toString_sprintf tm_ok_def
    by (simp add: length_render2 length_render4 del: render.simps)
  then show ?thesis
    unfolding Timestamp_toString_def Let_def by (subst snprintf_fits) simp_all
qed

definition epoch_tm :: "int \<Rightarrow> tm" where
  "epoch_tm s = \<lparr>tm_year = 70, tm_mon = 0, tm_mday = 1, tm_hour = 0, tm_min = 0, tm_sec = s mod 60\<rparr>"

theorem Timestamp_toString_width_witness:
  "length (Timestamp_toString epoch_tm (Timestamp_now 42)) = 17
   \<and> Timestamp_toString epoch_tm (Timestamp_now 42) = ''19700101 00:00:42''"
proof
  show "length (Timestamp_toString epoch_tm (Timestamp_now 42)) = 17"
    by (rule Timestamp_toString_width)
      (simp_all add: epoch_tm_def tm_ok_def Timestamp_now_def Timestamp_ctor_def)
  show "Timestamp_toString epoch_tm (Timestamp_now 42) = ''19700101 00:00:42''"
    by code_simp
qed

end
