(* ===== verification/Logger.thy ===== *)
theory Logger
  imports Timestamp
begin

text \<open>
  \<^verbatim>\<open>Logger.h\<close>, \<^verbatim>\<open>Logger.cc\<close>: the levels, the line \<open>log\<close> writes and the effect of the \<^verbatim>\<open>LOG_*\<close> macros on
  the singleton.  Standard output is the list of lines written so far.
\<close>

datatype LogLevel = INFO | ERROR | FATAL | DEBUG

fun level_num :: "LogLevel \<Rightarrow> int" where
  "level_num INFO = 0"
| "level_num ERROR = 1"
| "level_num FATAL = 2"
| "level_num DEBUG = 3"

text \<open>The singleton is a static object, so \<open>logLevel\<close> starts as zero.\<close>

record logger =
  logLevel :: int
  stdout :: "string list"

definition Logger_initial :: logger where
  "Logger_initial = \<lparr>logLevel = 0, stdout = []\<rparr>"

definition Logger_setLogLevel :: "int \<Rightarrow> logger \<Rightarrow> logger" where
  "Logger_setLogLevel level l = l\<lparr>logLevel := level\<rparr>"

definition level_tag :: "int \<Rightarrow> string" where
  "level_tag n =
     (if n = level_num INFO then ''[INFO]''
      else if n = level_num ERROR then ''[ERROR]''
      else if n = level_num FATAL then ''[FATAL]''
      else if n = level_num DEBUG then ''[DEBUG]''
      else [])"

text \<open>\<open>now\<close> is the rendered \<^verbatim>\<open>Timestamp::now()\<close>.\<close>

definition Logger_log :: "string \<Rightarrow> string \<Rightarrow> logger \<Rightarrow> logger" where
  "Logger_log now msg l = l\<lparr>stdout := stdout l @ [level_tag (logLevel l) @ now @ '' : '' @ msg @ [CHR 0x0A]]\<rparr>"

text \<open>The body the macros share: set the level, render into 1024 bytes, write the line.\<close>

definition LOG_macro :: "LogLevel \<Rightarrow> string \<Rightarrow> string \<Rightarrow> farg list \<Rightarrow> logger \<Rightarrow> logger" where
  "LOG_macro level now fmt args l =
     Logger_log now (snprintf 1024 fmt args) (Logger_setLogLevel (level_num level) l)"

text \<open>
  A \<^verbatim>\<open>LOG_*\<close> macro writes exactly one line, made of the tag of its level, the time and its
  rendered message cut to 1023 bytes, and leaves its level in the singleton.
\<close>

theorem LOG_macro_line:
  "stdout (LOG_macro level now fmt args l) =
     stdout l @ [(case level of INFO \<Rightarrow> ''[INFO]'' | ERROR \<Rightarrow> ''[ERROR]'' | FATAL \<Rightarrow> ''[FATAL]''
                  | DEBUG \<Rightarrow> ''[DEBUG]'') @ now @ '' : '' @ take 1023 (sprintf fmt args) @ [CHR 0x0A]]
   \<and> logLevel (LOG_macro level now fmt args l) = level_num level"
  by (cases level)
    (simp_all add: LOG_macro_def Logger_log_def Logger_setLogLevel_def level_tag_def snprintf_def)

end
