(* ===== verification/Callbacks.thy ===== *)
theory Callbacks
  imports Prelude
begin

text \<open>
  \<^verbatim>\<open>Callbacks.h\<close> and the \<^verbatim>\<open>std::bind\<close> expressions of the program.  Objects are named by numbers: an
  event loop by its place (0 is the loop the user gave to the server, \<open>i + 1\<close> the loop of the \<open>i\<close>-th
  pool thread), a connection by the order of its construction, a channel by its owner.  A
  \<^verbatim>\<open>std::function\<close> value is the name of the bound member function with its bound arguments, or the
  number of a function of the user's program; an empty one is \<open>None\<close>.
\<close>

type_synonym fd = int
type_synonym loop_id = nat
type_synonym conn_id = nat
type_synonym user_fun = nat

text \<open>The owner of a channel: \<open>EventLoop::wakeupChannel_\<close>, the acceptor's channel, or a connection's.\<close>

datatype chan_id = WakeupChan loop_id | AcceptChan | ConnChan conn_id

text \<open>The functions bound with \<^verbatim>\<open>Channel::set...Callback\<close>.\<close>

datatype channel_cb =
    Bind_EventLoop_handleRead loop_id
  | Bind_Acceptor_handleRead
  | Bind_TcpConnection_handleRead conn_id
  | Bind_TcpConnection_handleWrite conn_id
  | Bind_TcpConnection_handleClose conn_id
  | Bind_TcpConnection_handleError conn_id

text \<open>
  The functions handed to \<^verbatim>\<open>runInLoop\<close> and \<^verbatim>\<open>queueInLoop\<close>.  \<open>Bind_sendInLoop c p n\<close> holds a raw pointer
  \<open>p\<close> into a string of the caller and its length \<open>n\<close>, and, as \<open>Bind_shutdownInLoop\<close>, a raw \<^verbatim>\<open>this\<close>; the
  functions bound to \<^verbatim>\<open>shared_from_this()\<close> or to a \<^verbatim>\<open>TcpConnectionPtr\<close> keep the connection alive.
\<close>

datatype Functor =
    Bind_connectEstablished conn_id
  | Bind_connectDestroyed conn_id
  | Bind_sendInLoop conn_id nat nat
  | Bind_shutdownInLoop conn_id
  | Bind_writeComplete user_fun conn_id
  | Bind_highWaterMark user_fun conn_id nat
  | Bind_removeConnectionInLoop conn_id
  | Bind_Acceptor_listen
  | User_functor user_fun

fun functor_owner :: "Functor \<Rightarrow> conn_id option" where
  "functor_owner (Bind_connectEstablished c) = Some c"
| "functor_owner (Bind_connectDestroyed c) = Some c"
| "functor_owner (Bind_writeComplete u c) = Some c"
| "functor_owner (Bind_highWaterMark u c n) = Some c"
| "functor_owner (Bind_removeConnectionInLoop c) = Some c"
| "functor_owner _ = None"

text \<open>The functor uses this connection through a raw pointer.\<close>

fun functor_raw :: "Functor \<Rightarrow> conn_id option" where
  "functor_raw (Bind_sendInLoop c p n) = Some c"
| "functor_raw (Bind_shutdownInLoop c) = Some c"
| "functor_raw _ = None"

end
