(* ===== verification/Kernel.thy ===== *)
theory Kernel
  imports InetAddress Logger Callbacks
begin

text \<open>
  The operating system the program calls, as a parameter.  A \<open>kernel\<close> gives the answer to every
  system call from the whole history of calls (\<open>kevent list\<close>) and the call's arguments, so a
  statement for every kernel is a statement for every behaviour of the environment.  Each
  \<open>sys_*\<close> operation asks the kernel and appends the call with its answer to the history.  What the
  documentation of a call promises is a predicate on kernels (\<open>write_law\<close> and so on), used as a
  hypothesis where a property rests on it.
\<close>

section \<open>Calls and answers\<close>

type_synonym errno = int

definition EINTR :: errno where "EINTR = 4"
definition EWOULDBLOCK :: errno where "EWOULDBLOCK = 11"
definition EMFILE :: errno where "EMFILE = 24"
definition EPIPE :: errno where "EPIPE = 32"
definition ECONNRESET :: errno where "ECONNRESET = 104"

datatype 'a sysret = Ok 'a | Fail errno

datatype ctl_op = EPOLL_CTL_ADD | EPOLL_CTL_MOD | EPOLL_CTL_DEL

text \<open>\<^verbatim>\<open>epoll_data\<close> is a union: the pointer stored last is what comes back.\<close>

record epoll_event =
  ev_events :: "32 word"
  ev_ptr :: "chan_id option"

datatype sockopt = TCP_NODELAY | SO_REUSEADDR | SO_REUSEPORT | SO_KEEPALIVE

datatype kevent =
    EvEpollCreate "fd sysret"
  | EvEpollCtl fd ctl_op fd epoll_event "unit sysret"
  | EvEpollWait fd nat int "epoll_event list sysret"
  | EvEventfd "fd sysret"
  | EvRead fd nat "bytes sysret"
  | EvReadv fd "nat list" "bytes sysret"
  | EvWrite fd bytes "nat sysret"
  | EvSocket "fd sysret"
  | EvBind fd sockaddr_in "unit sysret"
  | EvListen fd nat "unit sysret"
  | EvAccept fd "(fd \<times> sockaddr_in) sysret"
  | EvShutdown fd "unit sysret"
  | EvSetsockopt fd sockopt int
  | EvGetsockopt fd "int sysret"
  | EvGetsockname fd "sockaddr_in sysret"
  | EvClose fd
  | EvClone int

type_synonym ktrace = "kevent list"

text \<open>
  \<open>k_no_return\<close> is the value a caller finds where a function with a result falls off its end
  without a \<^verbatim>\<open>return\<close>: anything.
\<close>

record kernel =
  k_epoll_create :: "ktrace \<Rightarrow> fd sysret"
  k_epoll_ctl :: "ktrace \<Rightarrow> fd \<Rightarrow> ctl_op \<Rightarrow> fd \<Rightarrow> epoll_event \<Rightarrow> unit sysret"
  k_epoll_wait :: "ktrace \<Rightarrow> fd \<Rightarrow> nat \<Rightarrow> int \<Rightarrow> epoll_event list sysret"
  k_eventfd :: "ktrace \<Rightarrow> fd sysret"
  k_read :: "ktrace \<Rightarrow> fd \<Rightarrow> nat \<Rightarrow> bytes sysret"
  k_readv :: "ktrace \<Rightarrow> fd \<Rightarrow> nat list \<Rightarrow> bytes sysret"
  k_write :: "ktrace \<Rightarrow> fd \<Rightarrow> bytes \<Rightarrow> nat sysret"
  k_socket :: "ktrace \<Rightarrow> fd sysret"
  k_bind :: "ktrace \<Rightarrow> fd \<Rightarrow> sockaddr_in \<Rightarrow> unit sysret"
  k_listen :: "ktrace \<Rightarrow> fd \<Rightarrow> nat \<Rightarrow> unit sysret"
  k_accept :: "ktrace \<Rightarrow> fd \<Rightarrow> (fd \<times> sockaddr_in) sysret"
  k_shutdown :: "ktrace \<Rightarrow> fd \<Rightarrow> unit sysret"
  k_getsockopt :: "ktrace \<Rightarrow> fd \<Rightarrow> int sysret"
  k_getsockname :: "ktrace \<Rightarrow> fd \<Rightarrow> sockaddr_in sysret"
  k_time :: "ktrace \<Rightarrow> int"
  k_localtime :: "int \<Rightarrow> tm"
  k_clone :: "ktrace \<Rightarrow> int"
  k_getenv_poll :: bool
  k_no_return :: "ktrace \<Rightarrow> int"

text \<open>The state every component reaches: the history, standard output, and the running thread's id.\<close>

record kworld =
  ktrace :: ktrace
  logger_of :: logger
  cur_tid :: int

section \<open>System calls\<close>

definition record_event :: "kevent \<Rightarrow> ('z) kworld_scheme \<Rightarrow> 'z kworld_scheme" where
  "record_event e w = w\<lparr>ktrace := ktrace w @ [e]\<rparr>"

definition sys_epoll_create :: "kernel \<Rightarrow> 'z kworld_scheme \<Rightarrow> fd sysret \<times> 'z kworld_scheme" where
  "sys_epoll_create K w = (let r = k_epoll_create K (ktrace w) in (r, record_event (EvEpollCreate r) w))"

definition sys_epoll_ctl ::
    "kernel \<Rightarrow> fd \<Rightarrow> ctl_op \<Rightarrow> fd \<Rightarrow> epoll_event \<Rightarrow> 'z kworld_scheme \<Rightarrow> unit sysret \<times> 'z kworld_scheme" where
  "sys_epoll_ctl K ep opn fd ev w =
     (let r = k_epoll_ctl K (ktrace w) ep opn fd ev in (r, record_event (EvEpollCtl ep opn fd ev r) w))"

definition sys_epoll_wait ::
    "kernel \<Rightarrow> fd \<Rightarrow> nat \<Rightarrow> int \<Rightarrow> 'z kworld_scheme \<Rightarrow> epoll_event list sysret \<times> 'z kworld_scheme" where
  "sys_epoll_wait K ep n t w =
     (let r = k_epoll_wait K (ktrace w) ep n t in (r, record_event (EvEpollWait ep n t r) w))"

definition sys_eventfd :: "kernel \<Rightarrow> 'z kworld_scheme \<Rightarrow> fd sysret \<times> 'z kworld_scheme" where
  "sys_eventfd K w = (let r = k_eventfd K (ktrace w) in (r, record_event (EvEventfd r) w))"

definition sys_read :: "kernel \<Rightarrow> fd \<Rightarrow> nat \<Rightarrow> 'z kworld_scheme \<Rightarrow> bytes sysret \<times> 'z kworld_scheme" where
  "sys_read K fd n w = (let r = k_read K (ktrace w) fd n in (r, record_event (EvRead fd n r) w))"

definition sys_readv ::
    "kernel \<Rightarrow> fd \<Rightarrow> nat list \<Rightarrow> 'z kworld_scheme \<Rightarrow> bytes sysret \<times> 'z kworld_scheme" where
  "sys_readv K fd iov w = (let r = k_readv K (ktrace w) fd iov in (r, record_event (EvReadv fd iov r) w))"

definition sys_write :: "kernel \<Rightarrow> fd \<Rightarrow> bytes \<Rightarrow> 'z kworld_scheme \<Rightarrow> nat sysret \<times> 'z kworld_scheme" where
  "sys_write K fd d w = (let r = k_write K (ktrace w) fd d in (r, record_event (EvWrite fd d r) w))"

definition sys_socket :: "kernel \<Rightarrow> 'z kworld_scheme \<Rightarrow> fd sysret \<times> 'z kworld_scheme" where
  "sys_socket K w = (let r = k_socket K (ktrace w) in (r, record_event (EvSocket r) w))"

definition sys_bind :: "kernel \<Rightarrow> fd \<Rightarrow> sockaddr_in \<Rightarrow> 'z kworld_scheme \<Rightarrow> unit sysret \<times> 'z kworld_scheme" where
  "sys_bind K fd a w = (let r = k_bind K (ktrace w) fd a in (r, record_event (EvBind fd a r) w))"

definition sys_listen :: "kernel \<Rightarrow> fd \<Rightarrow> nat \<Rightarrow> 'z kworld_scheme \<Rightarrow> unit sysret \<times> 'z kworld_scheme" where
  "sys_listen K fd n w = (let r = k_listen K (ktrace w) fd n in (r, record_event (EvListen fd n r) w))"

definition sys_accept ::
    "kernel \<Rightarrow> fd \<Rightarrow> 'z kworld_scheme \<Rightarrow> (fd \<times> sockaddr_in) sysret \<times> 'z kworld_scheme" where
  "sys_accept K fd w = (let r = k_accept K (ktrace w) fd in (r, record_event (EvAccept fd r) w))"

definition sys_shutdown :: "kernel \<Rightarrow> fd \<Rightarrow> 'z kworld_scheme \<Rightarrow> unit sysret \<times> 'z kworld_scheme" where
  "sys_shutdown K fd w = (let r = k_shutdown K (ktrace w) fd in (r, record_event (EvShutdown fd r) w))"

definition sys_setsockopt :: "fd \<Rightarrow> sockopt \<Rightarrow> int \<Rightarrow> 'z kworld_scheme \<Rightarrow> 'z kworld_scheme" where
  "sys_setsockopt fd opt v w = record_event (EvSetsockopt fd opt v) w"

definition sys_getsockopt :: "kernel \<Rightarrow> fd \<Rightarrow> 'z kworld_scheme \<Rightarrow> int sysret \<times> 'z kworld_scheme" where
  "sys_getsockopt K fd w = (let r = k_getsockopt K (ktrace w) fd in (r, record_event (EvGetsockopt fd r) w))"

definition sys_getsockname ::
    "kernel \<Rightarrow> fd \<Rightarrow> 'z kworld_scheme \<Rightarrow> sockaddr_in sysret \<times> 'z kworld_scheme" where
  "sys_getsockname K fd w = (let r = k_getsockname K (ktrace w) fd in (r, record_event (EvGetsockname fd r) w))"

definition sys_close :: "fd \<Rightarrow> 'z kworld_scheme \<Rightarrow> 'z kworld_scheme" where
  "sys_close fd w = record_event (EvClose fd) w"

text \<open>A new thread: its id.\<close>

definition sys_clone :: "kernel \<Rightarrow> 'z kworld_scheme \<Rightarrow> int \<times> 'z kworld_scheme" where
  "sys_clone K w = (let t = k_clone K (ktrace w) in (t, record_event (EvClone t) w))"

lemmas sys_defs = record_event_def sys_epoll_create_def sys_epoll_ctl_def sys_epoll_wait_def
  sys_eventfd_def sys_read_def sys_readv_def sys_write_def sys_socket_def sys_bind_def sys_listen_def
  sys_accept_def sys_shutdown_def sys_setsockopt_def sys_getsockopt_def sys_getsockname_def sys_close_def

text \<open>The \<^verbatim>\<open>LOG_*\<close> macros on the world; after \<^verbatim>\<open>LOG_FATAL\<close> the process is gone.\<close>

definition LOG :: "kernel \<Rightarrow> LogLevel \<Rightarrow> string \<Rightarrow> farg list \<Rightarrow> 'z kworld_scheme \<Rightarrow> 'z kworld_scheme" where
  "LOG K level fmt args w =
     w\<lparr>logger_of := LOG_macro level
         (Timestamp_toString (k_localtime K) (Timestamp_now (k_time K (ktrace w)))) fmt args (logger_of w)\<rparr>"

definition LOG_FATAL :: "string \<Rightarrow> 'a res" where
  "LOG_FATAL fmt = Inl (Exit_fatal fmt)"

lemma LOG_ktrace [simp]: "ktrace (LOG K lv fmt args w) = ktrace w"
  by (simp add: LOG_def)

lemma LOG_cur_tid [simp]: "cur_tid (LOG K lv fmt args w) = cur_tid w"
  by (simp add: LOG_def)

lemma LOG_more [simp]: "kworld.more (LOG K lv fmt args w) = kworld.more w"
  by (simp add: LOG_def)

section \<open>What a history says\<close>

text \<open>The interest list of an epoll instance: what was registered, changed and removed, with closes.\<close>

fun interest_after :: "fd \<Rightarrow> kevent \<Rightarrow> (fd \<rightharpoonup> epoll_event) \<Rightarrow> (fd \<rightharpoonup> epoll_event)" where
  "interest_after ep (EvEpollCtl e EPOLL_CTL_ADD fd ev (Ok u)) m = (if e = ep then m(fd \<mapsto> ev) else m)"
| "interest_after ep (EvEpollCtl e EPOLL_CTL_MOD fd ev (Ok u)) m = (if e = ep then m(fd \<mapsto> ev) else m)"
| "interest_after ep (EvEpollCtl e EPOLL_CTL_DEL fd ev (Ok u)) m = (if e = ep then m(fd := None) else m)"
| "interest_after ep (EvClose fd) m = m(fd := None)"
| "interest_after ep (EvEpollCreate (Ok e)) m = (if e = ep then Map.empty else m)"
| "interest_after ep _ m = m"

definition interest :: "fd \<Rightarrow> ktrace \<Rightarrow> (fd \<rightharpoonup> epoll_event)" where
  "interest ep tr = fold (interest_after ep) tr Map.empty"

lemma interest_snoc [simp]: "interest ep (tr @ [e]) = interest_after ep e (interest ep tr)"
  by (simp add: interest_def)

lemma interest_Nil [simp]: "interest ep [] = Map.empty"
  by (simp add: interest_def)

text \<open>The descriptors the process has open.\<close>

fun open_after :: "kevent \<Rightarrow> fd set \<Rightarrow> fd set" where
  "open_after (EvEpollCreate (Ok f)) s = insert f s"
| "open_after (EvEventfd (Ok f)) s = insert f s"
| "open_after (EvSocket (Ok f)) s = insert f s"
| "open_after (EvAccept l (Ok (f, a))) s = insert f s"
| "open_after (EvClose f) s = s - {f}"
| "open_after _ s = s"

definition open_fds :: "ktrace \<Rightarrow> fd set" where
  "open_fds tr = fold open_after tr {}"

lemma open_fds_snoc [simp]: "open_fds (tr @ [e]) = open_after e (open_fds tr)"
  by (simp add: open_fds_def)

lemma open_fds_append: "open_fds (a @ b) = fold open_after b (open_fds a)"
  by (simp add: open_fds_def)

lemma open_fds_Nil [simp]: "open_fds [] = {}"
  by (simp add: open_fds_def)

text \<open>The bytes a descriptor accepted and delivered.\<close>

fun written_by :: "fd \<Rightarrow> kevent \<Rightarrow> bytes" where
  "written_by f (EvWrite g d (Ok n)) = (if g = f then take n d else [])"
| "written_by f _ = []"

definition written :: "fd \<Rightarrow> ktrace \<Rightarrow> bytes" where
  "written f tr = concat (map (written_by f) tr)"

fun delivered_by :: "fd \<Rightarrow> kevent \<Rightarrow> bytes" where
  "delivered_by f (EvReadv g iov (Ok d)) = (if g = f then d else [])"
| "delivered_by f _ = []"

definition delivered :: "fd \<Rightarrow> ktrace \<Rightarrow> bytes" where
  "delivered f tr = concat (map (delivered_by f) tr)"

lemma written_snoc [simp]: "written f (tr @ [e]) = written f tr @ written_by f e"
  by (simp add: written_def)

lemma written_append: "written f (a @ b) = written f a @ written f b"
  by (simp add: written_def)

lemma written_single [simp]: "written f [e] = written_by f e"
  by (simp add: written_def)

lemma delivered_snoc [simp]: "delivered f (tr @ [e]) = delivered f tr @ delivered_by f e"
  by (simp add: delivered_def)

section \<open>What the calls are documented to do\<close>

text \<open>\<^verbatim>\<open>write\<close> accepts at most what it is given, \<^verbatim>\<open>readv\<close> delivers at most what the vectors hold.\<close>

definition write_law :: "kernel \<Rightarrow> bool" where
  "write_law K \<longleftrightarrow> (\<forall>tr f d n. k_write K tr f d = Ok n \<longrightarrow> n \<le> length d)"

definition readv_law :: "kernel \<Rightarrow> bool" where
  "readv_law K \<longleftrightarrow> (\<forall>tr f iov d. k_readv K tr f iov = Ok d \<longrightarrow> length d \<le> sum_list iov)"

text \<open>
  \<^verbatim>\<open>epoll_ctl\<close> registers an open descriptor that is not registered yet, and changes or removes one
  that is.  \<^verbatim>\<open>epoll_wait\<close> reports at most \<^verbatim>\<open>maxevents\<close> descriptors, each with the pointer it was
  registered with.
\<close>

definition epoll_ctl_law :: "kernel \<Rightarrow> bool" where
  "epoll_ctl_law K \<longleftrightarrow> (\<forall>tr ep f ev.
     (f \<in> open_fds tr \<and> interest ep tr f = None \<longrightarrow> k_epoll_ctl K tr ep EPOLL_CTL_ADD f ev = Ok ()) \<and>
     (interest ep tr f \<noteq> None \<longrightarrow> k_epoll_ctl K tr ep EPOLL_CTL_MOD f ev = Ok ()) \<and>
     (interest ep tr f \<noteq> None \<longrightarrow> k_epoll_ctl K tr ep EPOLL_CTL_DEL f ev = Ok ()))"

definition epoll_wait_law :: "kernel \<Rightarrow> bool" where
  "epoll_wait_law K \<longleftrightarrow> (\<forall>tr ep n t evs. k_epoll_wait K tr ep n t = Ok evs \<longrightarrow>
     length evs \<le> n \<and> (\<forall>ev \<in> set evs. \<exists>f ev'. interest ep tr f = Some ev' \<and> ev_ptr ev = ev_ptr ev'))"

text \<open>A new descriptor is one the process does not have open; standard input, output and error are.\<close>

definition fresh_law :: "kernel \<Rightarrow> bool" where
  "fresh_law K \<longleftrightarrow> (\<forall>tr f. (k_epoll_create K tr = Ok f \<or> k_eventfd K tr = Ok f \<or> k_socket K tr = Ok f
     \<or> (\<exists>l a. k_accept K tr l = Ok (f, a))) \<longrightarrow> f \<notin> open_fds tr \<and> 2 < f)"

text \<open>A new thread has an id that no earlier thread had, nor the first one.\<close>

definition cloned :: "ktrace \<Rightarrow> int set" where
  "cloned tr = {t. EvClone t \<in> set tr}"

definition clone_law :: "kernel \<Rightarrow> int \<Rightarrow> bool" where
  "clone_law K main \<longleftrightarrow> (\<forall>tr. k_clone K tr \<notin> insert main (cloned tr))"

text \<open>The process gets the descriptors it asks for.\<close>

definition opens_law :: "kernel \<Rightarrow> bool" where
  "opens_law K \<longleftrightarrow> \<not> k_getenv_poll K \<and> (\<forall>tr. (\<exists>f. k_epoll_create K tr = Ok f) \<and> (\<exists>f. k_eventfd K tr = Ok f))"

section \<open>A kernel for examples\<close>

text \<open>
  An environment that behaves: every descriptor is new, every write is accepted up to \<open>cap\<close> bytes,
  and every read delivers \<open>input\<close>.
\<close>

fun above :: "kevent \<Rightarrow> fd \<Rightarrow> fd" where
  "above (EvEpollCreate (Ok f)) b = max b (f + 1)"
| "above (EvEventfd (Ok f)) b = max b (f + 1)"
| "above (EvSocket (Ok f)) b = max b (f + 1)"
| "above (EvAccept l (Ok (f, a))) b = max b (f + 1)"
| "above _ b = b"

definition fresh_fd :: "ktrace \<Rightarrow> fd" where
  "fresh_fd tr = fold above tr 3"

lemma above_open: "f \<in> open_after e s \<Longrightarrow> (\<forall>g \<in> s. g < b) \<Longrightarrow> f < above e b"
  by (induction e b rule: above.induct) (auto simp: less_max_iff_disj)

lemma fresh_fd_open: "f \<in> open_fds tr \<Longrightarrow> f < fresh_fd tr"
proof (induction tr arbitrary: f rule: rev_induct)
  case Nil
  then show ?case by simp
next
  case (snoc e tr)
  then show ?case
    using above_open [of f e "open_fds tr" "fresh_fd tr"] by (auto simp: fresh_fd_def)
qed

lemma fresh_fd_above: "2 < fresh_fd tr"
proof -
  have "b \<le> above e b" for e b by (induction e b rule: above.induct) auto
  then have "b \<le> fold above tr b" for b by (induction tr arbitrary: b) (auto intro: order.trans)
  from this [of 3] show ?thesis by (simp add: fresh_fd_def)
qed

definition fresh_tid :: "ktrace \<Rightarrow> int" where
  "fresh_tid tr = fold (\<lambda>e b. case e of EvClone t \<Rightarrow> max b (t + 1) | _ \<Rightarrow> b) tr 2"

lemma fresh_tid_cloned: "t \<in> insert 1 (cloned tr) \<Longrightarrow> t < fresh_tid tr"
  unfolding cloned_def fresh_tid_def
  by (induction tr arbitrary: t rule: rev_induct) (fastforce split: kevent.splits)+

lemma fresh_tid_new: "fresh_tid tr \<noteq> 1" "fresh_tid tr \<notin> cloned tr"
  using fresh_tid_cloned [of 1 tr] fresh_tid_cloned [of "fresh_tid tr" tr] by auto

definition plain_ctl :: "ktrace \<Rightarrow> fd \<Rightarrow> ctl_op \<Rightarrow> fd \<Rightarrow> epoll_event \<Rightarrow> unit sysret" where
  "plain_ctl tr ep opn f ev = (case opn of
     EPOLL_CTL_ADD \<Rightarrow> (if interest ep tr f = None then Ok () else Fail 17)
   | _ \<Rightarrow> (if interest ep tr f = None then Fail 2 else Ok ()))"

definition plain_kernel :: "nat \<Rightarrow> bytes \<Rightarrow> kernel" where
  "plain_kernel cap input =
     \<lparr>k_epoll_create = (\<lambda>tr. Ok (fresh_fd tr)),
      k_epoll_ctl = plain_ctl,
      k_epoll_wait = (\<lambda>tr ep n t. Ok []),
      k_eventfd = (\<lambda>tr. Ok (fresh_fd tr)),
      k_read = (\<lambda>tr f n. Ok (replicate n (CHR 0x00))),
      k_readv = (\<lambda>tr f iov. Ok (take (sum_list iov) input)),
      k_write = (\<lambda>tr f d. Ok (min cap (length d))),
      k_socket = (\<lambda>tr. Ok (fresh_fd tr)),
      k_bind = (\<lambda>tr f a. Ok ()),
      k_listen = (\<lambda>tr f n. Ok ()),
      k_accept = (\<lambda>tr f. Ok (fresh_fd tr, sockaddr_zero)),
      k_shutdown = (\<lambda>tr f. Ok ()),
      k_getsockopt = (\<lambda>tr f. Ok 0),
      k_getsockname = (\<lambda>tr f. Ok sockaddr_zero),
      k_time = (\<lambda>tr. 0),
      k_localtime = (\<lambda>s. \<lparr>tm_year = 70, tm_mon = 0, tm_mday = 1, tm_hour = 0, tm_min = 0, tm_sec = 0\<rparr>),
      k_clone = fresh_tid,
      k_getenv_poll = False,
      k_no_return = (\<lambda>tr. case rev tr of EvReadv f iov (Ok d) # _ \<Rightarrow> int (length d) | _ \<Rightarrow> -1)\<rparr>"

lemma plain_kernel_laws [simp]:
  "write_law (plain_kernel cap input)" "readv_law (plain_kernel cap input)"
  "epoll_ctl_law (plain_kernel cap input)" "epoll_wait_law (plain_kernel cap input)"
  "fresh_law (plain_kernel cap input)" "clone_law (plain_kernel cap input) 1" "opens_law (plain_kernel cap input)"
  using fresh_fd_open fresh_fd_above fresh_tid_new
  by (auto simp: write_law_def readv_law_def epoll_ctl_law_def epoll_wait_law_def plain_kernel_def
      plain_ctl_def fresh_law_def clone_law_def opens_law_def)

end
