(* ===== verification/Channel.thy ===== *)
theory Channel
  imports Kernel
begin

text \<open>
  \<^verbatim>\<open>Channel.h\<close>, \<^verbatim>\<open>Channel.cc\<close>: the state of a channel, its interest bits and the dispatch of a reported
  event to its callbacks.  \<open>update\<close> and \<open>remove\<close> go through the owner loop and are in the theory
  \<open>EventLoop\<close>.  The callbacks run on a world \<open>'w\<close> that extends \<open>cworld\<close>: what a bound function does is
  a parameter \<open>run\<close> of the dispatch.
\<close>

section \<open>Event bits\<close>

definition EPOLLIN :: "32 word" where "EPOLLIN = 1"
definition EPOLLPRI :: "32 word" where "EPOLLPRI = 2"
definition EPOLLOUT :: "32 word" where "EPOLLOUT = 4"
definition EPOLLERR :: "32 word" where "EPOLLERR = 8"
definition EPOLLHUP :: "32 word" where "EPOLLHUP = 16"

definition kNoneEvent :: "32 word" where "kNoneEvent = 0"
definition kReadEvent :: "32 word" where "kReadEvent = EPOLLIN OR EPOLLPRI"
definition kWriteEvent :: "32 word" where "kWriteEvent = EPOLLOUT"

lemmas event_bits = EPOLLIN_def EPOLLPRI_def EPOLLOUT_def EPOLLERR_def EPOLLHUP_def
  kNoneEvent_def kReadEvent_def kWriteEvent_def

definition has_bits :: "32 word \<Rightarrow> 32 word \<Rightarrow> bool" where
  "has_bits w m \<longleftrightarrow> w AND m \<noteq> 0"

section \<open>State\<close>

record Channel =
  ch_loop :: loop_id
  ch_fd :: fd
  ch_events :: "32 word"
  ch_revents :: "32 word"
  ch_index :: int
  ch_tie :: "conn_id option"
  ch_tied :: bool
  ch_readCallback :: "channel_cb option"
  ch_writeCallback :: "channel_cb option"
  ch_closeCallback :: "channel_cb option"
  ch_errorCallback :: "channel_cb option"

definition Channel_ctor :: "loop_id \<Rightarrow> fd \<Rightarrow> Channel" where
  "Channel_ctor loop fd =
     \<lparr>ch_loop = loop, ch_fd = fd, ch_events = 0, ch_revents = 0, ch_index = -1, ch_tie = None,
      ch_tied = False, ch_readCallback = None, ch_writeCallback = None, ch_closeCallback = None,
      ch_errorCallback = None\<rparr>"

definition isNoneEvent :: "Channel \<Rightarrow> bool" where
  "isNoneEvent c \<longleftrightarrow> ch_events c = kNoneEvent"

definition isWriting :: "Channel \<Rightarrow> bool" where
  "isWriting c \<longleftrightarrow> has_bits (ch_events c) kWriteEvent"

definition isReading :: "Channel \<Rightarrow> bool" where
  "isReading c \<longleftrightarrow> has_bits (ch_events c) kReadEvent"

definition Channel_tie :: "conn_id \<Rightarrow> Channel \<Rightarrow> Channel" where
  "Channel_tie obj c = c\<lparr>ch_tie := Some obj, ch_tied := True\<rparr>"

definition set_revents :: "32 word \<Rightarrow> Channel \<Rightarrow> Channel" where
  "set_revents revt c = c\<lparr>ch_revents := revt\<rparr>"

definition set_index :: "int \<Rightarrow> Channel \<Rightarrow> Channel" where
  "set_index idx c = c\<lparr>ch_index := idx\<rparr>"

text \<open>The changes of the interest bits; each is followed by \<open>update\<close> in the code.\<close>

definition read_on :: "Channel \<Rightarrow> Channel" where
  "read_on c = c\<lparr>ch_events := ch_events c OR kReadEvent\<rparr>"

definition read_off :: "Channel \<Rightarrow> Channel" where
  "read_off c = c\<lparr>ch_events := ch_events c AND NOT kReadEvent\<rparr>"

definition write_on :: "Channel \<Rightarrow> Channel" where
  "write_on c = c\<lparr>ch_events := ch_events c OR kWriteEvent\<rparr>"

definition write_off :: "Channel \<Rightarrow> Channel" where
  "write_off c = c\<lparr>ch_events := ch_events c AND NOT kWriteEvent\<rparr>"

definition all_off :: "Channel \<Rightarrow> Channel" where
  "all_off c = c\<lparr>ch_events := kNoneEvent\<rparr>"

record cworld = kworld +
  chans :: "chan_id \<Rightarrow> Channel"

definition map_chan :: "chan_id \<Rightarrow> (Channel \<Rightarrow> Channel) \<Rightarrow> 'z cworld_scheme \<Rightarrow> 'z cworld_scheme" where
  "map_chan ch f w = w\<lparr>chans := (chans w)(ch := f (chans w ch))\<rparr>"

lemma map_chan_simps [simp]:
  "chans (map_chan ch f w) ch = f (chans w ch)"
  "ch' \<noteq> ch \<Longrightarrow> chans (map_chan ch f w) ch' = chans w ch'"
  "ktrace (map_chan ch f w) = ktrace w"
  "cur_tid (map_chan ch f w) = cur_tid w"
  "cworld.more (map_chan ch f w) = cworld.more w"
  by (simp_all add: map_chan_def)

section \<open>Bits\<close>

named_theorems channel_bits \<open>what the bit operations do to the interest tests\<close>

lemma or_and_absorb: "(e OR m) AND m = m" for e m :: "32 word"
  by (auto simp: bit_eq_iff bit_simps)

lemma write_on_bits [channel_bits]: "isWriting (write_on c)" "isReading (write_on c) = isReading c"
  by (simp_all add: isWriting_def isReading_def has_bits_def write_on_def event_bits
      or_and_absorb [of _ 4])
    (simp_all add: bit.conj_disj_distrib2)

lemma write_off_bits [channel_bits]: "\<not> isWriting (write_off c)" "isReading (write_off c) = isReading c"
  by (simp_all add: isWriting_def isReading_def has_bits_def write_off_def event_bits
      bit.conj_disj_distrib2 and.assoc)

lemma read_on_bits [channel_bits]: "isReading (read_on c)" "isWriting (read_on c) = isWriting c"
  by (simp_all add: isWriting_def isReading_def has_bits_def read_on_def event_bits
      or_and_absorb [of _ 3])
    (simp_all add: bit.conj_disj_distrib2)

lemma read_off_bits [channel_bits]: "\<not> isReading (read_off c)" "isWriting (read_off c) = isWriting c"
  by (simp_all add: isWriting_def isReading_def has_bits_def read_off_def event_bits
      bit.conj_disj_distrib2 and.assoc)

lemma all_off_bits [channel_bits]: "\<not> isReading (all_off c)" "\<not> isWriting (all_off c)" "isNoneEvent (all_off c)"
  by (simp_all add: isWriting_def isReading_def isNoneEvent_def has_bits_def all_off_def event_bits)

lemma ctor_bits [channel_bits]: "\<not> isReading (Channel_ctor l fd)" "\<not> isWriting (Channel_ctor l fd)"
  by (simp_all add: isWriting_def isReading_def has_bits_def Channel_ctor_def event_bits)

section \<open>Dispatch\<close>

text \<open>Calling an optional callback.\<close>

definition call_opt ::
    "(channel_cb \<Rightarrow> timestamp \<Rightarrow> 'w \<Rightarrow> 'w res) \<Rightarrow> channel_cb option \<Rightarrow> timestamp \<Rightarrow> 'w \<Rightarrow> 'w res" where
  "call_opt run cb t w = (case cb of None \<Rightarrow> Inr w | Some f \<Rightarrow> run f t w)"

definition handleEventWithGuard ::
    "kernel \<Rightarrow> (channel_cb \<Rightarrow> timestamp \<Rightarrow> 'z cworld_scheme \<Rightarrow> 'z cworld_scheme res) \<Rightarrow> timestamp \<Rightarrow> chan_id
     \<Rightarrow> 'z cworld_scheme \<Rightarrow> 'z cworld_scheme res" where
  "handleEventWithGuard K run t ch w =
     (let w = LOG K INFO ''Channel handleEvent revents : %d\<newline>'' [AInt (sint (ch_revents (chans w ch)))] w
      in
      bindE (if has_bits (ch_revents (chans w ch)) EPOLLHUP \<and> \<not> has_bits (ch_revents (chans w ch)) EPOLLIN
             then call_opt run (ch_closeCallback (chans w ch)) t w else Inr w) (\<lambda>w.
      bindE (if has_bits (ch_revents (chans w ch)) EPOLLERR
             then call_opt run (ch_errorCallback (chans w ch)) t w else Inr w) (\<lambda>w.
      bindE (if has_bits (ch_revents (chans w ch)) (EPOLLIN OR EPOLLPRI)
             then call_opt run (ch_readCallback (chans w ch)) t w else Inr w) (\<lambda>w.
      if has_bits (ch_revents (chans w ch)) EPOLLOUT
             then call_opt run (ch_writeCallback (chans w ch)) t w else Inr w))))"

text \<open>\<open>alive c w\<close> is whether \<^verbatim>\<open>tie_.lock()\<close> finds the object \<open>c\<close> still there.\<close>

definition handleEvent ::
    "kernel \<Rightarrow> (conn_id \<Rightarrow> 'z cworld_scheme \<Rightarrow> bool)
     \<Rightarrow> (channel_cb \<Rightarrow> timestamp \<Rightarrow> 'z cworld_scheme \<Rightarrow> 'z cworld_scheme res) \<Rightarrow> timestamp \<Rightarrow> chan_id
     \<Rightarrow> 'z cworld_scheme \<Rightarrow> 'z cworld_scheme res" where
  "handleEvent K alive run t ch w =
     (if ch_tied (chans w ch)
      then (case ch_tie (chans w ch) of
              None \<Rightarrow> Inr w
            | Some obj \<Rightarrow> if alive obj w then handleEventWithGuard K run t ch w else Inr w)
      else handleEventWithGuard K run t ch w)"

section \<open>The dispatch as a list of callbacks\<close>

text \<open>
  The reference: which callbacks a mask selects, and in which order.  An empty callback selects
  nothing.
\<close>

definition selected :: "Channel \<Rightarrow> channel_cb list" where
  "selected c =
     (let r = ch_revents c; pick = (\<lambda>b cb. if b then (case cb of None \<Rightarrow> [] | Some f \<Rightarrow> [f]) else [])
      in pick (has_bits r EPOLLHUP \<and> \<not> has_bits r EPOLLIN) (ch_closeCallback c)
         @ pick (has_bits r EPOLLERR) (ch_errorCallback c)
         @ pick (has_bits r (EPOLLIN OR EPOLLPRI)) (ch_readCallback c)
         @ pick (has_bits r EPOLLOUT) (ch_writeCallback c))"

definition same_dispatch :: "Channel \<Rightarrow> Channel \<Rightarrow> bool" where
  "same_dispatch c d \<longleftrightarrow> ch_revents d = ch_revents c \<and> ch_closeCallback d = ch_closeCallback c
     \<and> ch_errorCallback d = ch_errorCallback c \<and> ch_readCallback d = ch_readCallback c
     \<and> ch_writeCallback d = ch_writeCallback c"

lemma same_dispatch_refl [simp]: "same_dispatch c c"
  by (simp add: same_dispatch_def)

lemma LOG_chans [simp]: "chans (LOG K lv fmt args w) = chans w"
  by (simp add: LOG_def)

definition callbacks :: "Channel \<Rightarrow> channel_cb set" where
  "callbacks c = {f. Some f \<in> {ch_closeCallback c, ch_errorCallback c, ch_readCallback c, ch_writeCallback c}}"

lemma same_dispatch_callbacks: "same_dispatch c d \<Longrightarrow> callbacks d = callbacks c"
  by (simp add: same_dispatch_def callbacks_def)

lemma selected_callbacks:
  assumes "f \<in> set (selected c)"
  shows "f \<in> callbacks c"
proof -
  have pick: "cb = Some f" if "f \<in> set (if b then (case cb of None \<Rightarrow> [] | Some g \<Rightarrow> [g]) else [])" for b cb
    using that by (cases b; cases cb) simp_all
  show ?thesis
    using assms unfolding selected_def Let_def set_append Un_iff callbacks_def
    by (elim disjE) (drule pick, simp)+
qed

text \<open>
  The interface of whoever supplies the callbacks: called on a channel fit for it, a callback of the
  channel may change the interest bits and the registration, never the callbacks or the reported mask, and
  leaves the channel fit.
\<close>

locale callback_runner =
  fixes run :: "channel_cb \<Rightarrow> timestamp \<Rightarrow> 'z cworld_scheme \<Rightarrow> 'z cworld_scheme res"
    and fit :: "chan_id \<Rightarrow> 'z cworld_scheme \<Rightarrow> bool"
  assumes run_same: "fit ch w \<Longrightarrow> cb \<in> callbacks (chans w ch) \<Longrightarrow> run cb t w = Inr w'
      \<Longrightarrow> fit ch w' \<and> same_dispatch (chans w ch) (chans w' ch)"
    and fit_log: "fit ch w \<Longrightarrow> fit ch (LOG K lv fmt args w)"
begin

definition steady :: "chan_id \<Rightarrow> 'z cworld_scheme \<Rightarrow> 'z cworld_scheme \<Rightarrow> bool" where
  "steady ch w v \<longleftrightarrow> fit ch v \<and> same_dispatch (chans w ch) (chans v ch)"

lemma guarded_dispatch:
  assumes "fit ch w"
  shows "handleEventWithGuard K run t ch w =
     foldE (\<lambda>cb. run cb t) (selected (chans w ch))
       (LOG K INFO ''Channel handleEvent revents : %d\<newline>'' [AInt (sint (ch_revents (chans w ch)))] w)"
proof -
  have pick: "(if b then call_opt run cb t v else Inr v)
      = foldE (\<lambda>cb. run cb t) (if b then (case cb of None \<Rightarrow> [] | Some f \<Rightarrow> [f]) else []) v" for b cb v
    by (simp add: call_opt_def split: option.splits)
  have keep: "steady ch w v'"
    if v: "steady ch w v" and r: "(if b then call_opt run cb t v else Inr v) = Inr v'"
      and cb: "cb \<in> {ch_closeCallback (chans w ch), ch_errorCallback (chans w ch), ch_readCallback (chans w ch)}"
    for b cb v v'
  proof (cases "b \<and> cb \<noteq> None")
    case True
    then obtain f where f: "cb = Some f" "run f t v = Inr v'" using r by (auto simp: call_opt_def)
    have "callbacks (chans v ch) = callbacks (chans w ch)" using v by (auto simp: steady_def same_dispatch_callbacks)
    then have "f \<in> callbacks (chans v ch)" using cb f(1) by (auto simp: callbacks_def)
    then show ?thesis using run_same [OF _ _ f(2)] v by (auto simp: steady_def same_dispatch_def)
  next
    case False
    then show ?thesis using r v by (cases cb) (auto simp: call_opt_def split: if_splits)
  qed
  have start: "steady ch w (LOG K lv fmt args w)" for lv fmt args using fit_log [OF assms] by (simp add: steady_def)
  show ?thesis
    unfolding handleEventWithGuard_def selected_def Let_def LOG_chans foldE_append pick [symmetric]
      bindE_assoc
    apply (rule bindE_cong [OF refl])
    apply (drule keep [OF start], simp)
    apply (rule bindE_cong)
     apply (simp add: steady_def same_dispatch_def)
    apply (drule keep, assumption, simp add: steady_def same_dispatch_def)
    apply (rule bindE_cong)
     apply (simp add: steady_def same_dispatch_def)
    apply (drule keep, assumption, simp add: steady_def same_dispatch_def)
    apply (simp add: steady_def same_dispatch_def)
    done
qed

text \<open>A relation that is reflexive and transitive and holds of every callback holds of the whole dispatch.\<close>

lemma fold_callbacks:
  assumes "foldE (\<lambda>cb. run cb t) cbs w = Inr w'" "fit ch w" "set cbs \<subseteq> callbacks (chans w ch)"
    and "\<And>v. R v v" "\<And>u v w. R u v \<Longrightarrow> R v w \<Longrightarrow> R u w"
    and "\<And>cb v v'. fit ch v \<Longrightarrow> cb \<in> set cbs \<Longrightarrow> run cb t v = Inr v' \<Longrightarrow> R v v'"
  shows "R w w' \<and> fit ch w'"
  using assms(1-3,6)
proof (induction cbs arbitrary: w)
  case Nil
  then show ?case using assms(4) by simp
next
  case (Cons cb cbs)
  then obtain v where v: "run cb t w = Inr v" "foldE (\<lambda>cb. run cb t) cbs v = Inr w'" by auto
  have same: "fit ch v \<and> same_dispatch (chans w ch) (chans v ch)" using run_same [OF _ _ v(1)] Cons.prems(2,3) by simp
  have "R v w' \<and> fit ch w'"
    by (rule Cons.IH [OF v(2)]) (use same Cons.prems(3,4) in \<open>auto simp: same_dispatch_callbacks\<close>)
  moreover have "R w v" using Cons.prems(4) [OF Cons.prems(2) _ v(1)] by simp
  ultimately show ?case using assms(5) by blast
qed

lemma dispatch_rel:
  assumes "handleEvent K alive run t ch w = Inr w'" "fit ch w"
    and R: "\<And>v. R v v" "\<And>u v w. R u v \<Longrightarrow> R v w \<Longrightarrow> R u w" "\<And>lv fmt args. R w (LOG K lv fmt args w)"
    and step: "\<And>cb v v'. fit ch v \<Longrightarrow> cb \<in> set (selected (chans w ch)) \<Longrightarrow> run cb t v = Inr v' \<Longrightarrow> R v v'"
  shows "R w w' \<and> fit ch w'"
proof -
  have "R w w' \<and> fit ch w'" if g: "handleEventWithGuard K run t ch w = Inr w'"
  proof -
    let ?v = "LOG K INFO ''Channel handleEvent revents : %d\<newline>'' [AInt (sint (ch_revents (chans w ch)))] w"
    have "R ?v w' \<and> fit ch w'"
    proof (rule fold_callbacks)
      show "foldE (\<lambda>cb. run cb t) (selected (chans w ch)) ?v = Inr w'" using g guarded_dispatch [OF assms(2)] by simp
      show "fit ch ?v" by (rule fit_log [OF assms(2)])
      show "set (selected (chans w ch)) \<subseteq> callbacks (chans ?v ch)" using selected_callbacks by auto
    qed (use R(1,2) step in blast)+
    then show ?thesis using R(2,3) by blast
  qed
  then show ?thesis using assms(1,2) R(1) by (auto simp: handleEvent_def split: if_splits option.splits)
qed

end

end
