(* ===== verification/EPollPoller.thy ===== *)
theory EPollPoller
  imports Channel
begin

text \<open>
  \<^verbatim>\<open>Poller.h\<close>, \<^verbatim>\<open>Poller.cc\<close>, \<^verbatim>\<open>DefaultPoller.cc\<close>, \<^verbatim>\<open>EPollPoller.h\<close>, \<^verbatim>\<open>EPollPoller.cc\<close>: the map from
  descriptors to channels, the registration state of a channel (\<open>kNew\<close>, \<open>kAdded\<close>, \<open>kDeleted\<close> in its
  \<open>ch_index\<close>) and the calls to epoll.  The invariant \<open>poller_inv\<close> says that the map, the registration
  states and the kernel's interest list tell the same story.
\<close>

definition kNew :: int where "kNew = -1"
definition kAdded :: int where "kAdded = 1"
definition kDeleted :: int where "kDeleted = 2"

lemmas index_defs = kNew_def kAdded_def kDeleted_def

definition kInitEventListSize :: nat where
  "kInitEventListSize = 16"

record Poller =
  pl_channels :: "fd \<rightharpoonup> chan_id"
  pl_owner :: loop_id
  pl_epollfd :: fd
  pl_events :: "epoll_event list"

definition zero_event :: epoll_event where
  "zero_event = \<lparr>ev_events = 0, ev_ptr = None\<rparr>"

section \<open>Operations\<close>

definition hasChannel :: "chan_id \<Rightarrow> Poller \<Rightarrow> 'z cworld_scheme \<Rightarrow> bool" where
  "hasChannel ch p w =
     (case pl_channels p (ch_fd (chans w ch)) of None \<Rightarrow> False | Some ch' \<Rightarrow> ch' = ch)"

definition EPollPoller_ctor :: "kernel \<Rightarrow> loop_id \<Rightarrow> 'z kworld_scheme \<Rightarrow> (Poller \<times> 'z kworld_scheme) res" where
  "EPollPoller_ctor K loop w =
     (let (r, w) = sys_epoll_create K w
      in case r of
        Fail e \<Rightarrow> LOG_FATAL ''EPollPoller::EPollPoller : %s\<newline>''
      | Ok epfd \<Rightarrow> Inr (\<lparr>pl_channels = Map.empty, pl_owner = loop, pl_epollfd = epfd,
                        pl_events = replicate kInitEventListSize zero_event\<rparr>, w))"

definition EPollPoller_dtor :: "Poller \<Rightarrow> 'z kworld_scheme \<Rightarrow> 'z kworld_scheme" where
  "EPollPoller_dtor p w = sys_close (pl_epollfd p) w"

text \<open>With \<^verbatim>\<open>MUDUO_USE_POLL\<close> in the environment there is no poller at all: a null pointer.\<close>

definition newDefaultPoller ::
    "kernel \<Rightarrow> loop_id \<Rightarrow> 'z kworld_scheme \<Rightarrow> (Poller option \<times> 'z kworld_scheme) res" where
  "newDefaultPoller K loop w =
     (if k_getenv_poll K then Inr (None, w)
      else bindE (EPollPoller_ctor K loop w) (\<lambda>(p, w). Inr (Some p, w)))"

definition EPollPoller_update ::
    "kernel \<Rightarrow> ctl_op \<Rightarrow> chan_id \<Rightarrow> Poller \<Rightarrow> 'z cworld_scheme \<Rightarrow> 'z cworld_scheme res" where
  "EPollPoller_update K operation ch p w =
     (let fd = ch_fd (chans w ch);
          event = \<lparr>ev_events = ch_events (chans w ch), ev_ptr = Some ch\<rparr>;
          (r, w) = sys_epoll_ctl K (pl_epollfd p) operation fd event w
      in case r of
        Ok u \<Rightarrow> Inr w
      | Fail e \<Rightarrow>
          if operation = EPOLL_CTL_DEL
          then Inr (LOG K ERROR ''epoll_ctl op = EPOLL_CTL_DEL, fd = %d'' [AInt fd] w)
          else LOG_FATAL ''epoll_ctl op = EPOLL_CTL_ADD/EPOLL_CTL_MOD, fd = %d'')"

definition EPollPoller_updateChannel ::
    "kernel \<Rightarrow> chan_id \<Rightarrow> Poller \<Rightarrow> 'z cworld_scheme \<Rightarrow> (Poller \<times> 'z cworld_scheme) res" where
  "EPollPoller_updateChannel K ch p w =
     (let index = ch_index (chans w ch);
          w = LOG K INFO ''func = %s : fd = %d events = %d index = %d \<newline> ''
                [AStr ''updateChannel'', AInt (ch_fd (chans w ch)), AInt (sint (ch_events (chans w ch))),
                 AInt index] w
      in if index = kNew \<or> index = kDeleted
      then
        (let fd = ch_fd (chans w ch);
             p = p\<lparr>pl_channels := (pl_channels p)(fd \<mapsto> ch)\<rparr>;
             w = map_chan ch (set_index kAdded) w
         in bindE (EPollPoller_update K EPOLL_CTL_ADD ch p w) (\<lambda>w. Inr (p, w)))
      else if isNoneEvent (chans w ch)
      then bindE (EPollPoller_update K EPOLL_CTL_DEL ch p w) (\<lambda>w.
             Inr (p, map_chan ch (set_index kDeleted) w))
      else bindE (EPollPoller_update K EPOLL_CTL_MOD ch p w) (\<lambda>w. Inr (p, w)))"

definition EPollPoller_removeChannel ::
    "kernel \<Rightarrow> chan_id \<Rightarrow> Poller \<Rightarrow> 'z cworld_scheme \<Rightarrow> (Poller \<times> 'z cworld_scheme) res" where
  "EPollPoller_removeChannel K ch p w =
     (let fd = ch_fd (chans w ch);
          w = LOG K INFO ''func = %s : fd = %d \<newline> '' [AStr ''removeChannel'', AInt fd] w;
          p = p\<lparr>pl_channels := (pl_channels p)(fd := None)\<rparr>;
          index = ch_index (chans w ch)
      in bindE (if index = kAdded then EPollPoller_update K EPOLL_CTL_DEL ch p w else Inr w) (\<lambda>w.
           Inr (p, map_chan ch (set_index kNew) w)))"

text \<open>One round of the loop of \<open>fillActiveChannels\<close>: a zeroed entry holds a null pointer.\<close>

definition fill_one ::
    "epoll_event \<Rightarrow> chan_id list \<times> 'z cworld_scheme \<Rightarrow> (chan_id list \<times> 'z cworld_scheme) res" where
  "fill_one ev s = (case s of (active, w) \<Rightarrow>
     (case ev_ptr ev of
        None \<Rightarrow> Inl Null_dereference
      | Some ch \<Rightarrow> Inr (active @ [ch], map_chan ch (set_revents (ev_events ev)) w)))"

definition fillActiveChannels ::
    "nat \<Rightarrow> Poller \<Rightarrow> 'z cworld_scheme \<Rightarrow> (chan_id list \<times> 'z cworld_scheme) res" where
  "fillActiveChannels numEvents p w = foldE fill_one (take numEvents (pl_events p)) ([], w)"

text \<open>
  \<open>poll\<close> returns the time, the active channels, and the poller and the world after the call.  The
  kernel fills the front of the event array.
\<close>

definition EPollPoller_poll ::
    "kernel \<Rightarrow> int \<Rightarrow> Poller \<Rightarrow> 'z cworld_scheme \<Rightarrow> (timestamp \<times> chan_id list \<times> Poller \<times> 'z cworld_scheme) res" where
  "EPollPoller_poll K timeoutMs p w =
     (let w = LOG K INFO ''func = %s : fd total count = %lu \<newline> ''
                [AStr ''poll'', AInt (int (card (dom (pl_channels p))))] w;
          (r, w) = sys_epoll_wait K (pl_epollfd p) (length (pl_events p)) timeoutMs w;
          now = Timestamp_now (k_time K (ktrace w))
      in case r of
        Fail saveErrno \<Rightarrow>
          Inr (now, [], p, if saveErrno \<noteq> EINTR then LOG K ERROR ''EPollPoller::poll() err!'' [] w else w)
      | Ok evs \<Rightarrow>
          (let numEvents = length evs
           in if length (pl_events p) < numEvents then Inl Out_of_bounds
           else if 0 < numEvents
           then
             (let w = LOG K INFO ''%d events happened \<newline>'' [AInt (int numEvents)] w;
                  p = p\<lparr>pl_events := evs @ drop numEvents (pl_events p)\<rparr>
              in bindE (fillActiveChannels numEvents p w) (\<lambda>(active, w).
                 let p = (if numEvents = length (pl_events p)
                          then p\<lparr>pl_events := pl_events p @ replicate (length (pl_events p)) zero_event\<rparr>
                          else p)
                 in Inr (now, active, p, w)))
           else Inr (now, [], p, w)))"

section \<open>Frame: what these operations touch\<close>

text \<open>Calls that open, close, read and write nothing.\<close>

fun quiet_event :: "kevent \<Rightarrow> bool" where
  "quiet_event (EvEpollCtl ep opn fd ev r) = True"
| "quiet_event (EvEpollWait ep n t r) = True"
| "quiet_event _ = False"

definition quiet :: "ktrace \<Rightarrow> bool" where
  "quiet tr = list_all quiet_event tr"

lemma quiet_append [simp]: "quiet (a @ b) \<longleftrightarrow> quiet a \<and> quiet b"
  by (simp add: quiet_def)

lemma quiet_Nil [simp]: "quiet []"
  by (simp add: quiet_def)

lemma quiet_event_after:
  "quiet_event e \<Longrightarrow> open_after e s = s"
  "quiet_event e \<Longrightarrow> written_by f e = []"
  "quiet_event e \<Longrightarrow> delivered_by f e = []"
  by (cases e; simp)+

lemma quiet_open: "quiet tr \<Longrightarrow> open_fds (a @ tr) = open_fds a"
  by (induction tr rule: rev_induct) (simp_all add: quiet_def quiet_event_after flip: append_assoc)

lemma quiet_written: "quiet tr \<Longrightarrow> written f (a @ tr) = written f a"
  by (induction tr rule: rev_induct) (simp_all add: quiet_def quiet_event_after flip: append_assoc)

lemma quiet_delivered: "quiet tr \<Longrightarrow> delivered f (a @ tr) = delivered f a"
  by (induction tr rule: rev_induct) (simp_all add: quiet_def quiet_event_after flip: append_assoc)

lemmas quiet_simps = quiet_open quiet_written quiet_delivered

text \<open>A step that only talks to epoll, logs, and moves the registration state of one channel.\<close>

definition registers :: "chan_id \<Rightarrow> 'z cworld_scheme \<Rightarrow> 'z cworld_scheme \<Rightarrow> bool" where
  "registers ch w w' \<longleftrightarrow> (\<exists>tr. quiet tr \<and> ktrace w' = ktrace w @ tr)
     \<and> (\<exists>i. chans w' = (chans w)(ch := set_index i (chans w ch)))
     \<and> cur_tid w' = cur_tid w \<and> cworld.more w' = cworld.more w"

lemma registersD:
  assumes "registers ch w w'"
  shows "open_fds (ktrace w') = open_fds (ktrace w)" "written f (ktrace w') = written f (ktrace w)"
    "delivered f (ktrace w') = delivered f (ktrace w)" "cur_tid w' = cur_tid w"
    "cworld.more w' = cworld.more w" "ch' \<noteq> ch \<Longrightarrow> chans w' ch' = chans w ch'"
    "\<exists>i. chans w' ch = set_index i (chans w ch)"
  using assms by (auto simp: registers_def quiet_simps)

lemma EPollPoller_update_frame:
  assumes "EPollPoller_update K opn ch p w = Inr w'"
  shows "\<exists>r. ktrace w' = ktrace w @ [EvEpollCtl (pl_epollfd p) opn (ch_fd (chans w ch))
      \<lparr>ev_events = ch_events (chans w ch), ev_ptr = Some ch\<rparr> r]"
    and "chans w' = chans w" "cur_tid w' = cur_tid w" "cworld.more w' = cworld.more w"
  using assms
  by (auto simp: EPollPoller_update_def sys_epoll_ctl_def record_event_def LOG_FATAL_def LOG_def Let_def
      split: sysret.splits if_splits)

lemma LOG_cworld_more [simp]: "cworld.more (LOG K lv fmt args w) = cworld.more w"
  by (simp add: LOG_def)

lemma set_index_self [simp]: "set_index (ch_index c) c = c"
  by (cases c) (simp add: set_index_def)

lemma registers_refl [simp]: "registers ch w w"
proof -
  have "chans w = (chans w)(ch := set_index (ch_index (chans w ch)) (chans w ch))" by simp
  then show ?thesis unfolding registers_def by (metis append_Nil2 quiet_Nil)
qed

lemma registers_trans:
  assumes "registers ch u v" "registers ch v w"
  shows "registers ch u w"
proof -
  obtain a b i j where "quiet a" "ktrace v = ktrace u @ a" "chans v = (chans u)(ch := set_index i (chans u ch))"
    and "quiet b" "ktrace w = ktrace v @ b" "chans w = (chans v)(ch := set_index j (chans v ch))"
    using assms by (auto simp: registers_def)
  then have "quiet (a @ b)" "ktrace w = ktrace u @ (a @ b)" "chans w = (chans u)(ch := set_index j (chans u ch))"
    by (simp_all add: set_index_def)
  with assms show ?thesis by (auto simp: registers_def)
qed

lemma registers_LOG [simp]: "registers ch w (LOG K lv fmt args w)"
  unfolding registers_def LOG_chans LOG_ktrace LOG_cur_tid LOG_cworld_more
  by (rule registers_refl [unfolded registers_def])

lemma registers_set_index [simp]: "registers ch w (map_chan ch (set_index i) w)"
  by (auto simp: registers_def map_chan_def intro!: exI [of _ "[]"])

lemma registers_update:
  assumes "EPollPoller_update K opn ch p w = Inr w'"
  shows "registers ch w w'"
proof -
  note frame = EPollPoller_update_frame [OF assms]
  have "chans w' = (chans w)(ch := set_index (ch_index (chans w ch)) (chans w ch))"
    using frame by simp
  moreover have "\<exists>tr. quiet tr \<and> ktrace w' = ktrace w @ tr" using frame(1) by (auto simp: quiet_def)
  ultimately show ?thesis using frame unfolding registers_def by blast
qed

lemma registers_then_index: "registers ch u v \<Longrightarrow> registers ch u (map_chan ch (set_index i) v)"
  by (rule registers_trans [OF _ registers_set_index])

lemma registers_from_index: "registers ch (map_chan ch (set_index i) u) v \<Longrightarrow> registers ch u v"
  by (rule registers_trans [OF registers_set_index])

lemma registers_from_LOG: "registers ch (LOG K lv fmt args u) v \<Longrightarrow> registers ch u v"
  by (rule registers_trans [OF registers_LOG])

lemmas registers_steps = registers_then_index registers_from_index registers_from_LOG

lemma updateChannel_registers:
  assumes "EPollPoller_updateChannel K ch p w = Inr (p', w')"
  shows "registers ch w w'"
  using assms
  by (auto simp: EPollPoller_updateChannel_def Let_def split: if_splits
      intro: registers_steps dest!: registers_update)

lemma removeChannel_registers:
  assumes "EPollPoller_removeChannel K ch p w = Inr (p', w')"
  shows "registers ch w w'"
  using assms
  by (auto simp: EPollPoller_removeChannel_def Let_def split: if_splits
      intro: registers_steps dest!: registers_update)

section \<open>The map, the registration states and the kernel agree\<close>

definition expected_interest :: "Poller \<Rightarrow> 'z cworld_scheme \<Rightarrow> (fd \<rightharpoonup> epoll_event)" where
  "expected_interest p w f = (case pl_channels p f of
     None \<Rightarrow> None
   | Some ch \<Rightarrow> if ch_index (chans w ch) = kAdded
       then Some \<lparr>ev_events = ch_events (chans w ch), ev_ptr = Some ch\<rparr> else None)"

definition poller_inv :: "Poller \<Rightarrow> 'z cworld_scheme \<Rightarrow> bool" where
  "poller_inv p w \<longleftrightarrow>
     (\<forall>f ch. pl_channels p f = Some ch \<longrightarrow>
        ch_fd (chans w ch) = f \<and> ch_loop (chans w ch) = pl_owner p
        \<and> (ch_index (chans w ch) = kAdded \<or> ch_index (chans w ch) = kDeleted))
   \<and> (\<forall>ch. ch_loop (chans w ch) = pl_owner p \<and> ch_index (chans w ch) \<noteq> kNew \<longrightarrow>
        pl_channels p (ch_fd (chans w ch)) = Some ch)
   \<and> interest (pl_epollfd p) (ktrace w) = expected_interest p w
   \<and> 0 < length (pl_events p)"

text \<open>What a channel must satisfy for its loop's poller to take it: an open descriptor of its own.\<close>

definition attachable :: "chan_id \<Rightarrow> Poller \<Rightarrow> 'z cworld_scheme \<Rightarrow> bool" where
  "attachable ch p w \<longleftrightarrow> ch_loop (chans w ch) = pl_owner p \<and> ch_fd (chans w ch) \<in> open_fds (ktrace w)
     \<and> (pl_channels p (ch_fd (chans w ch)) = None \<or> pl_channels p (ch_fd (chans w ch)) = Some ch)"

definition set_events :: "32 word \<Rightarrow> Channel \<Rightarrow> Channel" where
  "set_events e c = c\<lparr>ch_events := e\<rparr>"

lemma set_fields [simp]:
  "ch_fd (set_events e c) = ch_fd c" "ch_loop (set_events e c) = ch_loop c"
  "ch_index (set_events e c) = ch_index c" "ch_events (set_events e c) = e"
  "ch_fd (set_index i c) = ch_fd c" "ch_loop (set_index i c) = ch_loop c"
  "ch_index (set_index i c) = i" "ch_events (set_index i c) = ch_events c"
  "ch_fd (set_revents r c) = ch_fd c" "ch_loop (set_revents r c) = ch_loop c"
  "ch_index (set_revents r c) = ch_index c" "ch_events (set_revents r c) = ch_events c"
  by (simp_all add: set_events_def set_index_def set_revents_def)

text \<open>A control call that the kernel grants: the world after it.\<close>

lemma EPollPoller_update_granted:
  assumes "k_epoll_ctl K (ktrace w) (pl_epollfd p) opn (ch_fd (chans w ch))
      \<lparr>ev_events = ch_events (chans w ch), ev_ptr = Some ch\<rparr> = Ok ()"
  shows "EPollPoller_update K opn ch p w = Inr (record_event (EvEpollCtl (pl_epollfd p) opn
      (ch_fd (chans w ch)) \<lparr>ev_events = ch_events (chans w ch), ev_ptr = Some ch\<rparr> (Ok ())) w)"
  using assms by (simp add: EPollPoller_update_def sys_epoll_ctl_def Let_def)

lemma record_event_fields [simp]:
  "ktrace (record_event e w) = ktrace w @ [e]" "chans (record_event e w) = chans w"
  "cur_tid (record_event e w) = cur_tid w" "logger_of (record_event e w) = logger_of w"
  by (simp_all add: record_event_def)

lemma index_distinct [simp]: "kNew \<noteq> kAdded" "kAdded \<noteq> kNew" "kNew \<noteq> kDeleted" "kDeleted \<noteq> kNew"
  "kAdded \<noteq> kDeleted" "kDeleted \<noteq> kAdded"
  by (simp_all add: index_defs)

lemma poller_inv_index:
  assumes "poller_inv p w" "ch_loop (chans w ch) = pl_owner p"
  shows "ch_index (chans w ch) = kNew \<and> pl_channels p (ch_fd (chans w ch)) \<noteq> Some ch
      \<or> (ch_index (chans w ch) = kAdded \<or> ch_index (chans w ch) = kDeleted)
        \<and> pl_channels p (ch_fd (chans w ch)) = Some ch"
  using assms unfolding poller_inv_def by (metis index_distinct(1,3))

lemma poller_inv_slot:
  assumes "poller_inv p w" "pl_channels p f = Some c"
  shows "ch_fd (chans w c) = f" "ch_loop (chans w c) = pl_owner p"
    "ch_index (chans w c) = kAdded \<or> ch_index (chans w c) = kDeleted"
  using assms by (auto simp: poller_inv_def)

lemma poller_inv_back:
  assumes "poller_inv p w" "ch_loop (chans w c) = pl_owner p" "ch_index (chans w c) \<noteq> kNew"
  shows "pl_channels p (ch_fd (chans w c)) = Some c"
  using assms by (auto simp: poller_inv_def)

text \<open>The one change of the reactor state all updates make, and that it keeps the invariant.\<close>

lemma poller_inv_move:
  assumes inv: "poller_inv p w" and own: "ch_loop (chans w ch) = pl_owner p"
    and slot: "pl_channels p (ch_fd (chans w ch)) = None \<or> pl_channels p (ch_fd (chans w ch)) = Some ch"
    and j: "j = kAdded \<or> j = kDeleted"
    and ch: "chans w' = (chans w)(ch := set_index j (set_events e (chans w ch)))"
    and int: "interest (pl_epollfd p) (ktrace w') = (interest (pl_epollfd p) (ktrace w))
      (ch_fd (chans w ch) := if j = kAdded then Some \<lparr>ev_events = e, ev_ptr = Some ch\<rparr> else None)"
  shows "poller_inv (p\<lparr>pl_channels := (pl_channels p)(ch_fd (chans w ch) \<mapsto> ch)\<rparr>) w'" (is "poller_inv ?p w'")
proof -
  let ?fd = "ch_fd (chans w ch)"
  have other: "c \<noteq> ch" if "pl_channels p f = Some c" "f \<noteq> ?fd" for f c
    using poller_inv_slot(1) [OF inv that(1)] that(2) by auto
  have "expected_interest ?p w' = (expected_interest p w)(?fd := if j = kAdded
      then Some \<lparr>ev_events = e, ev_ptr = Some ch\<rparr> else None)"
    using other by (intro ext) (simp add: expected_interest_def ch split: option.splits)
  then have "interest (pl_epollfd ?p) (ktrace w') = expected_interest ?p w'"
    using inv int by (simp add: poller_inv_def)
  moreover have "ch_fd (chans w' c) = f \<and> ch_loop (chans w' c) = pl_owner p
      \<and> (ch_index (chans w' c) = kAdded \<or> ch_index (chans w' c) = kDeleted)"
    if "pl_channels ?p f = Some c" for f c
  proof (cases "f = ?fd")
    case True
    with that own j show ?thesis by (simp add: ch)
  next
    case False
    with that other [of f c] poller_inv_slot [OF inv] show ?thesis by (simp add: ch)
  qed
  moreover have "pl_channels ?p (ch_fd (chans w' c)) = Some c"
    if "ch_loop (chans w' c) = pl_owner p" "ch_index (chans w' c) \<noteq> kNew" for c
    using that slot poller_inv_back [OF inv, of c] by (auto simp: ch split: if_splits)
  ultimately show ?thesis using inv by (simp add: poller_inv_def)
qed

lemma poller_inv_remove:
  assumes inv: "poller_inv p w"
    and slot: "pl_channels p (ch_fd (chans w ch)) = None \<or> pl_channels p (ch_fd (chans w ch)) = Some ch"
    and ch: "chans w' = (chans w)(ch := set_index kNew (chans w ch))"
    and int: "interest (pl_epollfd p) (ktrace w') = (interest (pl_epollfd p) (ktrace w))
      (ch_fd (chans w ch) := None)"
  shows "poller_inv (p\<lparr>pl_channels := (pl_channels p)(ch_fd (chans w ch) := None)\<rparr>) w'" (is "poller_inv ?p w'")
proof -
  let ?fd = "ch_fd (chans w ch)"
  have other: "c \<noteq> ch" if "pl_channels p f = Some c" "f \<noteq> ?fd" for f c
    using poller_inv_slot(1) [OF inv that(1)] that(2) by auto
  have "expected_interest ?p w' = (expected_interest p w)(?fd := None)"
    using other by (intro ext) (simp add: expected_interest_def ch split: option.splits)
  then have "interest (pl_epollfd ?p) (ktrace w') = expected_interest ?p w'"
    using inv int by (simp add: poller_inv_def)
  moreover have "ch_fd (chans w' c) = f \<and> ch_loop (chans w' c) = pl_owner p
      \<and> (ch_index (chans w' c) = kAdded \<or> ch_index (chans w' c) = kDeleted)"
    if "pl_channels ?p f = Some c" for f c
  proof (cases "f = ?fd")
    case True
    with that show ?thesis by simp
  next
    case False
    with that other [of f c] poller_inv_slot [OF inv] show ?thesis by (simp add: ch)
  qed
  moreover have "pl_channels ?p (ch_fd (chans w' c)) = Some c"
    if "ch_loop (chans w' c) = pl_owner p" "ch_index (chans w' c) \<noteq> kNew" for c
    using that slot poller_inv_back [OF inv, of c] by (auto simp: ch split: if_splits)
  ultimately show ?thesis using inv by (simp add: poller_inv_def)
qed

lemma updateChannel_total:
  assumes inv: "poller_inv p w" and law: "epoll_ctl_law K" and att: "attachable ch p w"
  defines "i \<equiv> ch_index (chans w ch)"
  shows "\<exists>p' w'. EPollPoller_updateChannel K ch p (map_chan ch (set_events e) w) = Inr (p', w')
     \<and> poller_inv p' w' \<and> p' = p\<lparr>pl_channels := (pl_channels p)(ch_fd (chans w ch) \<mapsto> ch)\<rparr>
     \<and> chans w' ch = set_index (if i = kAdded \<and> e = kNoneEvent then kDeleted else kAdded)
          (set_events e (chans w ch))"
proof -
  let ?fd = "ch_fd (chans w ch)" and ?v = "map_chan ch (set_events e) w"
  have own: "ch_loop (chans w ch) = pl_owner p" and opn: "?fd \<in> open_fds (ktrace w)"
    and slot: "pl_channels p ?fd = None \<or> pl_channels p ?fd = Some ch"
    using att by (auto simp: attachable_def)
  have int: "interest (pl_epollfd p) (ktrace w) = expected_interest p w"
    using inv by (simp add: poller_inv_def)
  consider (new) "i = kNew \<or> i = kDeleted" "interest (pl_epollfd p) (ktrace w) ?fd = None"
    | (old) "i = kAdded" "interest (pl_epollfd p) (ktrace w) ?fd \<noteq> None" "pl_channels p ?fd = Some ch"
    using poller_inv_index [OF inv own] slot
    by (fastforce simp: i_def int expected_interest_def)
  then show ?thesis
  proof cases
    case new
    with law opn have ok: "k_epoll_ctl K (ktrace w) (pl_epollfd p) EPOLL_CTL_ADD ?fd ev = Ok ()" for ev
      by (simp add: epoll_ctl_law_def)
    obtain w' where res: "EPollPoller_updateChannel K ch p ?v =
        Inr (p\<lparr>pl_channels := (pl_channels p)(?fd \<mapsto> ch)\<rparr>, w')"
      and ch: "chans w' = (chans w)(ch := set_index kAdded (set_events e (chans w ch)))"
      and tr: "ktrace w' = ktrace w @ [EvEpollCtl (pl_epollfd p) EPOLL_CTL_ADD ?fd
          \<lparr>ev_events = e, ev_ptr = Some ch\<rparr> (Ok ())]"
      using new(1) by (auto simp: EPollPoller_updateChannel_def Let_def i_def ok EPollPoller_update_granted
          map_chan_def)
    have "poller_inv (p\<lparr>pl_channels := (pl_channels p)(?fd \<mapsto> ch)\<rparr>) w'"
      using poller_inv_move [OF inv own slot _ ch] tr by simp
    with res ch new(1) show ?thesis by (auto simp: i_def)
  next
    case old
    with law have ok: "k_epoll_ctl K (ktrace w) (pl_epollfd p) EPOLL_CTL_MOD ?fd ev = Ok ()"
      "k_epoll_ctl K (ktrace w) (pl_epollfd p) EPOLL_CTL_DEL ?fd ev = Ok ()" for ev
      by (simp_all add: epoll_ctl_law_def)
    let ?j = "if e = kNoneEvent then kDeleted else kAdded"
    have upd: "p\<lparr>pl_channels := (pl_channels p)(?fd \<mapsto> ch)\<rparr> = p" using old(3) by (simp add: fun_upd_idem)
    have idx: "set_index kAdded (set_events e (chans w ch)) = set_events e (chans w ch)"
      using old(1) set_index_self [of "set_events e (chans w ch)"] by (simp add: i_def)
    obtain w' where res: "EPollPoller_updateChannel K ch p ?v = Inr (p, w')"
      and ch: "chans w' = (chans w)(ch := set_index ?j (set_events e (chans w ch)))"
      and tr: "ktrace w' = ktrace w @ [EvEpollCtl (pl_epollfd p)
          (if e = kNoneEvent then EPOLL_CTL_DEL else EPOLL_CTL_MOD) ?fd
          \<lparr>ev_events = e, ev_ptr = Some ch\<rparr> (Ok ())]"
      using old(1) idx by (cases "e = kNoneEvent") (auto simp: EPollPoller_updateChannel_def Let_def i_def ok
          EPollPoller_update_granted isNoneEvent_def map_chan_def)
    have "poller_inv (p\<lparr>pl_channels := (pl_channels p)(?fd \<mapsto> ch)\<rparr>) w'"
      using poller_inv_move [OF inv own slot _ ch] tr by simp
    with res ch old(1) show ?thesis unfolding upd by auto
  qed
qed

lemma removeChannel_total:
  assumes inv: "poller_inv p w" and law: "epoll_ctl_law K"
    and own: "ch_loop (chans w ch) = pl_owner p"
    and slot: "pl_channels p (ch_fd (chans w ch)) = None \<or> pl_channels p (ch_fd (chans w ch)) = Some ch"
  shows "\<exists>p' w'. EPollPoller_removeChannel K ch p w = Inr (p', w') \<and> poller_inv p' w'
     \<and> p' = p\<lparr>pl_channels := (pl_channels p)(ch_fd (chans w ch) := None)\<rparr>
     \<and> chans w' ch = set_index kNew (chans w ch)"
proof -
  let ?fd = "ch_fd (chans w ch)"
  have int: "interest (pl_epollfd p) (ktrace w) = expected_interest p w"
    using inv by (simp add: poller_inv_def)
  show ?thesis
  proof (cases "ch_index (chans w ch) = kAdded")
    case True
    then have "interest (pl_epollfd p) (ktrace w) ?fd \<noteq> None"
      using poller_inv_index [OF inv own] by (auto simp: int expected_interest_def)
    with law have ok: "k_epoll_ctl K (ktrace w) (pl_epollfd p) EPOLL_CTL_DEL ?fd ev = Ok ()" for ev
      by (simp add: epoll_ctl_law_def)
    obtain w' where res: "EPollPoller_removeChannel K ch p w =
        Inr (p\<lparr>pl_channels := (pl_channels p)(?fd := None)\<rparr>, w')"
      and ch: "chans w' = (chans w)(ch := set_index kNew (chans w ch))"
      and tr: "ktrace w' = ktrace w @ [EvEpollCtl (pl_epollfd p) EPOLL_CTL_DEL ?fd
          \<lparr>ev_events = ch_events (chans w ch), ev_ptr = Some ch\<rparr> (Ok ())]"
      using True by (auto simp: EPollPoller_removeChannel_def Let_def ok EPollPoller_update_granted map_chan_def)
    then show ?thesis using poller_inv_remove [OF inv slot ch] by simp
  next
    case False
    then have none: "interest (pl_epollfd p) (ktrace w) ?fd = None"
      using slot by (auto simp: int expected_interest_def)
    obtain w' where res: "EPollPoller_removeChannel K ch p w =
        Inr (p\<lparr>pl_channels := (pl_channels p)(?fd := None)\<rparr>, w')"
      and ch: "chans w' = (chans w)(ch := set_index kNew (chans w ch))"
      and tr: "ktrace w' = ktrace w"
      using False by (auto simp: EPollPoller_removeChannel_def Let_def map_chan_def)
    then show ?thesis using poller_inv_remove [OF inv slot ch] none by (simp add: fun_upd_idem)
  qed
qed

section \<open>Waiting for events\<close>

text \<open>A step that only waits, logs, and stores reported masks.\<close>

definition reports :: "'z cworld_scheme \<Rightarrow> 'z cworld_scheme \<Rightarrow> bool" where
  "reports w w' \<longleftrightarrow> (\<exists>tr. quiet tr \<and> ktrace w' = ktrace w @ tr)
     \<and> (\<forall>c. \<exists>r. chans w' c = set_revents r (chans w c))
     \<and> cur_tid w' = cur_tid w \<and> cworld.more w' = cworld.more w"

lemma set_revents_self [simp]: "set_revents (ch_revents c) c = c"
  by (cases c) (simp add: set_revents_def)

lemma set_revents_twice [simp]: "set_revents r (set_revents q c) = set_revents r c"
  by (simp add: set_revents_def)

lemma set_revents_revents [simp]: "ch_revents (set_revents r c) = r"
  by (simp add: set_revents_def)

lemma map_chan_revents: "\<exists>q. chans (map_chan ch (set_revents r) w) c = set_revents q (chans w c)"
proof (cases "c = ch")
  case True
  then show ?thesis by (auto simp: map_chan_def)
next
  case False
  then have "chans (map_chan ch (set_revents r) w) c = set_revents (ch_revents (chans w c)) (chans w c)"
    by (simp add: map_chan_def)
  then show ?thesis by blast
qed

lemma fill_one_simps:
  "ev_ptr ev = None \<Longrightarrow> fill_one ev (acc, w) = Inl Null_dereference"
  "ev_ptr ev = Some ch \<Longrightarrow> fill_one ev (acc, w) = Inr (acc @ [ch], map_chan ch (set_revents (ev_events ev)) w)"
  by (simp_all add: fill_one_def)

lemma fill_spec:
  assumes "\<forall>ev \<in> set evs. ev_ptr ev \<noteq> None"
  shows "\<exists>w'. foldE fill_one evs (acc, w) = Inr (acc @ map (the \<circ> ev_ptr) evs, w')
    \<and> ktrace w' = ktrace w \<and> cur_tid w' = cur_tid w \<and> cworld.more w' = cworld.more w
    \<and> (\<forall>c. \<exists>r. chans w' c = set_revents r (chans w c))
    \<and> (\<forall>c. c \<notin> (the \<circ> ev_ptr) ` set evs \<longrightarrow> chans w' c = chans w c)
    \<and> (distinct (map ev_ptr evs) \<longrightarrow>
        (\<forall>ev \<in> set evs. ch_revents (chans w' (the (ev_ptr ev))) = ev_events ev))"
  using assms
proof (induction evs arbitrary: acc w)
  case Nil
  have "\<forall>c. \<exists>r. chans w c = set_revents r (chans w c)" by (metis set_revents_self)
  then show ?case by simp
next
  case (Cons ev evs)
  from Cons.prems obtain ch where ch: "ev_ptr ev = Some ch" by auto
  let ?v = "map_chan ch (set_revents (ev_events ev)) w"
  obtain w' where w': "foldE fill_one evs (acc @ [ch], ?v) = Inr ((acc @ [ch]) @ map (the \<circ> ev_ptr) evs, w')"
    "ktrace w' = ktrace ?v" "cur_tid w' = cur_tid ?v" "cworld.more w' = cworld.more ?v"
    "\<forall>c. \<exists>r. chans w' c = set_revents r (chans ?v c)"
    "\<forall>c. c \<notin> (the \<circ> ev_ptr) ` set evs \<longrightarrow> chans w' c = chans ?v c"
    "distinct (map ev_ptr evs) \<longrightarrow>
        (\<forall>ev \<in> set evs. ch_revents (chans w' (the (ev_ptr ev))) = ev_events ev)"
    using Cons.IH [of "acc @ [ch]" ?v] Cons.prems by auto
  have rev: "\<exists>r. chans w' c = set_revents r (chans w c)" for c
    using w'(5) map_chan_revents [of ch "ev_events ev" w c] by (metis set_revents_twice)
  have fresh: "distinct (map ev_ptr (ev # evs)) \<Longrightarrow> ch \<notin> (the \<circ> ev_ptr) ` set evs"
    using ch Cons.prems by (force simp: image_iff)
  show ?case
    using w' ch rev fresh by (auto simp: fill_one_simps map_chan_def)
qed

lemma poller_inv_revents:
  assumes inv: "poller_inv p w" and rev: "\<forall>c. \<exists>r. chans w' c = set_revents r (chans w c)"
    and int: "interest (pl_epollfd p) (ktrace w') = interest (pl_epollfd p) (ktrace w)"
    and p': "pl_channels p' = pl_channels p" "pl_owner p' = pl_owner p" "pl_epollfd p' = pl_epollfd p"
      "0 < length (pl_events p')"
  shows "poller_inv p' w'"
proof -
  have same: "ch_fd (chans w' c) = ch_fd (chans w c)" "ch_loop (chans w' c) = ch_loop (chans w c)"
    "ch_index (chans w' c) = ch_index (chans w c)" "ch_events (chans w' c) = ch_events (chans w c)" for c
    using rev by (metis set_fields)+
  have "expected_interest p' w' = expected_interest p w"
    by (auto simp: expected_interest_def p' same split: option.splits)
  with inv int p' show ?thesis by (simp add: poller_inv_def same)
qed

lemma poller_inv_same:
  assumes "poller_inv p w" "chans v = chans w"
    and "interest (pl_epollfd p) (ktrace v) = interest (pl_epollfd p) (ktrace w)"
  shows "poller_inv p v"
proof -
  have "expected_interest p v = expected_interest p w"
    by (rule ext) (simp add: expected_interest_def assms(2) split: option.split)
  with assms show ?thesis by (simp add: poller_inv_def)
qed

text \<open>A channel the poller does not know may be constructed anew.\<close>

lemma poller_inv_construct:
  assumes inv: "poller_inv p w" and old: "ch_index (chans w ch) = kNew" and new: "ch_index c = kNew"
    and ch: "chans v = (chans w)(ch := c)"
    and int: "interest (pl_epollfd p) (ktrace v) = interest (pl_epollfd p) (ktrace w)"
  shows "poller_inv p v"
proof -
  have other: "d \<noteq> ch" if "pl_channels p f = Some d" for f d
    using poller_inv_slot(3) [OF inv that] old by auto
  have "expected_interest p v f = expected_interest p w f" for f
    using other by (auto simp: expected_interest_def ch split: option.split)
  then have "expected_interest p v = expected_interest p w" by blast
  moreover have "interest (pl_epollfd p) (ktrace w) = expected_interest p w" "0 < length (pl_events p)"
    using inv by (simp_all add: poller_inv_def)
  moreover have slot: "ch_fd (chans v d) = f \<and> ch_loop (chans v d) = pl_owner p
      \<and> (ch_index (chans v d) = kAdded \<or> ch_index (chans v d) = kDeleted)" if "pl_channels p f = Some d" for f d
    using poller_inv_slot [OF inv that] other [OF that] by (simp add: ch)
  moreover have bck: "pl_channels p (ch_fd (chans v d)) = Some d"
    if "ch_loop (chans v d) = pl_owner p" "ch_index (chans v d) \<noteq> kNew" for d
  proof -
    have "d \<noteq> ch" using that(2) new ch by auto
    then show ?thesis using that poller_inv_back [OF inv, of d] by (simp add: ch)
  qed
  ultimately have "interest (pl_epollfd p) (ktrace v) = expected_interest p v" "0 < length (pl_events p)"
    using int by simp_all
  with slot bck show ?thesis unfolding poller_inv_def by blast
qed

text \<open>A successful wait, with the log lines and the history event in place.\<close>

definition polled :: "kernel \<Rightarrow> int \<Rightarrow> Poller \<Rightarrow> epoll_event list \<Rightarrow> 'z cworld_scheme \<Rightarrow> 'z cworld_scheme" where
  "polled K timeoutMs p evs w =
     record_event (EvEpollWait (pl_epollfd p) (length (pl_events p)) timeoutMs (Ok evs))
       (LOG K INFO ''func = %s : fd total count = %lu \<newline> ''
          [AStr ''poll'', AInt (int (card (dom (pl_channels p))))] w)"

lemma poll_events:
  assumes "k_epoll_wait K (ktrace w) (pl_epollfd p) (length (pl_events p)) timeoutMs = Ok evs"
    and "length evs \<le> length (pl_events p)"
  shows "EPollPoller_poll K timeoutMs p w =
     (let t = Timestamp_now (k_time K (ktrace w @ [EvEpollWait (pl_epollfd p) (length (pl_events p)) timeoutMs (Ok evs)]))
      in if evs = [] then Inr (t, [], p, polled K timeoutMs p evs w)
      else bindE (foldE fill_one evs ([], LOG K INFO ''%d events happened \<newline>'' [AInt (int (length evs))]
               (polled K timeoutMs p evs w))) (\<lambda>(active, w).
             Inr (t, active, if length evs = length (pl_events p)
                  then p\<lparr>pl_events := evs @ replicate (length (pl_events p)) zero_event\<rparr>
                  else p\<lparr>pl_events := evs @ drop (length evs) (pl_events p)\<rparr>, w)))"
  using assms
  by (auto simp: EPollPoller_poll_def sys_epoll_wait_def Let_def fillActiveChannels_def polled_def
      intro!: bindE_cong)

lemma poll_reports:
  assumes "EPollPoller_poll K timeout p w = Inr (t, active, p', w')"
  shows "reports w w'"
proof -
  have fill: "reports u v" if "foldE fill_one evs (acc, u) = Inr (active, v)" for evs acc u v
    using that
  proof (induction evs arbitrary: acc u)
    case Nil
    then show ?case
      by (auto simp: reports_def intro!: exI [of _ "[]"]) (metis set_revents_self)
  next
    case (Cons ev evs)
    then obtain ch where "ev_ptr ev = Some ch"
      and "foldE fill_one evs (acc @ [ch], map_chan ch (set_revents (ev_events ev)) u) = Inr (active, v)"
      by (cases "ev_ptr ev") (auto simp: fill_one_simps)
    then have "reports (map_chan ch (set_revents (ev_events ev)) u) v" using Cons.IH by blast
    then show ?case
      using map_chan_revents [of ch "ev_events ev" u] unfolding reports_def
      by (metis map_chan_simps(3-5) set_revents_twice)
  qed
  have self: "\<forall>c. \<exists>r. chans u c = set_revents r (chans u c)" for u :: "'a cworld_scheme"
    by (metis set_revents_self)
  show ?thesis
    using assms self
    by (fastforce simp: EPollPoller_poll_def fillActiveChannels_def sys_epoll_wait_def Let_def quiet_def
        reports_def record_event_def split: sysret.splits if_splits dest!: fill)
qed

section \<open>The interface the event loop relies on\<close>

text \<open>
  \<open>update\<close> is called on a channel whose interest bits have just changed.  A channel the poller
  accepts can be updated and removed without the process ending, both keep the invariant, and only
  the channel itself is registered or forgotten.
\<close>

definition update_to ::
    "(chan_id \<Rightarrow> 'p \<Rightarrow> 'z cworld_scheme \<Rightarrow> ('p \<times> 'z cworld_scheme) res) \<Rightarrow> chan_id \<Rightarrow> 32 word
     \<Rightarrow> 'p \<times> 'z cworld_scheme \<Rightarrow> ('p \<times> 'z cworld_scheme) res" where
  "update_to update ch e s = (case s of (p, w) \<Rightarrow> update ch p (map_chan ch (set_events e) w))"

locale channel_registry =
  fixes inv :: "'p \<Rightarrow> 'z cworld_scheme \<Rightarrow> bool"
    and accepts :: "chan_id \<Rightarrow> 'p \<Rightarrow> 'z cworld_scheme \<Rightarrow> bool"
    and has :: "chan_id \<Rightarrow> 'p \<Rightarrow> 'z cworld_scheme \<Rightarrow> bool"
    and update :: "chan_id \<Rightarrow> 'p \<Rightarrow> 'z cworld_scheme \<Rightarrow> ('p \<times> 'z cworld_scheme) res"
    and forget :: "chan_id \<Rightarrow> 'p \<Rightarrow> 'z cworld_scheme \<Rightarrow> ('p \<times> 'z cworld_scheme) res"
  assumes update_ok: "inv p w \<Longrightarrow> accepts ch p w \<Longrightarrow>
      \<exists>p' w'. update ch p (map_chan ch (set_events e) w) = Inr (p', w')
        \<and> inv p' w' \<and> accepts ch p' w' \<and> has ch p' w'"
    and forget_ok: "inv p w \<Longrightarrow> accepts ch p w \<Longrightarrow>
      \<exists>p' w'. forget ch p w = Inr (p', w') \<and> inv p' w' \<and> accepts ch p' w' \<and> \<not> has ch p' w'"
begin

text \<open>Any sequence of interest changes of one channel goes through.\<close>

lemma updates_ok:
  assumes "inv p w" "accepts ch p w"
  shows "\<exists>p' w'. foldE (update_to update ch) es (p, w) = Inr (p', w') \<and> inv p' w' \<and> accepts ch p' w'"
  using foldE_total [of "\<lambda>(p, w). inv p w \<and> accepts ch p w" "(p, w)" es "update_to update ch"] assms update_ok
  by (fastforce simp: update_to_def)

text \<open>The way every owner lets go of its channel: no interest, then forget it.\<close>

lemma release_ok:
  assumes "inv p w" "accepts ch p w"
  shows "\<exists>p' w'. bindE (foldE (update_to update ch) es (p, w)) (\<lambda>(p, w). forget ch p w) = Inr (p', w')
    \<and> inv p' w' \<and> \<not> has ch p' w'"
  using updates_ok [OF assms, of es] forget_ok by fastforce

end

lemma attachable_after:
  assumes "attachable ch p w" "pl_owner p' = pl_owner p" "open_fds (ktrace w') = open_fds (ktrace w)"
    and "ch_fd (chans w' ch) = ch_fd (chans w ch)" "ch_loop (chans w' ch) = ch_loop (chans w ch)"
    and "pl_channels p' (ch_fd (chans w ch)) = None \<or> pl_channels p' (ch_fd (chans w ch)) = Some ch"
  shows "attachable ch p' w'"
  using assms by (simp add: attachable_def)

lemma poller_update_ok:
  assumes "epoll_ctl_law K" "poller_inv p w" "attachable ch p w"
  shows "\<exists>p' w'. EPollPoller_updateChannel K ch p (map_chan ch (set_events e) w) = Inr (p', w')
     \<and> poller_inv p' w' \<and> attachable ch p' w' \<and> hasChannel ch p' w'"
proof -
  obtain p' w' where r: "EPollPoller_updateChannel K ch p (map_chan ch (set_events e) w) = Inr (p', w')"
    "poller_inv p' w'" "p' = p\<lparr>pl_channels := (pl_channels p)(ch_fd (chans w ch) \<mapsto> ch)\<rparr>"
    and ch: "ch_fd (chans w' ch) = ch_fd (chans w ch)" "ch_loop (chans w' ch) = ch_loop (chans w ch)"
    using updateChannel_total [OF assms(2,1,3), of e] by fastforce
  moreover have "open_fds (ktrace w') = open_fds (ktrace w)"
    using registersD(1) [OF updateChannel_registers [OF r(1)]] by simp
  ultimately show ?thesis
    using assms(3) by (auto simp: attachable_def hasChannel_def)
qed

lemma poller_forget_ok:
  assumes "epoll_ctl_law K" "poller_inv p w" "attachable ch p w"
  shows "\<exists>p' w'. EPollPoller_removeChannel K ch p w = Inr (p', w')
     \<and> poller_inv p' w' \<and> attachable ch p' w' \<and> \<not> hasChannel ch p' w'"
proof -
  have "ch_loop (chans w ch) = pl_owner p"
    and "pl_channels p (ch_fd (chans w ch)) = None \<or> pl_channels p (ch_fd (chans w ch)) = Some ch"
    using assms(3) by (auto simp: attachable_def)
  from removeChannel_total [OF assms(2,1) this]
  obtain p' w' where r: "EPollPoller_removeChannel K ch p w = Inr (p', w')"
    "poller_inv p' w'" "p' = p\<lparr>pl_channels := (pl_channels p)(ch_fd (chans w ch) := None)\<rparr>"
    and ch: "ch_fd (chans w' ch) = ch_fd (chans w ch)" "ch_loop (chans w' ch) = ch_loop (chans w ch)"
    by fastforce
  moreover have "open_fds (ktrace w') = open_fds (ktrace w)"
    using registersD(1) [OF removeChannel_registers [OF r(1)]] by simp
  ultimately show ?thesis
    using assms(3) by (auto simp: attachable_def hasChannel_def)
qed

interpretation epoll: channel_registry "\<lambda>p w. epoll_ctl_law K \<and> poller_inv p w" attachable hasChannel
    "EPollPoller_updateChannel K" "EPollPoller_removeChannel K" for K
  by unfold_locales (use poller_update_ok poller_forget_ok in blast)+

section \<open>Properties\<close>

text \<open>
  C12: as long as the poller's map, the registration states and the kernel's interest list agree and
  the channel has an open descriptor of its own, no interest change ends the process: the call chosen
  by the registration state (ADD, MOD or DEL) is one the kernel grants, the agreement is kept, the
  channel is found by \<open>hasChannel\<close>, and the kernel then watches the descriptor for exactly the new
  interest (or not at all, when a watched channel gives up all interest).
\<close>

theorem updateChannel_correct:
  assumes "poller_inv p w" "epoll_ctl_law K" "attachable ch p w"
  shows "\<exists>p' w'. EPollPoller_updateChannel K ch p (map_chan ch (set_events e) w) = Inr (p', w')
    \<and> poller_inv p' w' \<and> hasChannel ch p' w'
    \<and> interest (pl_epollfd p) (ktrace w') (ch_fd (chans w ch)) =
        (if ch_index (chans w ch) = kAdded \<and> e = kNoneEvent then None
         else Some \<lparr>ev_events = e, ev_ptr = Some ch\<rparr>)"
proof -
  obtain p' w' where r: "EPollPoller_updateChannel K ch p (map_chan ch (set_events e) w) = Inr (p', w')"
    "poller_inv p' w'" "p' = p\<lparr>pl_channels := (pl_channels p)(ch_fd (chans w ch) \<mapsto> ch)\<rparr>"
    "chans w' ch = set_index (if ch_index (chans w ch) = kAdded \<and> e = kNoneEvent then kDeleted else kAdded)
          (set_events e (chans w ch))"
    using updateChannel_total [OF assms, of e] by blast
  then have "interest (pl_epollfd p') (ktrace w') = expected_interest p' w'"
    by (simp add: poller_inv_def)
  with r show ?thesis by (auto simp: expected_interest_def hasChannel_def)
qed

text \<open>A poller with one open descriptor that is not registered yet.\<close>

definition demo_poller :: Poller where
  "demo_poller = \<lparr>pl_channels = Map.empty, pl_owner = 0, pl_epollfd = 3,
     pl_events = replicate kInitEventListSize zero_event\<rparr>"

definition demo_cworld :: cworld where
  "demo_cworld = \<lparr>ktrace = [EvEpollCreate (Ok 3), EvSocket (Ok 7)], logger_of = Logger_initial, cur_tid = 1,
     chans = (\<lambda>ch. Channel_ctor 0 7)\<rparr>"

lemma demo_poller_facts [simp]:
  "poller_inv demo_poller demo_cworld" "attachable AcceptChan demo_poller demo_cworld"
  "ch_fd (chans demo_cworld ch) = 7" "ch_index (chans demo_cworld ch) = kNew"
  "pl_epollfd demo_poller = 3"
  by (auto simp: poller_inv_def attachable_def demo_poller_def demo_cworld_def Channel_ctor_def index_defs
      expected_interest_def kInitEventListSize_def interest_def open_fds_def)

theorem updateChannel_correct_witness:
  "\<exists>p' w'. EPollPoller_updateChannel (plain_kernel 4 []) AcceptChan demo_poller
      (map_chan AcceptChan (set_events kReadEvent) demo_cworld) = Inr (p', w')
    \<and> hasChannel AcceptChan p' w'
    \<and> interest 3 (ktrace w') 7 = Some \<lparr>ev_events = kReadEvent, ev_ptr = Some AcceptChan\<rparr>"
  using updateChannel_correct [of demo_poller demo_cworld "plain_kernel 4 []" AcceptChan kReadEvent]
  by auto

text \<open>
  C20: after \<open>removeChannel\<close> the poller does not know the channel, the kernel does not watch its
  descriptor, its state is \<open>kNew\<close> again and every other registration stays.
\<close>

theorem removeChannel_correct:
  assumes "poller_inv p w" "epoll_ctl_law K" "attachable ch p w"
  shows "\<exists>p' w'. EPollPoller_removeChannel K ch p w = Inr (p', w') \<and> poller_inv p' w'
    \<and> \<not> hasChannel ch p' w' \<and> ch_index (chans w' ch) = kNew
    \<and> interest (pl_epollfd p) (ktrace w') (ch_fd (chans w ch)) = None
    \<and> (\<forall>f. f \<noteq> ch_fd (chans w ch) \<longrightarrow> pl_channels p' f = pl_channels p f)"
proof -
  have "ch_loop (chans w ch) = pl_owner p"
    and "pl_channels p (ch_fd (chans w ch)) = None \<or> pl_channels p (ch_fd (chans w ch)) = Some ch"
    using assms(3) by (auto simp: attachable_def)
  from removeChannel_total [OF assms(1,2) this]
  obtain p' w' where r: "EPollPoller_removeChannel K ch p w = Inr (p', w')" "poller_inv p' w'"
    "p' = p\<lparr>pl_channels := (pl_channels p)(ch_fd (chans w ch) := None)\<rparr>"
    "chans w' ch = set_index kNew (chans w ch)" by blast
  then have "interest (pl_epollfd p') (ktrace w') = expected_interest p' w'"
    by (simp add: poller_inv_def)
  with r show ?thesis by (auto simp: expected_interest_def hasChannel_def)
qed

theorem removeChannel_correct_witness:
  "\<exists>p' w'. EPollPoller_removeChannel (plain_kernel 4 []) AcceptChan demo_poller demo_cworld = Inr (p', w')
    \<and> \<not> hasChannel AcceptChan p' w'"
  using removeChannel_correct [of demo_poller demo_cworld "plain_kernel 4 []" AcceptChan] by auto

text \<open>
  C21: however an owner has changed its channel's interest before, giving it up and removing the channel
  goes through and leaves it unregistered.
\<close>

theorem release_channel:
  assumes "poller_inv p w" "epoll_ctl_law K" "attachable ch p w"
  shows "\<exists>p' w'. bindE (foldE (update_to (EPollPoller_updateChannel K) ch) (es @ [kNoneEvent]) (p, w))
      (\<lambda>(p, w). EPollPoller_removeChannel K ch p w) = Inr (p', w')
    \<and> poller_inv p' w' \<and> \<not> hasChannel ch p' w'"
  using epoll.release_ok [of K p w ch "es @ [kNoneEvent]"] assms by auto

theorem release_channel_witness:
  "\<exists>p' w'. bindE (foldE (update_to (EPollPoller_updateChannel (plain_kernel 4 [])) AcceptChan)
        ([kReadEvent] @ [kNoneEvent]) (demo_poller, demo_cworld))
      (\<lambda>(p, w). EPollPoller_removeChannel (plain_kernel 4 []) AcceptChan p w) = Inr (p', w')
    \<and> \<not> hasChannel AcceptChan p' w'"
  using release_channel [of demo_poller demo_cworld "plain_kernel 4 []" AcceptChan "[kReadEvent]"] by auto

lemma poll_spec:
  assumes inv: "poller_inv p w" and law: "epoll_wait_law K"
  shows "\<exists>t active p' w'. EPollPoller_poll K timeoutMs p w = Inr (t, active, p', w') \<and> poller_inv p' w'
    \<and> pl_owner p' = pl_owner p \<and> pl_epollfd p' = pl_epollfd p
    \<and> (\<exists>r. ktrace w' = ktrace w @ [EvEpollWait (pl_epollfd p) (length (pl_events p)) timeoutMs r])
    \<and> (case k_epoll_wait K (ktrace w) (pl_epollfd p) (length (pl_events p)) timeoutMs of
         Fail e \<Rightarrow> active = [] \<and> p' = p \<and> chans w' = chans w
       | Ok evs \<Rightarrow> map Some active = map ev_ptr evs
           \<and> (\<forall>ch \<in> set active. hasChannel ch p' w' \<and> ch_index (chans w' ch) = kAdded)
           \<and> (distinct active \<longrightarrow> (\<forall>ev \<in> set evs. ch_revents (chans w' (the (ev_ptr ev))) = ev_events ev))
           \<and> length (pl_events p') = (if length evs = length (pl_events p) then 2 * length (pl_events p)
               else length (pl_events p)))"
proof (cases "k_epoll_wait K (ktrace w) (pl_epollfd p) (length (pl_events p)) timeoutMs")
  case (Fail e)
  then obtain t w' where "EPollPoller_poll K timeoutMs p w = Inr (t, [], p, w')" "chans w' = chans w"
    "ktrace w' = ktrace w @ [EvEpollWait (pl_epollfd p) (length (pl_events p)) timeoutMs (Fail e)]"
    by (cases "e = EINTR") (simp_all add: EPollPoller_poll_def sys_epoll_wait_def Let_def)
  with Fail poller_inv_same [OF inv, of w'] show ?thesis by simp
next
  case (Ok evs)
  from law Ok have len: "length evs \<le> length (pl_events p)"
    and reg: "\<forall>ev \<in> set evs. \<exists>f ev'. interest (pl_epollfd p) (ktrace w) f = Some ev' \<and> ev_ptr ev = ev_ptr ev'"
    by (auto simp: epoll_wait_law_def)
  have added: "\<exists>ch. ev_ptr ev = Some ch \<and> pl_channels p (ch_fd (chans w ch)) = Some ch
      \<and> ch_index (chans w ch) = kAdded" if ev: "ev \<in> set evs" for ev
  proof -
    from reg ev obtain f ev' where "expected_interest p w f = Some ev'" "ev_ptr ev = ev_ptr ev'"
      using inv by (auto simp: poller_inv_def)
    then show ?thesis using poller_inv_slot(1) [OF inv]
      by (auto simp: expected_interest_def split: option.splits if_splits)
  qed
  then have ptr: "\<forall>ev \<in> set evs. ev_ptr ev \<noteq> None" by fastforce
  let ?n = "length (pl_events p)"
  let ?w1 = "polled K timeoutMs p evs w"
  have w1: "chans ?w1 = chans w" "cworld.more ?w1 = cworld.more w"
    "ktrace ?w1 = ktrace w @ [EvEpollWait (pl_epollfd p) ?n timeoutMs (Ok evs)]"
    by (simp_all add: polled_def) (simp add: record_event_def)
  note poll = poll_events [OF Ok len, unfolded Let_def]
  show ?thesis
  proof (cases "evs = []")
    case True
    then show ?thesis
      using poller_inv_same [OF inv, of ?w1] poll Ok w1 inv by (simp add: poller_inv_def)
  next
    case False
    let ?w2 = "LOG K INFO ''%d events happened \<newline>'' [AInt (int (length evs))] ?w1"
    obtain w' where w': "foldE fill_one evs ([], ?w2) = Inr (map (the \<circ> ev_ptr) evs, w')"
      "ktrace w' = ktrace ?w1" "\<forall>c. \<exists>r. chans w' c = set_revents r (chans ?w1 c)"
      "distinct (map ev_ptr evs) \<longrightarrow> (\<forall>ev \<in> set evs. ch_revents (chans w' (the (ev_ptr ev))) = ev_events ev)"
      using fill_spec [OF ptr, of "[]" ?w2] by auto
    let ?p = "if length evs = ?n then p\<lparr>pl_events := evs @ replicate ?n zero_event\<rparr>
               else p\<lparr>pl_events := evs @ drop (length evs) (pl_events p)\<rparr>"
    have act: "map Some (map (the \<circ> ev_ptr) evs) = map ev_ptr evs" using ptr by simp
    then have dist: "distinct (map ev_ptr evs)" if "distinct (map (the \<circ> ev_ptr) evs)"
      using that by (metis distinct_map inj_Some inj_on_subset subset_UNIV)
    have inv': "poller_inv ?p w'"
      using poller_inv_revents [OF inv, of w' ?p] w' w1 inv False by (simp add: poller_inv_def)
    have same: "ch_fd (chans w' c) = ch_fd (chans w c)" "ch_index (chans w' c) = ch_index (chans w c)" for c
      using w'(3) w1(1) by (metis set_fields(9,11))+
    have reg': "hasChannel ch ?p w' \<and> ch_index (chans w' ch) = kAdded"
      if "ch \<in> set (map (the \<circ> ev_ptr) evs)" for ch
      using that added by (fastforce simp: hasChannel_def same)
    have "length (pl_events ?p) = (if length evs = ?n then 2 * ?n else ?n)" using len by simp
    moreover have "pl_owner ?p = pl_owner p \<and> pl_epollfd ?p = pl_epollfd p" by simp
    moreover have "ktrace w' = ktrace w @ [EvEpollWait (pl_epollfd p) ?n timeoutMs (Ok evs)]" using w'(2) w1(3) by simp
    ultimately show ?thesis using poll False w'(1,4) act inv' reg' dist Ok by simp
  qed
qed


text \<open>A kernel that reports descriptor 7 readable whenever it is watched, and a world where it is.\<close>

definition ready_kernel :: kernel where
  "ready_kernel = (plain_kernel 4 [])\<lparr>k_epoll_wait := (\<lambda>tr ep n t.
     case interest ep tr 7 of
       None \<Rightarrow> Ok []
     | Some ev \<Rightarrow> if n = 0 then Ok [] else Ok [\<lparr>ev_events = EPOLLIN, ev_ptr = ev_ptr ev\<rparr>])\<rparr>"

lemma ready_kernel_law: "epoll_wait_law ready_kernel"
  by (auto simp: epoll_wait_law_def ready_kernel_def split: option.splits if_splits)

definition watching_poller :: Poller where
  "watching_poller = demo_poller\<lparr>pl_channels := [7 \<mapsto> AcceptChan]\<rparr>"

definition watching_world :: cworld where
  "watching_world = demo_cworld\<lparr>
     ktrace := ktrace demo_cworld @ [EvEpollCtl 3 EPOLL_CTL_ADD 7 \<lparr>ev_events = 3, ev_ptr = Some AcceptChan\<rparr> (Ok ())],
     chans := (chans demo_cworld)(AcceptChan := set_index kAdded (set_events 3 (Channel_ctor 0 7)))\<rparr>"

lemma watching_inv: "poller_inv watching_poller watching_world"
  unfolding poller_inv_def
proof (intro conjI allI impI)
  show "interest (pl_epollfd watching_poller) (ktrace watching_world)
      = expected_interest watching_poller watching_world"
    by (rule ext) (simp add: watching_poller_def watching_world_def demo_cworld_def expected_interest_def
        demo_poller_def interest_def)
qed (auto simp: watching_poller_def watching_world_def demo_poller_def demo_cworld_def kInitEventListSize_def
      Channel_ctor_def index_defs set_index_def set_events_def split: if_splits)


end
