(* ===== verification/CurrentThread.thy ===== *)
theory CurrentThread
  imports Prelude
begin

text \<open>
  \<^verbatim>\<open>CurrentThread.h\<close>, \<^verbatim>\<open>CurrentThread.cc\<close>: the cached thread id of one thread.  The state is the
  thread-local cache and the number of \<^verbatim>\<open>gettid\<close> calls made; the kernel's answer for this thread is a
  parameter.  The other theories read the result of \<open>tid\<close> as \<open>cur_tid\<close> of the world, which the
  property below justifies.
\<close>

record thread_local =
  t_cachedTid :: int
  gettid_calls :: nat

definition thread_start :: thread_local where
  "thread_start = \<lparr>t_cachedTid = 0, gettid_calls = 0\<rparr>"

definition cacheTid :: "int \<Rightarrow> thread_local \<Rightarrow> thread_local" where
  "cacheTid gettid s =
     (if t_cachedTid s = 0 then s\<lparr>t_cachedTid := gettid, gettid_calls := gettid_calls s + 1\<rparr> else s)"

definition tid :: "int \<Rightarrow> thread_local \<Rightarrow> int \<times> thread_local" where
  "tid gettid s =
     (let s = (if t_cachedTid s = 0 then cacheTid gettid s else s) in (t_cachedTid s, s))"

text \<open>\<open>n\<close> calls of \<open>tid\<close> in a row: their results and the state after them.\<close>

fun tids :: "nat \<Rightarrow> int \<Rightarrow> thread_local \<Rightarrow> int list \<times> thread_local" where
  "tids 0 g s = ([], s)"
| "tids (Suc n) g s = (let (t, s) = tid g s; (ts, s) = tids n g s in (t # ts, s))"

lemma tids_cached: "t_cachedTid s = g \<Longrightarrow> g \<noteq> 0 \<Longrightarrow> tids n g s = (replicate n g, s)"
  by (induction n) (simp_all add: tid_def)

text \<open>
  Every call of \<open>tid\<close> in a thread returns the thread's id, and the system call is made once,
  however many calls there are (thread ids are never zero).
\<close>

theorem tid_cached_once:
  assumes "g \<noteq> 0" "0 < n"
  shows "fst (tids n g thread_start) = replicate n g \<and> gettid_calls (snd (tids n g thread_start)) = 1"
proof -
  obtain m where n: "n = Suc m" using assms(2) by (cases n) auto
  have "tids m g \<lparr>t_cachedTid = g, gettid_calls = 1\<rparr> = (replicate m g, \<lparr>t_cachedTid = g, gettid_calls = 1\<rparr>)"
    by (rule tids_cached) (use assms(1) in simp_all)
  then show ?thesis
    using assms(1) by (simp add: n tid_def cacheTid_def thread_start_def)
qed

theorem tid_cached_once_witness:
  "fst (tids 3 42 thread_start) = [42, 42, 42] \<and> gettid_calls (snd (tids 3 42 thread_start)) = 1"
  using tid_cached_once [of 42 3] by (simp add: numeral_3_eq_3)

end
