(* ===== verification/EventLoop.thy ===== *)
theory EventLoop
  imports EPollPoller CurrentThread
begin

text \<open>
  \<^verbatim>\<open>EventLoop.h\<close>, \<^verbatim>\<open>EventLoop.cc\<close>, and the members of \<open>Channel\<close> that go through the owner loop.  Every
  loop has its poller, its wakeup descriptor, and its queue of functors; \<open>el_functors\<close> is the local
  vector of \<open>doPendingFunctors\<close>, which keeps the objects bound in a batch alive until its end.  What a
  functor or a channel callback does is a parameter (\<open>run\<close>, \<open>run_cb\<close>) of the operations that call it.
\<close>

section \<open>State\<close>

record EventLoop =
  el_looping :: bool
  el_quit :: bool
  el_threadId :: int
  el_pollReturnTime :: timestamp
  el_poller :: "Poller option"
  el_wakeupFd :: fd
  el_activeChannels :: "chan_id list"
  el_callingPendingFunctors :: bool
  el_pendingFunctors :: "Functor list"
  el_functors :: "Functor list"

record lworld = cworld +
  loops :: "loop_id \<Rightarrow> EventLoop"
  loopInThread :: "int \<Rightarrow> loop_id option"

definition map_loop :: "loop_id \<Rightarrow> (EventLoop \<Rightarrow> EventLoop) \<Rightarrow> 'z lworld_scheme \<Rightarrow> 'z lworld_scheme" where
  "map_loop l f w = w\<lparr>loops := (loops w)(l := f (loops w l))\<rparr>"

definition kPollTimeMs :: int where
  "kPollTimeMs = 10000"

section \<open>Channels through their loop\<close>

definition EventLoop_updateChannel :: "kernel \<Rightarrow> loop_id \<Rightarrow> chan_id \<Rightarrow> 'z lworld_scheme \<Rightarrow> 'z lworld_scheme res" where
  "EventLoop_updateChannel K l ch w =
     (case el_poller (loops w l) of
        None \<Rightarrow> Inl Null_dereference
      | Some p \<Rightarrow> bindE (EPollPoller_updateChannel K ch p w) (\<lambda>(p, w).
          Inr (map_loop l (\<lambda>e. e\<lparr>el_poller := Some p\<rparr>) w)))"

definition EventLoop_removeChannel :: "kernel \<Rightarrow> loop_id \<Rightarrow> chan_id \<Rightarrow> 'z lworld_scheme \<Rightarrow> 'z lworld_scheme res" where
  "EventLoop_removeChannel K l ch w =
     (case el_poller (loops w l) of
        None \<Rightarrow> Inl Null_dereference
      | Some p \<Rightarrow> bindE (EPollPoller_removeChannel K ch p w) (\<lambda>(p, w).
          Inr (map_loop l (\<lambda>e. e\<lparr>el_poller := Some p\<rparr>) w)))"

definition EventLoop_hasChannel :: "loop_id \<Rightarrow> chan_id \<Rightarrow> 'z lworld_scheme \<Rightarrow> bool res" where
  "EventLoop_hasChannel l ch w =
     (case el_poller (loops w l) of
        None \<Rightarrow> Inl Null_dereference
      | Some p \<Rightarrow> Inr (hasChannel ch p w))"

definition Channel_update :: "kernel \<Rightarrow> chan_id \<Rightarrow> 'z lworld_scheme \<Rightarrow> 'z lworld_scheme res" where
  "Channel_update K ch w = EventLoop_updateChannel K (ch_loop (chans w ch)) ch w"

definition Channel_remove :: "kernel \<Rightarrow> chan_id \<Rightarrow> 'z lworld_scheme \<Rightarrow> 'z lworld_scheme res" where
  "Channel_remove K ch w = EventLoop_removeChannel K (ch_loop (chans w ch)) ch w"

definition enableReading :: "kernel \<Rightarrow> chan_id \<Rightarrow> 'z lworld_scheme \<Rightarrow> 'z lworld_scheme res" where
  "enableReading K ch w = Channel_update K ch (map_chan ch read_on w)"

definition disableReading :: "kernel \<Rightarrow> chan_id \<Rightarrow> 'z lworld_scheme \<Rightarrow> 'z lworld_scheme res" where
  "disableReading K ch w = Channel_update K ch (map_chan ch read_off w)"

definition enablewriting :: "kernel \<Rightarrow> chan_id \<Rightarrow> 'z lworld_scheme \<Rightarrow> 'z lworld_scheme res" where
  "enablewriting K ch w = Channel_update K ch (map_chan ch write_on w)"

definition disableWriting :: "kernel \<Rightarrow> chan_id \<Rightarrow> 'z lworld_scheme \<Rightarrow> 'z lworld_scheme res" where
  "disableWriting K ch w = Channel_update K ch (map_chan ch write_off w)"

definition disableAll :: "kernel \<Rightarrow> chan_id \<Rightarrow> 'z lworld_scheme \<Rightarrow> 'z lworld_scheme res" where
  "disableAll K ch w = Channel_update K ch (map_chan ch all_off w)"

section \<open>Waking up\<close>

text \<open>The eight bytes of \<^verbatim>\<open>uint64_t one = 1\<close> on a little-endian machine.\<close>

definition uint64_one :: bytes where
  "uint64_one = CHR 0x01 # replicate 7 (CHR 0x00)"

definition EventLoop_wakeup :: "kernel \<Rightarrow> loop_id \<Rightarrow> 'z lworld_scheme \<Rightarrow> 'z lworld_scheme" where
  "EventLoop_wakeup K l w =
     (let (r, w) = sys_write K (el_wakeupFd (loops w l)) uint64_one w;
          n = (case r of Ok k \<Rightarrow> int k | Fail e \<Rightarrow> -1)
      in if n \<noteq> 8 then LOG K ERROR ''EventLoop::wakeup() writes %lu bytes instead of 8 \<newline>'' [AInt n] w else w)"

definition EventLoop_handleRead :: "kernel \<Rightarrow> loop_id \<Rightarrow> 'z lworld_scheme \<Rightarrow> 'z lworld_scheme" where
  "EventLoop_handleRead K l w =
     (let (r, w) = sys_read K (el_wakeupFd (loops w l)) 8 w;
          n = (case r of Ok d \<Rightarrow> int (length d) | Fail e \<Rightarrow> -1)
      in if n \<noteq> 8
         then LOG K ERROR ''EventLoop::handleRead() reads %ld bytes intstead of 8 \<newline>'' [AInt n] w else w)"

definition isInLoopThread :: "loop_id \<Rightarrow> 'z lworld_scheme \<Rightarrow> bool" where
  "isInLoopThread l w \<longleftrightarrow> el_threadId (loops w l) = cur_tid w"

section \<open>The functor queue\<close>

definition queueInLoop :: "kernel \<Rightarrow> loop_id \<Rightarrow> Functor \<Rightarrow> 'z lworld_scheme \<Rightarrow> 'z lworld_scheme" where
  "queueInLoop K l cb w =
     (let w = map_loop l (\<lambda>e. e\<lparr>el_pendingFunctors := el_pendingFunctors e @ [cb]\<rparr>) w
      in if \<not> isInLoopThread l w \<or> el_callingPendingFunctors (loops w l) then EventLoop_wakeup K l w else w)"

definition runInLoop ::
    "kernel \<Rightarrow> (Functor \<Rightarrow> 'z lworld_scheme \<Rightarrow> 'z lworld_scheme res) \<Rightarrow> loop_id \<Rightarrow> Functor
     \<Rightarrow> 'z lworld_scheme \<Rightarrow> 'z lworld_scheme res" where
  "runInLoop K run l cb w = (if isInLoopThread l w then run cb w else Inr (queueInLoop K l cb w))"

definition EventLoop_quit :: "kernel \<Rightarrow> loop_id \<Rightarrow> 'z lworld_scheme \<Rightarrow> 'z lworld_scheme" where
  "EventLoop_quit K l w =
     (let w = map_loop l (\<lambda>e. e\<lparr>el_quit := True\<rparr>) w
      in if \<not> isInLoopThread l w then EventLoop_wakeup K l w else w)"

text \<open>The swap under the lock, and the end of the batch with the destruction of its vector (\<open>release\<close>).\<close>

definition take_batch :: "loop_id \<Rightarrow> 'z lworld_scheme \<Rightarrow> 'z lworld_scheme" where
  "take_batch l w = map_loop l (\<lambda>e. e\<lparr>el_callingPendingFunctors := True,
     el_functors := el_pendingFunctors e, el_pendingFunctors := []\<rparr>) w"

definition end_batch :: "loop_id \<Rightarrow> 'z lworld_scheme \<Rightarrow> 'z lworld_scheme" where
  "end_batch l w = map_loop l (\<lambda>e. e\<lparr>el_callingPendingFunctors := False, el_functors := []\<rparr>) w"

definition doPendingFunctors ::
    "(Functor \<Rightarrow> 'z lworld_scheme \<Rightarrow> 'z lworld_scheme res)
     \<Rightarrow> (Functor list \<Rightarrow> 'z lworld_scheme \<Rightarrow> 'z lworld_scheme res) \<Rightarrow> loop_id
     \<Rightarrow> 'z lworld_scheme \<Rightarrow> 'z lworld_scheme res" where
  "doPendingFunctors run release l w =
     (let w = take_batch l w; functors = el_functors (loops w l)
      in bindE (foldE run functors w) (\<lambda>w. release functors (end_batch l w)))"

section \<open>The loop\<close>

text \<open>One pass through the body of the \<^verbatim>\<open>while\<close> in \<open>loop\<close>.\<close>

definition loop_body ::
    "kernel \<Rightarrow> (conn_id \<Rightarrow> 'z lworld_scheme \<Rightarrow> bool)
     \<Rightarrow> (channel_cb \<Rightarrow> timestamp \<Rightarrow> 'z lworld_scheme \<Rightarrow> 'z lworld_scheme res)
     \<Rightarrow> (Functor \<Rightarrow> 'z lworld_scheme \<Rightarrow> 'z lworld_scheme res)
     \<Rightarrow> (Functor list \<Rightarrow> 'z lworld_scheme \<Rightarrow> 'z lworld_scheme res) \<Rightarrow> loop_id
     \<Rightarrow> 'z lworld_scheme \<Rightarrow> 'z lworld_scheme res" where
  "loop_body K alive run_cb run release l w =
     (let w = map_loop l (\<lambda>e. e\<lparr>el_activeChannels := []\<rparr>) w
      in case el_poller (loops w l) of
        None \<Rightarrow> Inl Null_dereference
      | Some p \<Rightarrow>
          bindE (EPollPoller_poll K kPollTimeMs p w) (\<lambda>(t, active, p, w).
          let w = map_loop l (\<lambda>e. e\<lparr>el_poller := Some p, el_pollReturnTime := t, el_activeChannels := active\<rparr>) w
          in bindE (foldE (\<lambda>ch w. handleEvent K alive run_cb (el_pollReturnTime (loops w l)) ch w) active w) (\<lambda>w.
             doPendingFunctors run release l w)))"

text \<open>The \<^verbatim>\<open>while\<close> itself: \<open>None\<close> is a loop that never ends.\<close>

partial_function (option) loop_while ::
    "('w \<Rightarrow> 'w res) \<Rightarrow> ('w \<Rightarrow> bool) \<Rightarrow> 'w \<Rightarrow> 'w res option" where
  "loop_while body quit w =
     (if quit w then Some (Inr w)
      else (case body w of Inl e \<Rightarrow> Some (Inl e) | Inr w' \<Rightarrow> loop_while body quit w'))"

definition EventLoop_loop ::
    "kernel \<Rightarrow> (conn_id \<Rightarrow> 'z lworld_scheme \<Rightarrow> bool)
     \<Rightarrow> (channel_cb \<Rightarrow> timestamp \<Rightarrow> 'z lworld_scheme \<Rightarrow> 'z lworld_scheme res)
     \<Rightarrow> (Functor \<Rightarrow> 'z lworld_scheme \<Rightarrow> 'z lworld_scheme res)
     \<Rightarrow> (Functor list \<Rightarrow> 'z lworld_scheme \<Rightarrow> 'z lworld_scheme res) \<Rightarrow> loop_id
     \<Rightarrow> 'z lworld_scheme \<Rightarrow> 'z lworld_scheme res option" where
  "EventLoop_loop K alive run_cb run release l w =
     (let w = LOG K INFO ''EventLoop %p start looping \<newline>'' [AInt (int l)]
                (map_loop l (\<lambda>e. e\<lparr>el_looping := True, el_quit := False\<rparr>) w)
      in map_option (\<lambda>r. bindE r (\<lambda>w. Inr (map_loop l (\<lambda>e. e\<lparr>el_looping := False\<rparr>)
             (LOG K INFO ''EventLoop %p stop looping. \<newline>'' [AInt (int l)] w))))
           (loop_while (loop_body K alive run_cb run release l) (\<lambda>w. el_quit (loops w l)) w))"

section \<open>Construction and destruction\<close>

definition createEventfd :: "kernel \<Rightarrow> 'z kworld_scheme \<Rightarrow> (fd \<times> 'z kworld_scheme) res" where
  "createEventfd K w =
     (let (r, w) = sys_eventfd K w
      in case r of Fail e \<Rightarrow> LOG_FATAL ''eventfd error:%d \<newline>'' | Ok f \<Rightarrow> Inr (f, w))"

definition EventLoop_ctor :: "kernel \<Rightarrow> loop_id \<Rightarrow> 'z lworld_scheme \<Rightarrow> 'z lworld_scheme res" where
  "EventLoop_ctor K l w =
     bindE (newDefaultPoller K l w) (\<lambda>(p, w).
     bindE (createEventfd K w) (\<lambda>(f, w).
     let w = map_loop l (\<lambda>e. \<lparr>el_looping = False, el_quit = False, el_threadId = cur_tid w,
               el_pollReturnTime = Timestamp_default, el_poller = p, el_wakeupFd = f, el_activeChannels = [],
               el_callingPendingFunctors = False, el_pendingFunctors = [], el_functors = []\<rparr>) w;
         w = map_chan (WakeupChan l) (\<lambda>c. Channel_ctor l f) w
     in case loopInThread w (cur_tid w) of
       Some other \<Rightarrow> LOG_FATAL ''Another EventLoop %p exists in this thread %d \<newline>''
     | None \<Rightarrow>
         (let w = w\<lparr>loopInThread := (loopInThread w)(cur_tid w := Some l)\<rparr>;
              w = map_chan (WakeupChan l) (\<lambda>c. c\<lparr>ch_readCallback := Some (Bind_EventLoop_handleRead l)\<rparr>) w
          in enableReading K (WakeupChan l) w)))"

definition EventLoop_dtor :: "kernel \<Rightarrow> loop_id \<Rightarrow> 'z lworld_scheme \<Rightarrow> 'z lworld_scheme res" where
  "EventLoop_dtor K l w =
     bindE (disableAll K (WakeupChan l) w) (\<lambda>w.
     bindE (Channel_remove K (WakeupChan l) w) (\<lambda>w.
     let w = sys_close (el_wakeupFd (loops w l)) w;
         w = w\<lparr>loopInThread := (loopInThread w)(cur_tid w := None)\<rparr>
     in Inr (case el_poller (loops w l) of None \<Rightarrow> w | Some p \<Rightarrow> EPollPoller_dtor p w)))"

section \<open>Frames\<close>

text \<open>What an update or removal of a channel through its loop leaves unchanged.\<close>

lemma lworld_more:
  assumes "cworld.more w' = cworld.more w"
  shows "loops w' = loops w" "loopInThread w' = loopInThread w" "lworld.more w' = lworld.more w"
  using assms by (cases w; cases w'; simp)+

lemma map_chan_lworld [simp]:
  "loops (map_chan ch f w) = loops w" "loopInThread (map_chan ch f w) = loopInThread w"
  "lworld.more (map_chan ch f w) = lworld.more w"
  by (simp_all add: map_chan_def)

lemma LOG_lworld [simp]:
  "loops (LOG K lv fmt args w) = loops w" "loopInThread (LOG K lv fmt args w) = loopInThread w"
  "lworld.more (LOG K lv fmt args w) = lworld.more w"
  by (simp_all add: LOG_def)

lemma record_event_lworld [simp]:
  "loops (record_event e w) = loops w" "loopInThread (record_event e w) = loopInThread w"
  "lworld.more (record_event e w) = lworld.more w"
  by (simp_all add: record_event_def)

lemma map_loop_simps [simp]:
  "loops (map_loop l f w) l = f (loops w l)" "l' \<noteq> l \<Longrightarrow> loops (map_loop l f w) l' = loops w l'"
  "ktrace (map_loop l f w) = ktrace w" "chans (map_loop l f w) = chans w"
  "cur_tid (map_loop l f w) = cur_tid w" "loopInThread (map_loop l f w) = loopInThread w"
  "lworld.more (map_loop l f w) = lworld.more w" "logger_of (map_loop l f w) = logger_of w"
  by (simp_all add: map_loop_def)

definition channel_op :: "(Channel \<Rightarrow> Channel) \<Rightarrow> chan_id \<Rightarrow> 'z lworld_scheme \<Rightarrow> 'z lworld_scheme \<Rightarrow> bool" where
  "channel_op f ch w w' \<longleftrightarrow> (\<exists>tr. quiet tr \<and> ktrace w' = ktrace w @ tr)
     \<and> (\<exists>i. chans w' = (chans w)(ch := set_index i (f (chans w ch))))
     \<and> (\<exists>p. loops w' = (loops w)(ch_loop (chans w ch) := (loops w (ch_loop (chans w ch)))\<lparr>el_poller := p\<rparr>))
     \<and> loopInThread w' = loopInThread w \<and> cur_tid w' = cur_tid w \<and> lworld.more w' = lworld.more w"

lemma channel_opI:
  assumes "registers ch (map_chan ch f w) v" "w' = map_loop (ch_loop (chans w ch)) (\<lambda>e. e\<lparr>el_poller := p\<rparr>) v"
  shows "channel_op f ch w w'"
proof -
  have m: "cworld.more v = cworld.more w" using assms(1) by (simp add: registers_def)
  show ?thesis
    using assms lworld_more [OF m]
    by (auto simp: channel_op_def registers_def map_loop_def map_chan_def)
qed

lemma Channel_update_op:
  assumes "Channel_update K ch (map_chan ch f w) = Inr w'" "ch_loop (f (chans w ch)) = ch_loop (chans w ch)"
  shows "channel_op f ch w w'"
  using assms
  by (auto simp: Channel_update_def EventLoop_updateChannel_def split: option.splits
      dest!: updateChannel_registers intro!: channel_opI)

lemma map_chan_id [simp]: "map_chan ch id w = w" "map_chan ch (\<lambda>x. x) w = w"
  by (simp_all add: map_chan_def)

lemma Channel_remove_op:
  assumes "Channel_remove K ch w = Inr w'"
  shows "channel_op id ch w w'"
  using assms
  by (auto simp: Channel_remove_def EventLoop_removeChannel_def split: option.splits
      dest!: removeChannel_registers intro!: channel_opI)

lemma change_loop [simp]:
  "ch_loop (read_on c) = ch_loop c" "ch_loop (read_off c) = ch_loop c" "ch_loop (write_on c) = ch_loop c"
  "ch_loop (write_off c) = ch_loop c" "ch_loop (all_off c) = ch_loop c"
  by (simp_all add: read_on_def read_off_def write_on_def write_off_def all_off_def)

lemma channel_ops:
  "enableReading K ch w = Inr w' \<Longrightarrow> channel_op read_on ch w w'"
  "disableReading K ch w = Inr w' \<Longrightarrow> channel_op read_off ch w w'"
  "enablewriting K ch w = Inr w' \<Longrightarrow> channel_op write_on ch w w'"
  "disableWriting K ch w = Inr w' \<Longrightarrow> channel_op write_off ch w w'"
  "disableAll K ch w = Inr w' \<Longrightarrow> channel_op all_off ch w w'"
  by (auto simp: enableReading_def disableReading_def enablewriting_def disableWriting_def
      disableAll_def intro!: Channel_update_op)

lemma channel_opD:
  assumes "channel_op f ch w w'"
  shows "open_fds (ktrace w') = open_fds (ktrace w)" "written g (ktrace w') = written g (ktrace w)"
    "delivered g (ktrace w') = delivered g (ktrace w)" "cur_tid w' = cur_tid w"
    "lworld.more w' = lworld.more w" "ch' \<noteq> ch \<Longrightarrow> chans w' ch' = chans w ch'"
    "\<exists>i. chans w' ch = set_index i (f (chans w ch))" "loopInThread w' = loopInThread w"
  using assms by (auto simp: channel_op_def quiet_simps)

text \<open>
  What every operation that runs inside a loop does to a loop \<open>l\<close>: its queue only grows at the end,
  its quit flag is only set, and while its functors are being called a growth comes with a wakeup.
\<close>

definition wakes :: "loop_id \<Rightarrow> 'z lworld_scheme \<Rightarrow> ktrace \<Rightarrow> bool" where
  "wakes l w tr \<longleftrightarrow> (\<exists>r. EvWrite (el_wakeupFd (loops w l)) uint64_one r \<in> set tr)"

definition loop_frame :: "loop_id \<Rightarrow> 'z lworld_scheme \<Rightarrow> 'z lworld_scheme \<Rightarrow> bool" where
  "loop_frame l w w' \<longleftrightarrow>
     (\<exists>tr new. ktrace w' = ktrace w @ tr
        \<and> el_pendingFunctors (loops w' l) = el_pendingFunctors (loops w l) @ new
        \<and> (new \<noteq> [] \<and> (el_callingPendingFunctors (loops w l) \<or> \<not> isInLoopThread l w) \<longrightarrow> wakes l w tr))
   \<and> el_callingPendingFunctors (loops w' l) = el_callingPendingFunctors (loops w l)
   \<and> el_threadId (loops w' l) = el_threadId (loops w l) \<and> el_wakeupFd (loops w' l) = el_wakeupFd (loops w l)
   \<and> el_functors (loops w' l) = el_functors (loops w l) \<and> el_looping (loops w' l) = el_looping (loops w l)
   \<and> (el_quit (loops w l) \<longrightarrow> el_quit (loops w' l))
   \<and> cur_tid w' = cur_tid w \<and> loopInThread w' = loopInThread w"

lemma loop_frame_refl [simp]: "loop_frame l w w"
  by (auto simp: loop_frame_def)

lemma loop_frame_trans:
  assumes "loop_frame l u v" "loop_frame l v w"
  shows "loop_frame l u w"
proof -
  obtain tr1 n1 where 1: "ktrace v = ktrace u @ tr1"
    "el_pendingFunctors (loops v l) = el_pendingFunctors (loops u l) @ n1"
    "n1 \<noteq> [] \<and> (el_callingPendingFunctors (loops u l) \<or> \<not> isInLoopThread l u) \<longrightarrow> wakes l u tr1"
    using assms(1) by (auto simp: loop_frame_def)
  obtain tr2 n2 where 2: "ktrace w = ktrace v @ tr2"
    "el_pendingFunctors (loops w l) = el_pendingFunctors (loops v l) @ n2"
    "n2 \<noteq> [] \<and> (el_callingPendingFunctors (loops v l) \<or> \<not> isInLoopThread l v) \<longrightarrow> wakes l v tr2"
    using assms(2) by (auto simp: loop_frame_def)
  have "wakes l u (tr1 @ tr2)"
    if "n1 @ n2 \<noteq> []" "el_callingPendingFunctors (loops u l) \<or> \<not> isInLoopThread l u"
    using that 1(3) 2(3) assms(1) by (auto simp: loop_frame_def wakes_def isInLoopThread_def)
  with 1 2 have "\<exists>tr new. ktrace w = ktrace u @ tr
        \<and> el_pendingFunctors (loops w l) = el_pendingFunctors (loops u l) @ new
        \<and> (new \<noteq> [] \<and> (el_callingPendingFunctors (loops u l) \<or> \<not> isInLoopThread l u) \<longrightarrow> wakes l u tr)"
    by (intro exI [of _ "tr1 @ tr2"] exI [of _ "n1 @ n2"]) simp
  with assms show ?thesis unfolding loop_frame_def by simp
qed

named_theorems frames \<open>operations that keep \<open>loop_frame\<close>\<close>

lemma loop_frame_same:
  assumes "\<exists>tr. ktrace w' = ktrace w @ tr"
    and "\<exists>p. loops w' l = (loops w l)\<lparr>el_poller := p\<rparr>" "cur_tid w' = cur_tid w"
    and "loopInThread w' = loopInThread w"
  shows "loop_frame l w w'"
  using assms by (auto simp: loop_frame_def)

lemma el_poller_some [simp]: "\<exists>p. e = e\<lparr>el_poller := p\<rparr>" "\<exists>p. e\<lparr>el_poller := q\<rparr> = e\<lparr>el_poller := p\<rparr>"
  by (rule exI [of _ "el_poller e"], simp) blast

lemma loop_frame_LOG [simp, frames]: "loop_frame l w (LOG K lv fmt args w)"
  by (rule loop_frame_same) auto

lemma loop_frame_record [simp, frames]: "loop_frame l w (record_event e w)"
  by (rule loop_frame_same) auto

lemma loop_frame_chan [simp, frames]: "loop_frame l w (map_chan ch f w)"
  by (rule loop_frame_same) auto

lemma loop_frame_channel_op [frames]: "channel_op f ch w w' \<Longrightarrow> loop_frame l w w'"
  by (rule loop_frame_same) (auto simp: channel_op_def)

section \<open>Queueing, waking up, quitting\<close>

lemma wakeup_spec:
  "\<exists>r. ktrace (EventLoop_wakeup K l w) = ktrace w @ [EvWrite (el_wakeupFd (loops w l)) uint64_one r]"
  "loops (EventLoop_wakeup K l w) = loops w" "chans (EventLoop_wakeup K l w) = chans w"
  "cur_tid (EventLoop_wakeup K l w) = cur_tid w" "loopInThread (EventLoop_wakeup K l w) = loopInThread w"
  "lworld.more (EventLoop_wakeup K l w) = lworld.more w"
  by (auto simp: EventLoop_wakeup_def sys_write_def Let_def)

lemmas wakeup_simps [simp] = wakeup_spec(2-6)

lemma handleRead_spec [simp]:
  "loops (EventLoop_handleRead K l w) = loops w" "chans (EventLoop_handleRead K l w) = chans w"
  "cur_tid (EventLoop_handleRead K l w) = cur_tid w"
  "loopInThread (EventLoop_handleRead K l w) = loopInThread w"
  "lworld.more (EventLoop_handleRead K l w) = lworld.more w"
  by (auto simp: EventLoop_handleRead_def sys_read_def Let_def)

lemma handleRead_trace:
  "\<exists>r. ktrace (EventLoop_handleRead K l w) = ktrace w @ [EvRead (el_wakeupFd (loops w l)) 8 r]"
  by (auto simp: EventLoop_handleRead_def sys_read_def Let_def)

lemma queueInLoop_spec:
  shows "loops (queueInLoop K l cb w) = (loops w)(l := (loops w l)\<lparr>el_pendingFunctors :=
      el_pendingFunctors (loops w l) @ [cb]\<rparr>)"
    and "chans (queueInLoop K l cb w) = chans w" "cur_tid (queueInLoop K l cb w) = cur_tid w"
    and "loopInThread (queueInLoop K l cb w) = loopInThread w"
    and "lworld.more (queueInLoop K l cb w) = lworld.more w"
    and "if isInLoopThread l w \<and> \<not> el_callingPendingFunctors (loops w l)
         then ktrace (queueInLoop K l cb w) = ktrace w
         else \<exists>r. ktrace (queueInLoop K l cb w) = ktrace w @ [EvWrite (el_wakeupFd (loops w l)) uint64_one r]"
proof -
  let ?v = "map_loop l (\<lambda>e. e\<lparr>el_pendingFunctors := el_pendingFunctors e @ [cb]\<rparr>) w"
  have in_thread: "isInLoopThread l ?v = isInLoopThread l w" by (simp add: isInLoopThread_def)
  have loops: "loops ?v = (loops w)(l := (loops w l)\<lparr>el_pendingFunctors :=
      el_pendingFunctors (loops w l) @ [cb]\<rparr>)" by (simp add: map_loop_def)
  have q: "queueInLoop K l cb w = (if \<not> isInLoopThread l w \<or> el_callingPendingFunctors (loops w l)
      then EventLoop_wakeup K l ?v else ?v)"
    by (simp add: queueInLoop_def in_thread)
  show "loops (queueInLoop K l cb w) = (loops w)(l := (loops w l)\<lparr>el_pendingFunctors :=
      el_pendingFunctors (loops w l) @ [cb]\<rparr>)" by (simp add: q loops)
  show "if isInLoopThread l w \<and> \<not> el_callingPendingFunctors (loops w l)
      then ktrace (queueInLoop K l cb w) = ktrace w
      else \<exists>r. ktrace (queueInLoop K l cb w) = ktrace w @ [EvWrite (el_wakeupFd (loops w l)) uint64_one r]"
    using wakeup_spec(1) [of K l ?v] by (simp add: q)
qed (simp_all add: queueInLoop_def Let_def)

lemma loop_frame_wakeup [simp, frames]: "loop_frame l w (EventLoop_wakeup K l' w)"
  using wakeup_spec(1) [of K l' w] by (intro loop_frame_same) auto

lemma loop_frame_handleRead [simp, frames]: "loop_frame l w (EventLoop_handleRead K l' w)"
  using handleRead_trace [of K l' w] by (intro loop_frame_same) auto

lemma loop_frame_queue [simp, frames]: "loop_frame l w (queueInLoop K l' cb w)"
proof (cases "l' = l")
  case True
  show ?thesis
    using queueInLoop_spec [where K = K and l = l and w = w and cb = cb] unfolding True loop_frame_def wakes_def
    by (cases "isInLoopThread l w \<and> \<not> el_callingPendingFunctors (loops w l)") auto
next
  case False
  then have "loops (queueInLoop K l' cb w) l = loops w l" by (simp add: queueInLoop_spec(1))
  moreover have "\<exists>tr. ktrace (queueInLoop K l' cb w) = ktrace w @ tr"
    using queueInLoop_spec(6) [where K = K and l = l' and w = w and cb = cb] by (auto split: if_splits)
  ultimately show ?thesis by (intro loop_frame_same) (auto simp: queueInLoop_spec)
qed

lemma quit_spec:
  shows "loops (EventLoop_quit K l w) = (loops w)(l := (loops w l)\<lparr>el_quit := True\<rparr>)"
    and "chans (EventLoop_quit K l w) = chans w" "cur_tid (EventLoop_quit K l w) = cur_tid w"
    and "loopInThread (EventLoop_quit K l w) = loopInThread w"
    and "lworld.more (EventLoop_quit K l w) = lworld.more w"
    and "if isInLoopThread l w then ktrace (EventLoop_quit K l w) = ktrace w
         else \<exists>r. ktrace (EventLoop_quit K l w) = ktrace w @ [EvWrite (el_wakeupFd (loops w l)) uint64_one r]"
proof -
  let ?v = "map_loop l (\<lambda>e. e\<lparr>el_quit := True\<rparr>) w"
  have q: "EventLoop_quit K l w = (if \<not> isInLoopThread l w then EventLoop_wakeup K l ?v else ?v)"
    by (simp add: EventLoop_quit_def isInLoopThread_def)
  show "loops (EventLoop_quit K l w) = (loops w)(l := (loops w l)\<lparr>el_quit := True\<rparr>)"
    by (simp add: q) (simp add: map_loop_def)
  show "if isInLoopThread l w then ktrace (EventLoop_quit K l w) = ktrace w
      else \<exists>r. ktrace (EventLoop_quit K l w) = ktrace w @ [EvWrite (el_wakeupFd (loops w l)) uint64_one r]"
    using wakeup_spec(1) [of K l ?v] by (simp add: q)
qed (simp_all add: EventLoop_quit_def Let_def)

lemma loop_frame_quit [simp, frames]: "loop_frame l w (EventLoop_quit K l' w)"
proof -
  have "\<exists>tr. ktrace (EventLoop_quit K l' w) = ktrace w @ tr"
    using quit_spec(6) [where K = K and l = l' and w = w] by (auto split: if_splits)
  then show ?thesis by (auto simp: loop_frame_def quit_spec)
qed

section \<open>Channels of a loop\<close>

lemma poller_inv_loop [simp]: "poller_inv p (map_loop l f w) = poller_inv p w"
proof -
  have "expected_interest p (map_loop l f w) = expected_interest p w"
    by (rule ext) (simp add: expected_interest_def split: option.split)
  then show ?thesis by (simp add: poller_inv_def)
qed

lemma attachable_loop [simp]: "attachable ch p (map_loop l f w) = attachable ch p w"
  by (simp add: attachable_def)

lemma hasChannel_loop [simp]: "hasChannel ch p (map_loop l f w) = hasChannel ch p w"
  by (simp add: hasChannel_def)

text \<open>The loop of a channel has its own poller, which accepts the channel.\<close>

definition serves :: "loop_id \<Rightarrow> chan_id \<Rightarrow> Poller \<Rightarrow> 'z lworld_scheme \<Rightarrow> bool" where
  "serves l ch p w \<longleftrightarrow> el_poller (loops w l) = Some p \<and> pl_owner p = l \<and> poller_inv p w \<and> attachable ch p w"

lemma serves_loop: "serves l ch p w \<Longrightarrow> ch_loop (chans w ch) = l"
  by (simp add: serves_def attachable_def)

lemma Channel_update_total:
  assumes "serves l ch p w" "epoll_ctl_law K" "f (chans w ch) = set_events e (chans w ch)"
  shows "\<exists>p' w'. Channel_update K ch (map_chan ch f w) = Inr w' \<and> serves l ch p' w' \<and> hasChannel ch p' w'
    \<and> pl_epollfd p' = pl_epollfd p
    \<and> chans w' ch = set_index (if ch_index (chans w ch) = kAdded \<and> e = kNoneEvent then kDeleted else kAdded)
          (f (chans w ch))"
proof -
  have el: "el_poller (loops w l) = Some p" "pl_owner p = l" and inv: "poller_inv p w" and att: "attachable ch p w"
    using assms(1) by (auto simp: serves_def)
  have ch: "map_chan ch f w = map_chan ch (set_events e) w" using assms(3) by (simp add: map_chan_def)
  obtain p' w' where r: "EPollPoller_updateChannel K ch p (map_chan ch (set_events e) w) = Inr (p', w')"
    "poller_inv p' w'" "p' = p\<lparr>pl_channels := (pl_channels p)(ch_fd (chans w ch) \<mapsto> ch)\<rparr>"
    "chans w' ch = set_index (if ch_index (chans w ch) = kAdded \<and> e = kNoneEvent then kDeleted else kAdded)
          (set_events e (chans w ch))"
    using updateChannel_total [OF inv assms(2) att, of e] by blast
  have "open_fds (ktrace w') = open_fds (ktrace w)"
    using registersD(1) [OF updateChannel_registers [OF r(1)]] by simp
  then have "attachable ch p' w'" "hasChannel ch p' w'"
    using att r(3,4) by (auto simp: attachable_def hasChannel_def)
  with r el show ?thesis
    using assms(3) serves_loop [OF assms(1)]
    by (simp add: Channel_update_def EventLoop_updateChannel_def ch serves_def)
qed

lemma Channel_remove_total:
  assumes "serves l ch p w" "epoll_ctl_law K"
  shows "\<exists>p' w'. Channel_remove K ch w = Inr w' \<and> serves l ch p' w' \<and> \<not> hasChannel ch p' w'
    \<and> pl_epollfd p' = pl_epollfd p \<and> chans w' ch = set_index kNew (chans w ch)"
proof -
  have el: "el_poller (loops w l) = Some p" "pl_owner p = l" and inv: "poller_inv p w" and att: "attachable ch p w"
    using assms(1) by (auto simp: serves_def)
  then have "ch_loop (chans w ch) = pl_owner p"
    and "pl_channels p (ch_fd (chans w ch)) = None \<or> pl_channels p (ch_fd (chans w ch)) = Some ch"
    by (auto simp: attachable_def)
  from removeChannel_total [OF inv assms(2) this]
  obtain p' w' where r: "EPollPoller_removeChannel K ch p w = Inr (p', w')" "poller_inv p' w'"
    "p' = p\<lparr>pl_channels := (pl_channels p)(ch_fd (chans w ch) := None)\<rparr>"
    "chans w' ch = set_index kNew (chans w ch)" by blast
  have "open_fds (ktrace w') = open_fds (ktrace w)"
    using registersD(1) [OF removeChannel_registers [OF r(1)]] by simp
  then have "attachable ch p' w'" "\<not> hasChannel ch p' w'"
    using att r(3,4) by (auto simp: attachable_def hasChannel_def)
  with r el show ?thesis
    using serves_loop [OF assms(1)] by (simp add: Channel_remove_def EventLoop_removeChannel_def serves_def)
qed

lemma changes_events:
  "read_on c = set_events (ch_events c OR kReadEvent) c" "read_off c = set_events (ch_events c AND NOT kReadEvent) c"
  "write_on c = set_events (ch_events c OR kWriteEvent) c" "write_off c = set_events (ch_events c AND NOT kWriteEvent) c"
  "all_off c = set_events kNoneEvent c"
  by (simp_all add: read_on_def read_off_def write_on_def write_off_def all_off_def set_events_def)

lemmas enable_totals =
  Channel_update_total [where f = read_on, OF _ _ changes_events(1), folded enableReading_def]
  Channel_update_total [where f = read_off, OF _ _ changes_events(2), folded disableReading_def]
  Channel_update_total [where f = write_on, OF _ _ changes_events(3), folded enablewriting_def]
  Channel_update_total [where f = write_off, OF _ _ changes_events(4), folded disableWriting_def]
  Channel_update_total [where f = all_off, OF _ _ changes_events(5), folded disableAll_def]

section \<open>Life of a loop\<close>

text \<open>The world of a constructed loop just before its wakeup channel is enabled.\<close>

definition new_loop_world :: "loop_id \<Rightarrow> fd \<Rightarrow> fd \<Rightarrow> 'z lworld_scheme \<Rightarrow> 'z lworld_scheme" where
  "new_loop_world l ep f w =
     (let w = record_event (EvEventfd (Ok f)) (record_event (EvEpollCreate (Ok ep)) w);
          w = map_loop l (\<lambda>e. \<lparr>el_looping = False, el_quit = False, el_threadId = cur_tid w,
               el_pollReturnTime = Timestamp_default,
               el_poller = Some \<lparr>pl_channels = Map.empty, pl_owner = l, pl_epollfd = ep,
                   pl_events = replicate kInitEventListSize zero_event\<rparr>,
               el_wakeupFd = f, el_activeChannels = [], el_callingPendingFunctors = False,
               el_pendingFunctors = [], el_functors = []\<rparr>) w;
          w = map_chan (WakeupChan l) (\<lambda>c. Channel_ctor l f) w;
          w = w\<lparr>loopInThread := (loopInThread w)(cur_tid w := Some l)\<rparr>
      in map_chan (WakeupChan l) (\<lambda>c. c\<lparr>ch_readCallback := Some (Bind_EventLoop_handleRead l)\<rparr>) w)"

lemma loopInThread_update [simp]:
  "loops (w\<lparr>loopInThread := g\<rparr>) = loops w" "chans (w\<lparr>loopInThread := g\<rparr>) = chans w"
  "ktrace (w\<lparr>loopInThread := g\<rparr>) = ktrace w" "cur_tid (w\<lparr>loopInThread := g\<rparr>) = cur_tid w"
  by simp_all

lemma EventLoop_ctor_opens:
  assumes "\<not> k_getenv_poll K" "k_epoll_create K (ktrace w) = Ok ep"
    and "k_eventfd K (ktrace w @ [EvEpollCreate (Ok ep)]) = Ok f" "loopInThread w (cur_tid w) = None"
  shows "EventLoop_ctor K l w = enableReading K (WakeupChan l) (new_loop_world l ep f w)"
  using assms
  by (simp add: EventLoop_ctor_def newDefaultPoller_def EPollPoller_ctor_def sys_epoll_create_def
      createEventfd_def sys_eventfd_def new_loop_world_def Let_def)

lemma new_loop_world_fields:
  "ktrace (new_loop_world l ep f w) = ktrace w @ [EvEpollCreate (Ok ep), EvEventfd (Ok f)]"
  "cur_tid (new_loop_world l ep f w) = cur_tid w"
  "loopInThread (new_loop_world l ep f w) = (loopInThread w)(cur_tid w := Some l)"
  "chans (new_loop_world l ep f w) = (chans w)(WakeupChan l := (Channel_ctor l f)
      \<lparr>ch_readCallback := Some (Bind_EventLoop_handleRead l)\<rparr>)"
  "loops (new_loop_world l ep f w) = (loops w)(l := \<lparr>el_looping = False, el_quit = False,
      el_threadId = cur_tid w, el_pollReturnTime = Timestamp_default,
      el_poller = Some \<lparr>pl_channels = Map.empty, pl_owner = l, pl_epollfd = ep,
          pl_events = replicate kInitEventListSize zero_event\<rparr>,
      el_wakeupFd = f, el_activeChannels = [], el_callingPendingFunctors = False,
      el_pendingFunctors = [], el_functors = []\<rparr>)"
  "lworld.more (new_loop_world l ep f w) = lworld.more w"
  by (simp_all add: new_loop_world_def Let_def map_chan_def map_loop_def)

lemma new_loop_serves:
  assumes "\<forall>ch. ch_loop (chans w ch) = l \<longrightarrow> ch_index (chans w ch) = kNew"
  shows "serves l (WakeupChan l) \<lparr>pl_channels = Map.empty, pl_owner = l, pl_epollfd = ep,
          pl_events = replicate kInitEventListSize zero_event\<rparr> (new_loop_world l ep f w)"
proof -
  have int: "interest ep (ktrace (new_loop_world l ep f w)) = Map.empty"
    by (simp add: new_loop_world_fields interest_def)
  have opn: "f \<in> open_fds (ktrace (new_loop_world l ep f w))"
    by (simp add: new_loop_world_fields open_fds_def)
  have none: "ch_index (chans (new_loop_world l ep f w) ch) = kNew"
    if "ch_loop (chans (new_loop_world l ep f w) ch) = l" for ch
    using that assms by (cases "ch = WakeupChan l") (simp_all add: new_loop_world_fields Channel_ctor_def index_defs)
  have "poller_inv \<lparr>pl_channels = Map.empty, pl_owner = l, pl_epollfd = ep,
          pl_events = replicate kInitEventListSize zero_event\<rparr> (new_loop_world l ep f w)"
    unfolding poller_inv_def using none int by (simp add: expected_interest_def fun_eq_iff kInitEventListSize_def)
  moreover have "ch_fd (chans (new_loop_world l ep f w) (WakeupChan l)) = f"
    "ch_loop (chans (new_loop_world l ep f w) (WakeupChan l)) = l"
    by (simp_all add: new_loop_world_fields Channel_ctor_def)
  ultimately show ?thesis
    using opn by (simp add: serves_def attachable_def) (simp add: new_loop_world_fields)
qed

lemma EventLoop_ctor_total:
  assumes "epoll_ctl_law K" "\<not> k_getenv_poll K" "k_epoll_create K (ktrace w) = Ok ep"
    and "k_eventfd K (ktrace w @ [EvEpollCreate (Ok ep)]) = Ok f" "loopInThread w (cur_tid w) = None"
    and "\<forall>ch. ch_loop (chans w ch) = l \<longrightarrow> ch_index (chans w ch) = kNew"
  shows "\<exists>p w'. EventLoop_ctor K l w = Inr w' \<and> serves l (WakeupChan l) p w'
    \<and> hasChannel (WakeupChan l) p w' \<and> pl_epollfd p = ep
    \<and> chans w' (WakeupChan l) = set_index kAdded (read_on ((Channel_ctor l f)
        \<lparr>ch_readCallback := Some (Bind_EventLoop_handleRead l)\<rparr>))
    \<and> channel_op read_on (WakeupChan l) (new_loop_world l ep f w) w'"
proof -
  from enable_totals(1) [OF new_loop_serves [OF assms(6), of ep f] assms(1)]
  obtain p w' where r: "enableReading K (WakeupChan l) (new_loop_world l ep f w) = Inr w'"
    "serves l (WakeupChan l) p w'" "hasChannel (WakeupChan l) p w'" "pl_epollfd p = ep"
    "chans w' (WakeupChan l) = set_index kAdded (read_on (chans (new_loop_world l ep f w) (WakeupChan l)))"
    by (auto simp: new_loop_world_fields Channel_ctor_def index_defs)
  with EventLoop_ctor_opens [OF assms(2-5), of l] channel_ops(1) [OF r(1)] show ?thesis
    by (auto simp: new_loop_world_fields)
qed

lemma serves_interest:
  assumes "serves l ch p w" "hasChannel ch p w" "ch_index (chans w ch) = kAdded"
  shows "interest (pl_epollfd p) (ktrace w) (ch_fd (chans w ch)) =
    Some \<lparr>ev_events = ch_events (chans w ch), ev_ptr = Some ch\<rparr>"
proof -
  have "interest (pl_epollfd p) (ktrace w) = expected_interest p w"
    using assms(1) by (simp add: serves_def poller_inv_def)
  moreover have "pl_channels p (ch_fd (chans w ch)) = Some ch"
    using assms(2) by (simp add: hasChannel_def split: option.splits)
  ultimately show ?thesis using assms(3) by (simp add: expected_interest_def)
qed

lemma EventLoop_dtor_total:
  assumes sv: "serves l (WakeupChan l) p w" and law: "epoll_ctl_law K"
    and fd: "ch_fd (chans w (WakeupChan l)) = el_wakeupFd (loops w l)"
  shows "\<exists>w'. EventLoop_dtor K l w = Inr w'
    \<and> open_fds (ktrace w') = open_fds (ktrace w) - {el_wakeupFd (loops w l), pl_epollfd p}
    \<and> loopInThread w' = (loopInThread w)(cur_tid w := None) \<and> cur_tid w' = cur_tid w
    \<and> ch_index (chans w' (WakeupChan l)) = kNew"
proof -
  obtain p1 w1 where 1: "disableAll K (WakeupChan l) w = Inr w1" "serves l (WakeupChan l) p1 w1"
    "pl_epollfd p1 = pl_epollfd p"
    using enable_totals(5) [OF sv law] by blast
  obtain p2 w2 where 2: "Channel_remove K (WakeupChan l) w1 = Inr w2" "serves l (WakeupChan l) p2 w2"
    "pl_epollfd p2 = pl_epollfd p1" "chans w2 (WakeupChan l) = set_index kNew (chans w1 (WakeupChan l))"
    using Channel_remove_total [OF 1(2) law] by blast
  note op1 = channel_ops(5) [OF 1(1)] and op2 = Channel_remove_op [OF 2(1)]
  have wf: "el_wakeupFd (loops w2 l) = el_wakeupFd (loops w l)"
    using loop_frame_trans [OF loop_frame_channel_op [OF op1] loop_frame_channel_op [OF op2], of l]
    by (simp add: loop_frame_def)
  have "el_poller (loops w2 l) = Some p2" using 2(2) by (simp add: serves_def)
  then have d: "EventLoop_dtor K l w = Inr (EPollPoller_dtor p2
      (sys_close (el_wakeupFd (loops w2 l)) w2\<lparr>loopInThread := (loopInThread w2)(cur_tid w2 := None)\<rparr>))"
    by (simp add: EventLoop_dtor_def 1(1) 2(1) sys_close_def)
  show ?thesis
    unfolding d EPollPoller_dtor_def sys_close_def
    using 1(3) 2(3,4) wf channel_opD(1,4,8) [OF op1] channel_opD(1,4,8) [OF op2]
    by (auto simp: open_fds_append)
qed

section \<open>Properties: construction and destruction\<close>

text \<open>
  Constructing a loop in a thread that has none opens an epoll instance and an eventfd and leaves
  a loop whose poller, channel map and kernel interest list agree: the wakeup channel is watched for
  reading, the loop belongs to the running thread, its queue is empty and it is not asked to quit.
\<close>

theorem EventLoop_ctor_correct:
  assumes "epoll_ctl_law K" "\<not> k_getenv_poll K" "k_epoll_create K (ktrace w) = Ok ep"
    and "k_eventfd K (ktrace w @ [EvEpollCreate (Ok ep)]) = Ok f" "loopInThread w (cur_tid w) = None"
    and "\<forall>ch. ch_loop (chans w ch) = l \<longrightarrow> ch_index (chans w ch) = kNew"
  shows "\<exists>p w'. EventLoop_ctor K l w = Inr w' \<and> el_poller (loops w' l) = Some p \<and> poller_inv p w'
    \<and> interest ep (ktrace w') = [f \<mapsto> \<lparr>ev_events = kReadEvent, ev_ptr = Some (WakeupChan l)\<rparr>]
    \<and> ch_readCallback (chans w' (WakeupChan l)) = Some (Bind_EventLoop_handleRead l)
    \<and> open_fds (ktrace w') = insert f (insert ep (open_fds (ktrace w)))
    \<and> loopInThread w' = (loopInThread w)(cur_tid w \<mapsto> l) \<and> isInLoopThread l w'
    \<and> el_pendingFunctors (loops w' l) = [] \<and> \<not> el_quit (loops w' l)"
proof -
  obtain p w' where r: "EventLoop_ctor K l w = Inr w'" "serves l (WakeupChan l) p w'"
    "hasChannel (WakeupChan l) p w'" "pl_epollfd p = ep"
    and ch: "chans w' (WakeupChan l) = set_index kAdded (read_on ((Channel_ctor l f)
        \<lparr>ch_readCallback := Some (Bind_EventLoop_handleRead l)\<rparr>))"
    and op: "channel_op read_on (WakeupChan l) (new_loop_world l ep f w) w'"
    using EventLoop_ctor_total [OF assms] by blast
  have el: "el_poller (loops w' l) = Some p" "poller_inv p w'" using r(2) by (auto simp: serves_def)
  have chf: "ch_fd (chans w' (WakeupChan l)) = f" "ch_index (chans w' (WakeupChan l)) = kAdded"
    "ch_events (chans w' (WakeupChan l)) = kReadEvent"
    "ch_readCallback (chans w' (WakeupChan l)) = Some (Bind_EventLoop_handleRead l)"
    unfolding ch by (simp_all add: Channel_ctor_def set_index_def read_on_def)
  have one: "interest ep (ktrace w') g = None" if "g \<noteq> f" for g
  proof -
    have "pl_channels p g = None"
    proof (rule ccontr)
      assume "pl_channels p g \<noteq> None"
      then obtain c where "pl_channels p g = Some c" by blast
      note slot = poller_inv_slot [OF el(2) this]
      then have "c \<noteq> WakeupChan l" using that chf(1) by auto
      then have "chans w' c = chans w c"
        using channel_opD(6) [OF op] by (simp add: new_loop_world_fields)
      with slot r(2) assms(6) show False by (auto simp: serves_def index_defs)
    qed
    moreover have "interest ep (ktrace w') = expected_interest p w'"
      using el(2) r(4) by (simp add: poller_inv_def)
    ultimately show ?thesis by (simp add: expected_interest_def)
  qed
  have int: "interest ep (ktrace w') = [f \<mapsto> \<lparr>ev_events = kReadEvent, ev_ptr = Some (WakeupChan l)\<rparr>]"
  proof
    fix g show "interest ep (ktrace w') g = [f \<mapsto> \<lparr>ev_events = kReadEvent, ev_ptr = Some (WakeupChan l)\<rparr>] g"
      using one [of g] serves_interest [OF r(2,3) chf(2)] r(4) chf by (cases "g = f") auto
  qed
  have opn: "open_fds (ktrace w') = insert f (insert ep (open_fds (ktrace w)))"
    using channel_opD(1) [OF op] by (simp add: new_loop_world_fields open_fds_def)
  obtain q where "loops w' l = (loops (new_loop_world l ep f w) l)\<lparr>el_poller := q\<rparr>"
    using op by (auto simp: channel_op_def new_loop_world_fields Channel_ctor_def)
  then have "isInLoopThread l w'" "el_pendingFunctors (loops w' l) = []" "\<not> el_quit (loops w' l)"
    using channel_opD(4) [OF op] by (simp_all add: new_loop_world_fields isInLoopThread_def)
  with r(1) el chf(4) int opn channel_opD(8) [OF op] show ?thesis by (auto simp: new_loop_world_fields)
qed

text \<open>A process at its start.\<close>

definition start_world :: lworld where
  "start_world = \<lparr>ktrace = [], logger_of = Logger_initial, cur_tid = 1, chans = (\<lambda>ch. Channel_ctor 0 0),
     loops = (\<lambda>l. \<lparr>el_looping = False, el_quit = False, el_threadId = 0, el_pollReturnTime = Timestamp_default,
       el_poller = None, el_wakeupFd = 0, el_activeChannels = [], el_callingPendingFunctors = False,
       el_pendingFunctors = [], el_functors = []\<rparr>),
     loopInThread = Map.empty\<rparr>"

lemma start_world_facts [simp]:
  "ktrace start_world = []" "cur_tid start_world = 1" "loopInThread start_world = Map.empty"
  "ch_index (chans start_world ch) = kNew"
  by (simp_all add: start_world_def Channel_ctor_def index_defs)

lemma plain_kernel_opens [simp]:
  "\<not> k_getenv_poll (plain_kernel cap input)" "k_epoll_create (plain_kernel cap input) [] = Ok 3"
  "k_eventfd (plain_kernel cap input) [EvEpollCreate (Ok 3)] = Ok 4"
  by (simp_all add: plain_kernel_def fresh_fd_def)

theorem EventLoop_ctor_correct_witness:
  "\<exists>w'. EventLoop_ctor (plain_kernel 4 []) 0 start_world = Inr w'
    \<and> interest 3 (ktrace w') = [4 \<mapsto> \<lparr>ev_events = kReadEvent, ev_ptr = Some (WakeupChan 0)\<rparr>]
    \<and> loopInThread w' = [1 \<mapsto> 0]"
  using EventLoop_ctor_correct [of "plain_kernel 4 []" start_world 3 4 0] by auto

text \<open>
  C25: destroying a loop that has just been constructed closes exactly the two descriptors it had opened
  and frees its thread for another loop.
\<close>

theorem EventLoop_lifecycle:
  assumes "epoll_ctl_law K" "fresh_law K" "\<not> k_getenv_poll K" "k_epoll_create K (ktrace w) = Ok ep"
    and "k_eventfd K (ktrace w @ [EvEpollCreate (Ok ep)]) = Ok f" "loopInThread w (cur_tid w) = None"
    and "\<forall>ch. ch_loop (chans w ch) = l \<longrightarrow> ch_index (chans w ch) = kNew"
  shows "\<exists>w' w''. EventLoop_ctor K l w = Inr w' \<and> EventLoop_dtor K l w' = Inr w''
    \<and> open_fds (ktrace w'') = open_fds (ktrace w) \<and> loopInThread w'' = loopInThread w
    \<and> ch_index (chans w'' (WakeupChan l)) = kNew"
proof -
  obtain p w' where r: "EventLoop_ctor K l w = Inr w'" "serves l (WakeupChan l) p w'" "pl_epollfd p = ep"
    and ch: "chans w' (WakeupChan l) = set_index kAdded (read_on ((Channel_ctor l f)
        \<lparr>ch_readCallback := Some (Bind_EventLoop_handleRead l)\<rparr>))"
    and op: "channel_op read_on (WakeupChan l) (new_loop_world l ep f w) w'"
    using EventLoop_ctor_total [OF assms(1,3-7)] by blast
  have wf: "el_wakeupFd (loops w' l) = f"
    using loop_frame_channel_op [OF op, of l] by (simp add: loop_frame_def new_loop_world_fields)
  have "ch_fd (chans w' (WakeupChan l)) = el_wakeupFd (loops w' l)"
    unfolding ch wf by (simp add: Channel_ctor_def set_index_def read_on_def)
  from EventLoop_dtor_total [OF r(2) assms(1) this]
  obtain w'' where d: "EventLoop_dtor K l w' = Inr w''"
    "open_fds (ktrace w'') = open_fds (ktrace w') - {f, ep}"
    "loopInThread w'' = (loopInThread w')(cur_tid w' := None)" "ch_index (chans w'' (WakeupChan l)) = kNew"
    using wf r(3) by auto
  have "ep \<notin> open_fds (ktrace w)" "f \<notin> insert ep (open_fds (ktrace w))"
    using assms(2,4,5) unfolding fresh_law_def by fastforce+
  moreover have "open_fds (ktrace w') = insert f (insert ep (open_fds (ktrace w)))"
    using channel_opD(1) [OF op] by (simp add: new_loop_world_fields open_fds_def)
  ultimately have "open_fds (ktrace w'') = open_fds (ktrace w)" using d(2) by auto
  moreover have "loopInThread w'' = loopInThread w"
    using d(3) channel_opD(4,8) [OF op] assms(6) by (auto simp: new_loop_world_fields)
  ultimately show ?thesis using r(1) d(1,4) by blast
qed

theorem EventLoop_lifecycle_witness:
  "\<exists>w' w''. EventLoop_ctor (plain_kernel 4 []) 0 start_world = Inr w'
    \<and> EventLoop_dtor (plain_kernel 4 []) 0 w' = Inr w'' \<and> open_fds (ktrace w'') = {}"
  using EventLoop_lifecycle [of "plain_kernel 4 []" start_world 3 4 0] by auto

section \<open>Running the queue\<close>

text \<open>
  The interface of whoever supplies the functors and the destruction of a finished batch: a functor
  keeps \<open>loop_frame\<close> of every loop, if the code it comes from is \<open>lawful\<close>; the destruction leaves the
  loops alone.
\<close>

locale functor_runner =
  fixes run :: "Functor \<Rightarrow> 'z lworld_scheme \<Rightarrow> 'z lworld_scheme res"
    and release :: "Functor list \<Rightarrow> 'z lworld_scheme \<Rightarrow> 'z lworld_scheme res"
    and lawful :: bool
  assumes run_frame: "lawful \<Longrightarrow> run f w = Inr w' \<Longrightarrow> loop_frame l w w'"
    and release_loops: "release fs w = Inr w' \<Longrightarrow> loops w' = loops w"
    and release_trace: "release fs w = Inr w' \<Longrightarrow> \<exists>tr. ktrace w' = ktrace w @ tr"
    and release_tid: "release fs w = Inr w' \<Longrightarrow> cur_tid w' = cur_tid w"
begin

lemma batch_frame: "lawful \<Longrightarrow> foldE run fs w = Inr w' \<Longrightarrow> loop_frame l w w'"
  by (rule foldE_rel [where R = "loop_frame l"]) (auto intro: loop_frame_trans run_frame)

lemma batch_result:
  assumes lawful "doPendingFunctors run release l w = Inr w'"
  shows "\<exists>v. foldE run (el_pendingFunctors (loops w l)) (take_batch l w) = Inr v
    \<and> (\<exists>tr. ktrace w' = ktrace w @ tr \<and> (el_pendingFunctors (loops w' l) \<noteq> [] \<longrightarrow> wakes l w tr))
    \<and> el_pendingFunctors (loops w' l) = el_pendingFunctors (loops v l)
    \<and> \<not> el_callingPendingFunctors (loops w' l) \<and> el_functors (loops w' l) = []
    \<and> (el_quit (loops v l) \<longrightarrow> el_quit (loops w' l))
    \<and> el_wakeupFd (loops w' l) = el_wakeupFd (loops w l) \<and> cur_tid w' = cur_tid w"
proof -
  let ?u = "take_batch l w"
  obtain v where v: "foldE run (el_pendingFunctors (loops w l)) ?u = Inr v"
    and w': "release (el_pendingFunctors (loops w l)) (end_batch l v) = Inr w'"
    using assms(2) by (auto simp: doPendingFunctors_def Let_def take_batch_def)
  obtain tr new where fr: "ktrace v = ktrace ?u @ tr"
    "el_pendingFunctors (loops v l) = el_pendingFunctors (loops ?u l) @ new"
    "new \<noteq> [] \<and> (el_callingPendingFunctors (loops ?u l) \<or> \<not> isInLoopThread l ?u) \<longrightarrow> wakes l ?u tr"
    using batch_frame [OF assms(1) v, of l] by (auto simp: loop_frame_def)
  obtain tr' where tr': "ktrace w' = ktrace (end_batch l v) @ tr'" using release_trace [OF w'] by blast
  have wf: "el_wakeupFd (loops v l) = el_wakeupFd (loops w l)" "cur_tid v = cur_tid w"
    using batch_frame [OF assms(1) v, of l] by (auto simp: loop_frame_def take_batch_def)
  have "ktrace w' = ktrace w @ tr @ tr'" using fr(1) tr' by (simp add: take_batch_def end_batch_def)
  moreover have "new \<noteq> [] \<longrightarrow> wakes l w (tr @ tr')"
    using fr(3) by (auto simp: wakes_def take_batch_def)
  ultimately show ?thesis
    using v wf fr(2) release_loops [OF w'] release_tid [OF w'] by (auto simp: end_batch_def take_batch_def)
qed

text \<open>A quit by one of the functors is still there at the end of the batch.\<close>

lemma quit_in_batch:
  assumes lawful "foldE run fs w = Inr w'" "f \<in> set fs"
    and "\<And>u v. run f u = Inr v \<Longrightarrow> el_quit (loops v l)"
  shows "el_quit (loops w' l)"
proof -
  obtain a b where "fs = a @ f # b" using assms(3) by (meson split_list)
  with assms(2) obtain u v where "run f u = Inr v" "foldE run b v = Inr w'"
    by (auto simp: foldE_append)
  then show ?thesis using assms(1,4) batch_frame [of b v w' l] by (auto simp: loop_frame_def)
qed

end

section \<open>The loop ends\<close>

text \<open>\<open>n\<close> passes through the body.\<close>

fun passes :: "('w \<Rightarrow> 'w res) \<Rightarrow> nat \<Rightarrow> 'w \<Rightarrow> 'w res" where
  "passes body 0 w = Inr w"
| "passes body (Suc n) w = bindE (body w) (passes body n)"

lemma loop_while_quit: "quit w \<Longrightarrow> loop_while body quit w = Some (Inr w)"
  by (subst loop_while.simps) simp

lemma loop_while_step:
  "\<not> quit w \<Longrightarrow> loop_while body quit w =
    (case body w of Inl e \<Rightarrow> Some (Inl e) | Inr w' \<Rightarrow> loop_while body quit w')"
  by (subst loop_while.simps) simp

lemma loop_while_returns:
  assumes "passes body n w = Inr v" "quit v"
    and "\<And>m u. m < n \<Longrightarrow> passes body m w = Inr u \<Longrightarrow> \<not> quit u"
  shows "loop_while body quit w = Some (Inr v)"
  using assms
proof (induction n arbitrary: w)
  case 0
  then show ?case by (simp add: loop_while_quit)
next
  case (Suc n)
  then obtain x where x: "body w = Inr x" "passes body n x = Inr v" by auto
  have "\<not> quit w" using Suc.prems(3) [of 0 w] by simp
  moreover have "loop_while body quit x = Some (Inr v)"
  proof (rule Suc.IH [OF x(2) Suc.prems(2)])
    fix m u assume "m < n" "passes body m x = Inr u"
    then show "\<not> quit u" using Suc.prems(3) [of "Suc m" u] x(1) by simp
  qed
  ultimately show ?case by (simp add: loop_while_step x(1))
qed

lemma loop_while_returned:
  assumes "loop_while body quit w = Some r"
  shows "\<exists>n. passes body n w = r \<and> (\<forall>v. r = Inr v \<longrightarrow> quit v)
    \<and> (\<forall>m < n. \<exists>u. passes body m w = Inr u \<and> \<not> quit u)"
proof (rule loop_while.raw_induct [where P = "\<lambda>body quit w r. \<exists>n. passes body n w = r
    \<and> (\<forall>v. r = Inr v \<longrightarrow> quit v) \<and> (\<forall>m < n. \<exists>u. passes body m w = Inr u \<and> \<not> quit u)", OF _ assms])
  fix rec :: "('a \<Rightarrow> 'a res) \<Rightarrow> ('a \<Rightarrow> bool) \<Rightarrow> 'a \<Rightarrow> 'a res option"
    and body quit and w :: 'a and r
  assume IH: "\<And>body quit w r. rec body quit w = Some r \<Longrightarrow> \<exists>n. passes body n w = r
      \<and> (\<forall>v. r = Inr v \<longrightarrow> quit v) \<and> (\<forall>m < n. \<exists>u. passes body m w = Inr u \<and> \<not> quit u)"
    and rec: "(if quit w then Some (Inr w)
      else (case body w of Inl e \<Rightarrow> Some (Inl e) | Inr w' \<Rightarrow> rec body quit w')) = Some r"
  show "\<exists>n. passes body n w = r
      \<and> (\<forall>v. r = Inr v \<longrightarrow> quit v) \<and> (\<forall>m < n. \<exists>u. passes body m w = Inr u \<and> \<not> quit u)"
  proof (cases "quit w")
    case True
    then have "passes body 0 w = r" "\<forall>v. r = Inr v \<longrightarrow> quit v" using rec by auto
    then show ?thesis by blast
  next
    case False
    show ?thesis
    proof (cases "body w")
      case (Inl e)
      with False rec show ?thesis by (intro exI [of _ 1]) auto
    next
      case (Inr x)
      with False rec have "rec body quit x = Some r" by simp
      from IH [OF this] obtain n where n: "passes body n x = r" "\<forall>v. r = Inr v \<longrightarrow> quit v"
        "\<forall>m < n. \<exists>u. passes body m x = Inr u \<and> \<not> quit u" by blast
      have "\<exists>u. passes body m w = Inr u \<and> \<not> quit u" if "m < Suc n" for m
        using that n(3) Inr False by (cases m) auto
      with n(1,2) Inr show ?thesis by (intro exI [of _ "Suc n"]) auto
    qed
  qed
qed

definition loop_entry :: "kernel \<Rightarrow> loop_id \<Rightarrow> 'z lworld_scheme \<Rightarrow> 'z lworld_scheme" where
  "loop_entry K l w = LOG K INFO ''EventLoop %p start looping \<newline>'' [AInt (int l)]
     (map_loop l (\<lambda>e. e\<lparr>el_looping := True, el_quit := False\<rparr>) w)"

definition loop_exit :: "kernel \<Rightarrow> loop_id \<Rightarrow> 'z lworld_scheme \<Rightarrow> 'z lworld_scheme" where
  "loop_exit K l w = map_loop l (\<lambda>e. e\<lparr>el_looping := False\<rparr>)
     (LOG K INFO ''EventLoop %p stop looping. \<newline>'' [AInt (int l)] w)"

lemma EventLoop_loop_alt:
  "EventLoop_loop K alive run_cb run release l w = map_option (\<lambda>r. bindE r (\<lambda>w. Inr (loop_exit K l w)))
     (loop_while (loop_body K alive run_cb run release l) (\<lambda>w. el_quit (loops w l)) (loop_entry K l w))"
  by (simp add: EventLoop_loop_def loop_entry_def loop_exit_def)

text \<open>
  C24: \<open>loop\<close> returns after exactly the first pass at whose end the quit flag is set: it returns with a
  world if and only if some number of passes, at least one, ends with the flag set and no earlier one
  does; then it is not looping any more.  In particular a quit from before the call is forgotten.
\<close>

theorem EventLoop_loop_returns:
  "EventLoop_loop K alive run_cb run release l w = Some (Inr w') \<longleftrightarrow>
    (\<exists>n v. 0 < n \<and> passes (loop_body K alive run_cb run release l) n (loop_entry K l w) = Inr v
      \<and> el_quit (loops v l) \<and> w' = loop_exit K l v
      \<and> (\<forall>m < n. \<exists>u. passes (loop_body K alive run_cb run release l) m (loop_entry K l w) = Inr u
            \<and> \<not> el_quit (loops u l)))" (is "?L \<longleftrightarrow> ?R")
proof
  assume ?L
  then obtain v where v: "loop_while (loop_body K alive run_cb run release l) (\<lambda>w. el_quit (loops w l)) (loop_entry K l w) = Some (Inr v)"
    "w' = loop_exit K l v" by (auto simp: EventLoop_loop_alt)
  from loop_while_returned [OF v(1)] obtain n where n:
    "passes (loop_body K alive run_cb run release l) n (loop_entry K l w) = Inr v" "el_quit (loops v l)"
    "\<forall>m < n. \<exists>u. passes (loop_body K alive run_cb run release l) m (loop_entry K l w) = Inr u
        \<and> \<not> el_quit (loops u l)" by auto
  have "n \<noteq> 0" using n(1,2) by (cases n) (auto simp: loop_entry_def)
  with n v(2) show ?R by blast
next
  assume ?R
  then obtain n v where n: "passes (loop_body K alive run_cb run release l) n (loop_entry K l w) = Inr v"
    "el_quit (loops v l)" "w' = loop_exit K l v"
    "\<forall>m < n. \<exists>u. passes (loop_body K alive run_cb run release l) m (loop_entry K l w) = Inr u
        \<and> \<not> el_quit (loops u l)" by blast
  from loop_while_returns [where quit = "\<lambda>w. el_quit (loops w l)", OF n(1,2)] n(4) show ?L by (fastforce simp: EventLoop_loop_alt n(3))
qed

text \<open>A loop with one queued functor; the functor runner of the example asks its loop to quit.\<close>

definition quitting_world :: lworld where
  "quitting_world = map_loop 0 (\<lambda>e. e\<lparr>el_poller := Some \<lparr>pl_channels = Map.empty, pl_owner = 0, pl_epollfd = 3,
       pl_events = replicate kInitEventListSize zero_event\<rparr>,
     el_pendingFunctors := [User_functor 1]\<rparr>) start_world"

definition quitting_body :: "lworld \<Rightarrow> lworld res" where
  "quitting_body = loop_body (plain_kernel 4 []) (\<lambda>c w. True) (\<lambda>cb t w. Inr w)
     (\<lambda>f w. Inr (EventLoop_quit (plain_kernel 4 []) 0 w)) (\<lambda>fs w. Inr w) 0"

lemma poll_nothing:
  assumes "k_epoll_wait K (ktrace w) (pl_epollfd p) (length (pl_events p)) t = Ok []"
  shows "\<exists>now v. EPollPoller_poll K t p w = Inr (now, [], p, v) \<and> reports w v"
  using assms poll_reports [of K t p w] by (simp add: EPollPoller_poll_def sys_epoll_wait_def Let_def)

lemma quitting_body_quits:
  "\<exists>v. quitting_body (loop_entry (plain_kernel 4 []) 0 quitting_world) = Inr v \<and> el_quit (loops v 0)"
proof -
  let ?K = "plain_kernel 4 []"
  let ?w = "map_loop 0 (\<lambda>e. e\<lparr>el_activeChannels := []\<rparr>) (loop_entry ?K 0 quitting_world)"
  have p: "el_poller (loops ?w 0) = Some \<lparr>pl_channels = Map.empty, pl_owner = 0, pl_epollfd = 3,
      pl_events = replicate kInitEventListSize zero_event\<rparr>" (is "_ = Some ?p")
    and f: "el_pendingFunctors (loops ?w 0) = [User_functor 1]"
    by (simp_all add: loop_entry_def quitting_world_def)
  obtain now v where v: "EPollPoller_poll ?K kPollTimeMs ?p ?w = Inr (now, [], ?p, v)" "reports ?w v"
    using poll_nothing [of ?K ?w ?p kPollTimeMs] by (auto simp: plain_kernel_def)
  have "loops v = loops ?w" using v(2) lworld_more(1) [of v ?w] by (simp add: reports_def)
  with f have "el_pendingFunctors (loops v 0) = [User_functor 1]" by simp
  with v(1) p show ?thesis
    by (simp add: quitting_body_def loop_body_def doPendingFunctors_def take_batch_def end_batch_def quit_spec(1) Let_def)
qed

theorem EventLoop_loop_returns_witness:
  "\<exists>w'. EventLoop_loop (plain_kernel 4 []) (\<lambda>c w. True) (\<lambda>cb t w. Inr w)
     (\<lambda>f w. Inr (EventLoop_quit (plain_kernel 4 []) 0 w)) (\<lambda>fs w. Inr w) 0 quitting_world = Some (Inr w')"
proof -
  obtain v where v: "quitting_body (loop_entry (plain_kernel 4 []) 0 quitting_world) = Inr v" "el_quit (loops v 0)"
    using quitting_body_quits by blast
  have "\<not> el_quit (loops (loop_entry (plain_kernel 4 []) 0 quitting_world) 0)" by (simp add: loop_entry_def)
  with v show ?thesis
    unfolding EventLoop_loop_returns quitting_body_def [symmetric] by (intro exI [of _ "loop_exit _ 0 v"] exI [of _ 1] exI [of _ v]) simp
qed


end
