(* ===== verification/Acceptor.thy ===== *)
theory Acceptor
  imports EventLoop
begin

text \<open>
  \<^verbatim>\<open>Socket.h\<close>, \<^verbatim>\<open>Socket.cc\<close>, \<^verbatim>\<open>Acceptor.h\<close>, \<^verbatim>\<open>Acceptor.cc\<close>: the owner of a descriptor and the
  listening socket.  A \<open>Socket\<close> object is its descriptor.  What the new-connection callback does is a
  parameter of \<open>Acceptor_handleRead\<close>.
\<close>

section \<open>Socket\<close>

type_synonym Socket = fd

definition Socket_dtor :: "Socket \<Rightarrow> 'z kworld_scheme \<Rightarrow> 'z kworld_scheme" where
  "Socket_dtor s w = sys_close s w"

definition Socket_bindAddress :: "kernel \<Rightarrow> Socket \<Rightarrow> InetAddress \<Rightarrow> 'z kworld_scheme \<Rightarrow> 'z kworld_scheme res" where
  "Socket_bindAddress K s localaddr w =
     (let (r, w) = sys_bind K s (InetAddress_getSockAddr localaddr) w
      in case r of Fail e \<Rightarrow> LOG_FATAL ''bind sockfd:%d fail \<newline>'' | Ok u \<Rightarrow> Inr w)"

definition Socket_listen :: "kernel \<Rightarrow> Socket \<Rightarrow> 'z kworld_scheme \<Rightarrow> 'z kworld_scheme res" where
  "Socket_listen K s w =
     (let (r, w) = sys_listen K s 1024 w
      in case r of Fail e \<Rightarrow> LOG_FATAL ''listen sockfd: %d \<newline>'' | Ok u \<Rightarrow> Inr w)"

text \<open>The peer's address is stored only when the call succeeds.\<close>

definition Socket_accept ::
    "kernel \<Rightarrow> Socket \<Rightarrow> InetAddress \<Rightarrow> 'z kworld_scheme \<Rightarrow> fd sysret \<times> InetAddress \<times> 'z kworld_scheme" where
  "Socket_accept K s peeraddr w =
     (let (r, w) = sys_accept K s w
      in case r of
        Ok (connfd, sa) \<Rightarrow> (Ok connfd, InetAddress_setSockAddr sa peeraddr, w)
      | Fail e \<Rightarrow> (Fail e, peeraddr, w))"

definition Socket_shutdownWrite :: "kernel \<Rightarrow> Socket \<Rightarrow> 'z kworld_scheme \<Rightarrow> 'z kworld_scheme" where
  "Socket_shutdownWrite K s w =
     (let (r, w) = sys_shutdown K s w
      in case r of Fail e \<Rightarrow> LOG K ERROR ''shutdownWrite error! \<newline>'' [] w | Ok u \<Rightarrow> w)"

definition optval :: "bool \<Rightarrow> int" where
  "optval on = (if on then 1 else 0)"

definition Socket_setTcpNoDelay :: "bool \<Rightarrow> Socket \<Rightarrow> 'z kworld_scheme \<Rightarrow> 'z kworld_scheme" where
  "Socket_setTcpNoDelay on s w = sys_setsockopt s TCP_NODELAY (optval on) w"

definition Socket_setReuseAddr :: "bool \<Rightarrow> Socket \<Rightarrow> 'z kworld_scheme \<Rightarrow> 'z kworld_scheme" where
  "Socket_setReuseAddr on s w = sys_setsockopt s SO_REUSEADDR (optval on) w"

definition Socket_setReusePort :: "bool \<Rightarrow> Socket \<Rightarrow> 'z kworld_scheme \<Rightarrow> 'z kworld_scheme" where
  "Socket_setReusePort on s w = sys_setsockopt s SO_REUSEPORT (optval on) w"

definition Socket_setKeepAlive :: "bool \<Rightarrow> Socket \<Rightarrow> 'z kworld_scheme \<Rightarrow> 'z kworld_scheme" where
  "Socket_setKeepAlive on s w = sys_setsockopt s SO_KEEPALIVE (optval on) w"

section \<open>Acceptor\<close>

datatype NewConnectionCallback = Bind_TcpServer_newConnection

record Acceptor =
  ac_loop :: loop_id
  ac_acceptSocket :: Socket
  ac_newConnectionCallback :: "NewConnectionCallback option"
  ac_listening :: bool

definition createNonblocking :: "kernel \<Rightarrow> 'z kworld_scheme \<Rightarrow> (fd \<times> 'z kworld_scheme) res" where
  "createNonblocking K w =
     (let (r, w) = sys_socket K w
      in case r of Fail e \<Rightarrow> LOG_FATAL ''%s:%s:%d listen socket create err:%d \<newline>'' | Ok s \<Rightarrow> Inr (s, w))"

definition Acceptor_ctor ::
    "kernel \<Rightarrow> loop_id \<Rightarrow> InetAddress \<Rightarrow> bool \<Rightarrow> 'z cworld_scheme \<Rightarrow> (Acceptor \<times> 'z cworld_scheme) res" where
  "Acceptor_ctor K loop listenAddr reuseport w =
     bindE (createNonblocking K w) (\<lambda>(s, w).
     let w = map_chan AcceptChan (\<lambda>c. Channel_ctor loop s) w;
         w = Socket_setReuseAddr True s w;
         w = Socket_setReusePort True s w
     in bindE (Socket_bindAddress K s listenAddr w) (\<lambda>w.
        let w = map_chan AcceptChan (\<lambda>c. c\<lparr>ch_readCallback := Some Bind_Acceptor_handleRead\<rparr>) w
        in Inr (\<lparr>ac_loop = loop, ac_acceptSocket = s, ac_newConnectionCallback = None, ac_listening = False\<rparr>, w)))"

text \<open>The body of the destructor, and then its members: the socket closes its descriptor.\<close>

definition Acceptor_dtor :: "kernel \<Rightarrow> Acceptor \<Rightarrow> 'z lworld_scheme \<Rightarrow> 'z lworld_scheme res" where
  "Acceptor_dtor K a w =
     bindE (disableAll K AcceptChan w) (\<lambda>w.
     bindE (Channel_remove K AcceptChan w) (\<lambda>w. Inr (Socket_dtor (ac_acceptSocket a) w)))"

definition Acceptor_setNewConnectionCallback :: "NewConnectionCallback \<Rightarrow> Acceptor \<Rightarrow> Acceptor" where
  "Acceptor_setNewConnectionCallback cb a = a\<lparr>ac_newConnectionCallback := Some cb\<rparr>"

definition Acceptor_listen :: "kernel \<Rightarrow> Acceptor \<Rightarrow> 'z lworld_scheme \<Rightarrow> (Acceptor \<times> 'z lworld_scheme) res" where
  "Acceptor_listen K a w =
     (let a = a\<lparr>ac_listening := True\<rparr>
      in bindE (Socket_listen K (ac_acceptSocket a) w) (\<lambda>w.
         bindE (enableReading K AcceptChan w) (\<lambda>w. Inr (a, w))))"

definition Acceptor_handleRead ::
    "kernel \<Rightarrow> (NewConnectionCallback \<Rightarrow> fd \<Rightarrow> InetAddress \<Rightarrow> 'z kworld_scheme \<Rightarrow> 'z kworld_scheme res) \<Rightarrow> Acceptor
     \<Rightarrow> 'z kworld_scheme \<Rightarrow> 'z kworld_scheme res" where
  "Acceptor_handleRead K run a w =
     (let (r, peerAddr, w) = Socket_accept K (ac_acceptSocket a) InetAddress_default w
      in case r of
        Ok connfd \<Rightarrow>
          (case ac_newConnectionCallback a of
             Some cb \<Rightarrow> run cb connfd peerAddr w
           | None \<Rightarrow> Inr (sys_close connfd w))
      | Fail errno \<Rightarrow>
          (let w = LOG K ERROR ''%s:%s:%d accept err:%d \<newline>''
                     [AStr ''Acceptor.cc'', AStr ''handleRead'', AInt 74, AInt errno] w
           in Inr (if errno = EMFILE
                then LOG K ERROR ''%s:%s:%d sockfd reached limit \<newline>''
                       [AStr ''Acceptor.cc'', AStr ''handleRead'', AInt 78] w
                else w)))"

lemmas socket_defs = Socket_dtor_def Socket_bindAddress_def Socket_listen_def Socket_accept_def
  Socket_shutdownWrite_def Socket_setTcpNoDelay_def Socket_setReuseAddr_def Socket_setReusePort_def
  Socket_setKeepAlive_def

section \<open>Facts\<close>

lemma Socket_shutdownWrite_fields [simp]:
  "cur_tid (Socket_shutdownWrite K s w) = cur_tid w" "kworld.more (Socket_shutdownWrite K s w) = kworld.more w"
  by (simp_all add: Socket_shutdownWrite_def sys_shutdown_def record_event_def Let_def split: sysret.split)

lemma Socket_shutdownWrite_trace:
  "ktrace (Socket_shutdownWrite K s w) = ktrace w @ [EvShutdown s (k_shutdown K (ktrace w) s)]"
  by (simp add: Socket_shutdownWrite_def sys_shutdown_def record_event_def Let_def split: sysret.split)

text \<open>The world of a constructed acceptor.\<close>

lemma Acceptor_ctor_opens:
  assumes "k_socket K (ktrace w) = Ok s"
    and "k_bind K (ktrace w @ [EvSocket (Ok s), EvSetsockopt s SO_REUSEADDR 1, EvSetsockopt s SO_REUSEPORT 1]) s
          (InetAddress_getSockAddr listenAddr) = Ok ()"
  shows "\<exists>w'. Acceptor_ctor K loop listenAddr reuseport w = Inr (\<lparr>ac_loop = loop, ac_acceptSocket = s,
        ac_newConnectionCallback = None, ac_listening = False\<rparr>, w')
    \<and> ktrace w' = ktrace w @ [EvSocket (Ok s), EvSetsockopt s SO_REUSEADDR 1, EvSetsockopt s SO_REUSEPORT 1,
        EvBind s (InetAddress_getSockAddr listenAddr) (Ok ())]
    \<and> chans w' = (chans w)(AcceptChan := (Channel_ctor loop s)\<lparr>ch_readCallback := Some Bind_Acceptor_handleRead\<rparr>)
    \<and> cur_tid w' = cur_tid w \<and> cworld.more w' = cworld.more w"
  using assms
  by (simp add: Acceptor_ctor_def createNonblocking_def sys_defs socket_defs optval_def map_chan_def Let_def)
text \<open>The constructed acceptor's channel is one its loop's poller can take.\<close>

lemma Acceptor_ctor_serves:
  assumes "k_socket K (ktrace w) = Ok s"
    and "k_bind K (ktrace w @ [EvSocket (Ok s), EvSetsockopt s SO_REUSEADDR 1, EvSetsockopt s SO_REUSEPORT 1]) s
          (InetAddress_getSockAddr listenAddr) = Ok ()"
    and el: "el_poller (loops w l) = Some p" "pl_owner p = l" "poller_inv p w"
    and new: "ch_index (chans w AcceptChan) = kNew" "pl_channels p s = None"
  shows "\<exists>w'. Acceptor_ctor K l listenAddr reuseport w = Inr (\<lparr>ac_loop = l, ac_acceptSocket = s,
        ac_newConnectionCallback = None, ac_listening = False\<rparr>, w')
    \<and> serves l AcceptChan p w' \<and> open_fds (ktrace w') = insert s (open_fds (ktrace w))
    \<and> chans w' AcceptChan = (Channel_ctor l s)\<lparr>ch_readCallback := Some Bind_Acceptor_handleRead\<rparr>"
proof -
  from Acceptor_ctor_opens [OF assms(1,2), of l reuseport] obtain w' where w':
    "Acceptor_ctor K l listenAddr reuseport w = Inr (\<lparr>ac_loop = l, ac_acceptSocket = s,
        ac_newConnectionCallback = None, ac_listening = False\<rparr>, w')"
    "ktrace w' = ktrace w @ [EvSocket (Ok s), EvSetsockopt s SO_REUSEADDR 1, EvSetsockopt s SO_REUSEPORT 1,
        EvBind s (InetAddress_getSockAddr listenAddr) (Ok ())]"
    "chans w' = (chans w)(AcceptChan := (Channel_ctor l s)\<lparr>ch_readCallback := Some Bind_Acceptor_handleRead\<rparr>)"
    "cworld.more w' = cworld.more w" by blast
  have "interest (pl_epollfd p) (ktrace w') = interest (pl_epollfd p) (ktrace w)"
    using w'(2) by (simp add: interest_def)
  with w'(3) poller_inv_construct [OF el(3) new(1) _ w'(3)] have "poller_inv p w'"
    by (simp add: Channel_ctor_def index_defs)
  moreover have "open_fds (ktrace w') = insert s (open_fds (ktrace w))"
    using w'(2) by (simp add: open_fds_append)
  ultimately show ?thesis
    using w' el new(2) lworld_more(1) [OF w'(4)]
    by (simp add: serves_def attachable_def Channel_ctor_def)
qed

section \<open>Properties\<close>



lemma setSockAddr_eq: "InetAddress_setSockAddr sa x = \<lparr>addr = sa\<rparr>"
  by (cases x) (simp add: InetAddress_setSockAddr_def)

text \<open>
  C28: \<open>handleRead\<close> of the acceptor loses no descriptor: an accepted one is handed to the callback with the
  peer's address, or closed at once when there is no callback; a failed accept opens none and is
  logged, with a second line when the process is out of descriptors.
\<close>

theorem Acceptor_handleRead_no_leak:
  assumes "fresh_law K"
  shows "case k_accept K (ktrace w) (ac_acceptSocket a) of
      Ok (f, sa) \<Rightarrow>
        (case ac_newConnectionCallback a of
           Some cb \<Rightarrow> Acceptor_handleRead K run a w
             = run cb f \<lparr>addr = sa\<rparr> (record_event (EvAccept (ac_acceptSocket a) (Ok (f, sa))) w)
         | None \<Rightarrow> \<exists>w'. Acceptor_handleRead K run a w = Inr w' \<and> open_fds (ktrace w') = open_fds (ktrace w))
    | Fail e \<Rightarrow> \<exists>w'. Acceptor_handleRead K run a w = Inr w' \<and> open_fds (ktrace w') = open_fds (ktrace w)
        \<and> length (stdout (logger_of w')) = length (stdout (logger_of w)) + (if e = EMFILE then 2 else 1)"
proof (cases "k_accept K (ktrace w) (ac_acceptSocket a)")
  case (Ok r)
  then obtain f sa where r: "r = (f, sa)" by (cases r)
  have "f \<notin> open_fds (ktrace w)" using assms Ok r unfolding fresh_law_def by blast
  with Ok r show ?thesis
    by (auto simp: Acceptor_handleRead_def Socket_accept_def sys_accept_def sys_close_def record_event_def
        open_fds_append setSockAddr_eq Let_def split: option.split)
next
  case (Fail e)
  have one: "length (stdout (logger_of (LOG K lv fmt args v))) = Suc (length (stdout (logger_of v)))" for lv fmt args
    and v :: "'z kworld_scheme"
    by (simp add: LOG_def LOG_macro_def Logger_log_def Logger_setLogLevel_def)
  from Fail show ?thesis
    by (simp add: Acceptor_handleRead_def Socket_accept_def sys_accept_def record_event_def one Let_def)
qed

theorem Acceptor_handleRead_no_leak_witness:
  "\<exists>w'. Acceptor_handleRead (plain_kernel 4 []) (\<lambda>cb f a w. Inr w) \<lparr>ac_loop = 0, ac_acceptSocket = 7,
      ac_newConnectionCallback = None, ac_listening = True\<rparr> (kworld.truncate start_world) = Inr w'
    \<and> open_fds (ktrace w') = {}"
  using Acceptor_handleRead_no_leak [where K = "plain_kernel 4 []" and w = "kworld.truncate start_world"
      and a = "\<lparr>ac_loop = 0, ac_acceptSocket = 7, ac_newConnectionCallback = None, ac_listening = True\<rparr>"
      and run = "\<lambda>cb f a w. Inr w", OF plain_kernel_laws(5)]
  by (simp add: plain_kernel_def kworld.truncate_def start_world_def)

text \<open>The option the server passes for \<^verbatim>\<open>SO_REUSEPORT\<close> makes no difference: the port is always shared.\<close>

lemma reuseport_ignored:
  assumes "Acceptor_ctor K loop listenAddr reuseport w = Inr (a, w')"
  shows "EvSetsockopt (ac_acceptSocket a) SO_REUSEPORT 1 \<in> set (ktrace w')"
  using assms
  by (auto simp: Acceptor_ctor_def createNonblocking_def LOG_FATAL_def sys_defs socket_defs optval_def
      map_chan_def Let_def split: sysret.splits)

end
