(* ===== verification/Buffer.thy ===== *)
theory Buffer
  imports Kernel
begin

text \<open>
  \<^verbatim>\<open>Buffer.h\<close>, \<^verbatim>\<open>Buffer.cc\<close>: the byte buffer with a reader and a writer index into a vector.  The
  operations are the class's, index arithmetic in \<^verbatim>\<open>size_t\<close>; the abstraction \<open>Buffer_content\<close> is the
  list of readable bytes, and the interface \<open>byte_queue\<close> states what a client relies on.
\<close>

definition kCheapPrepend :: nat where
  "kCheapPrepend = 8"

declare kCheapPrepend_def [simp]

definition kInitialSize :: nat where
  "kInitialSize = 1024"

record Buffer =
  buf :: bytes
  readerIndex :: nat
  writerIndex :: nat

section \<open>Operations\<close>

definition Buffer_ctor :: "nat \<Rightarrow> Buffer res" where
  "Buffer_ctor initialSize = bindE (vec_resize (size_add kCheapPrepend initialSize) []) (\<lambda>v.
     Inr \<lparr>buf = v, readerIndex = kCheapPrepend, writerIndex = kCheapPrepend\<rparr>)"

definition Buffer_default :: Buffer where
  "Buffer_default = \<lparr>buf = replicate (kCheapPrepend + kInitialSize) (CHR 0x00),
     readerIndex = kCheapPrepend, writerIndex = kCheapPrepend\<rparr>"

definition readableBytes :: "Buffer \<Rightarrow> nat" where
  "readableBytes b = size_sub (writerIndex b) (readerIndex b)"

definition writableBytes :: "Buffer \<Rightarrow> nat" where
  "writableBytes b = size_sub (length (buf b)) (writerIndex b)"

definition prependableBytes :: "Buffer \<Rightarrow> nat" where
  "prependableBytes b = readerIndex b"

text \<open>\<open>peek b n\<close> are the \<open>n\<close> bytes a client reads at the pointer \<^verbatim>\<open>peek()\<close> returns.\<close>

definition peek :: "Buffer \<Rightarrow> nat \<Rightarrow> bytes res" where
  "peek b n = vec_read (readerIndex b) n (buf b)"

definition retrieveAll :: "Buffer \<Rightarrow> Buffer" where
  "retrieveAll b = b\<lparr>readerIndex := kCheapPrepend, writerIndex := kCheapPrepend\<rparr>"

definition retrieve :: "nat \<Rightarrow> Buffer \<Rightarrow> Buffer" where
  "retrieve len b =
     (if len < readableBytes b then b\<lparr>readerIndex := size_add (readerIndex b) len\<rparr> else retrieveAll b)"

definition retrieveAsString :: "nat \<Rightarrow> Buffer \<Rightarrow> (bytes \<times> Buffer) res" where
  "retrieveAsString len b = bindE (peek b len) (\<lambda>result. Inr (result, retrieve len b))"

definition retrieveAllAsString :: "Buffer \<Rightarrow> (bytes \<times> Buffer) res" where
  "retrieveAllAsString b = retrieveAsString (readableBytes b) b"

definition makeSpace :: "nat \<Rightarrow> Buffer \<Rightarrow> Buffer res" where
  "makeSpace len b =
     (if size_add (writableBytes b) (prependableBytes b) < size_add len kCheapPrepend
      then bindE (vec_resize (size_add (writerIndex b) len) (buf b)) (\<lambda>v. Inr (b\<lparr>buf := v\<rparr>))
      else
        (let readable = readableBytes b
         in bindE (vec_read (readerIndex b) readable (buf b)) (\<lambda>d.
            bindE (vec_write kCheapPrepend d (buf b)) (\<lambda>v.
              Inr (b\<lparr>buf := v, readerIndex := kCheapPrepend,
                     writerIndex := size_add kCheapPrepend readable\<rparr>)))))"

definition ensureWriteableBytes :: "nat \<Rightarrow> Buffer \<Rightarrow> Buffer res" where
  "ensureWriteableBytes len b = (if writableBytes b < len then makeSpace len b else Inr b)"

definition Buffer_append :: "bytes \<Rightarrow> Buffer \<Rightarrow> Buffer res" where
  "Buffer_append data b =
     bindE (ensureWriteableBytes (length data) b) (\<lambda>b.
     bindE (vec_write (writerIndex b) data (buf b)) (\<lambda>v.
       Inr (b\<lparr>buf := v, writerIndex := size_add (writerIndex b) (length data)\<rparr>)))"

definition extrabuf_size :: nat where
  "extrabuf_size = 65536"

text \<open>
  \<open>readFd\<close> hands the kernel the writable part and, when that is smaller than the stack buffer, the
  stack buffer too.  It has no \<^verbatim>\<open>return\<close> statement, so its result is whatever \<open>k_no_return\<close> says;
  the other results are the error number stored through \<open>saveErrno\<close>, the buffer and the world.
\<close>

definition readFd_iov :: "Buffer \<Rightarrow> nat list" where
  "readFd_iov b =
     (let writable = writableBytes b
      in if writable < extrabuf_size then [writable, extrabuf_size] else [writable])"

definition readFd ::
    "kernel \<Rightarrow> fd \<Rightarrow> Buffer \<Rightarrow> 'z kworld_scheme \<Rightarrow> (int \<times> errno option \<times> Buffer \<times> 'z kworld_scheme) res" where
  "readFd K fd b w =
     (let writable = writableBytes b;
          (r, w) = sys_readv K fd (readFd_iov b) w;
          ret = k_no_return K (ktrace w)
      in case r of
        Fail e \<Rightarrow> Inr (ret, Some e, b, w)
      | Ok d \<Rightarrow>
          if sum_list (readFd_iov b) < length d then Inl Out_of_bounds
          else if length d \<le> writable
          then bindE (vec_write (writerIndex b) d (buf b)) (\<lambda>v.
                 Inr (ret, None, b\<lparr>buf := v, writerIndex := size_add (writerIndex b) (length d)\<rparr>, w))
          else bindE (vec_write (writerIndex b) (take writable d) (buf b)) (\<lambda>v.
               bindE (Buffer_append (drop writable d) (b\<lparr>buf := v, writerIndex := length v\<rparr>)) (\<lambda>b.
                 Inr (ret, None, b, w))))"

definition writeFd ::
    "kernel \<Rightarrow> fd \<Rightarrow> Buffer \<Rightarrow> 'z kworld_scheme \<Rightarrow> (nat sysret \<times> 'z kworld_scheme) res" where
  "writeFd K fd b w = bindE (peek b (readableBytes b)) (\<lambda>d. Inr (sys_write K fd d w))"

section \<open>Invariant and abstraction\<close>

definition Buffer_inv :: "Buffer \<Rightarrow> bool" where
  "Buffer_inv b \<longleftrightarrow> kCheapPrepend \<le> readerIndex b \<and> readerIndex b \<le> writerIndex b
     \<and> writerIndex b \<le> length (buf b) \<and> length (buf b) \<le> max_size"

definition Buffer_content :: "Buffer \<Rightarrow> bytes" where
  "Buffer_content b = take (writerIndex b - readerIndex b) (drop (readerIndex b) (buf b))"

lemma max_size_lt: "n \<le> max_size \<Longrightarrow> n < 2 ^ 63"
  by (simp add: max_size_def)

lemma Buffer_inv_bounds:
  assumes "Buffer_inv b"
  shows "readableBytes b = writerIndex b - readerIndex b"
    and "writableBytes b = length (buf b) - writerIndex b"
    and "prependableBytes b = readerIndex b"
    and "writerIndex b < 2 ^ 63"
    and "length (buf b) < 2 ^ 63"
proof -
  have lt: "length (buf b) < 2 ^ 63" using assms max_size_lt unfolding Buffer_inv_def by blast
  then have wlt: "writerIndex b < 2 ^ 63" using assms unfolding Buffer_inv_def by linarith
  show "readableBytes b = writerIndex b - readerIndex b"
    and "writableBytes b = length (buf b) - writerIndex b"
    using assms lt wlt by (simp_all add: readableBytes_def writableBytes_def Buffer_inv_def)
  show "prependableBytes b = readerIndex b" by (simp add: prependableBytes_def)
  show "writerIndex b < 2 ^ 63" "length (buf b) < 2 ^ 63" by fact+
qed

lemma length_Buffer_content: "Buffer_inv b \<Longrightarrow> length (Buffer_content b) = readableBytes b"
  by (simp add: Buffer_inv_bounds Buffer_content_def) (auto simp: Buffer_inv_def min_def)

lemma Buffer_content_drop: "Buffer_inv b \<Longrightarrow>
    Buffer_content b = drop (readerIndex b) (take (writerIndex b) (buf b))"
  by (simp add: Buffer_content_def take_drop_segment Buffer_inv_def)

lemma peek_content: "Buffer_inv b \<Longrightarrow> peek b (readableBytes b) = Inr (Buffer_content b)"
  by (simp add: peek_def vec_read_def Buffer_inv_bounds Buffer_content_def) (simp add: Buffer_inv_def)

lemma Buffer_default_inv [simp]: "Buffer_inv Buffer_default"
  by (simp add: Buffer_default_def Buffer_inv_def kInitialSize_def max_size_def)

lemma Buffer_default_content [simp]: "Buffer_content Buffer_default = []"
  by (simp add: Buffer_default_def Buffer_content_def)

lemma Buffer_default_ctor: "Buffer_ctor kInitialSize = Inr Buffer_default"
  by (simp add: Buffer_ctor_def Buffer_default_def vec_resize_def kInitialSize_def
      max_size_def)

lemma retrieveAll_inv: "Buffer_inv b \<Longrightarrow> Buffer_inv (retrieveAll b)"
  by (simp add: Buffer_inv_def retrieveAll_def)

lemma retrieveAll_content [simp]: "Buffer_content (retrieveAll b) = []"
  by (simp add: Buffer_content_def retrieveAll_def)

section \<open>Functional behaviour\<close>

text \<open>Bytes stored behind the readable part, with the writer index moved over them.\<close>

lemma store_at_writer:
  assumes "Buffer_inv b" "writerIndex b + length d \<le> length (buf b)"
    and "v = take (writerIndex b) (buf b) @ d @ drop (writerIndex b + length d) (buf b)"
  defines "b' \<equiv> b\<lparr>buf := v, writerIndex := writerIndex b + length d\<rparr>"
  shows "Buffer_inv b'" and "Buffer_content b' = Buffer_content b @ d"
proof -
  show inv: "Buffer_inv b'"
    using assms by (simp add: Buffer_inv_def)
  have "take (writerIndex b') (buf b') = take (writerIndex b) (buf b) @ d"
    using assms by simp
  moreover have "readerIndex b \<le> length (take (writerIndex b) (buf b))"
    using assms(1,2) by (simp add: Buffer_inv_def)
  ultimately show "Buffer_content b' = Buffer_content b @ d"
    using inv assms(1) by (simp add: Buffer_content_drop b'_def)
qed

lemma retrieve_spec:
  assumes "Buffer_inv b"
  shows "Buffer_inv (retrieve n b)" and "Buffer_content (retrieve n b) = drop n (Buffer_content b)"
proof -
  note bounds = Buffer_inv_bounds [OF assms]
  show "Buffer_inv (retrieve n b)"
  proof (cases "n < readableBytes b")
    case True
    then have "readerIndex b + n < writerIndex b" using bounds by linarith
    then have "readerIndex b + n < 2 ^ 64" using bounds(4) by simp
    with True assms bounds show ?thesis by (simp add: retrieve_def Buffer_inv_def)
  next
    case False
    with assms show ?thesis by (simp add: retrieve_def retrieveAll_inv)
  qed
  show "Buffer_content (retrieve n b) = drop n (Buffer_content b)"
  proof (cases "n < readableBytes b")
    case True
    then have "readerIndex b + n < writerIndex b" using bounds by linarith
    then have "readerIndex b + n < 2 ^ 64" using bounds(4) by simp
    with True show ?thesis
      by (simp add: retrieve_def Buffer_content_def drop_take add.commute)
  next
    case False
    with length_Buffer_content [OF assms] show ?thesis by (simp add: retrieve_def)
  qed
qed

text \<open>Under the invariant no index computation of \<open>makeSpace\<close> wraps around.\<close>

lemma makeSpace_sizes:
  assumes inv: "Buffer_inv b" and len: "len \<le> max_size"
  shows "size_add (writableBytes b) (prependableBytes b) = length (buf b) - writerIndex b + readerIndex b"
    and "size_add len 8 = len + 8"
    and "size_add (writerIndex b) len = writerIndex b + len"
proof -
  note bounds = Buffer_inv_bounds [OF inv]
  have "length (buf b) - writerIndex b + readerIndex b \<le> length (buf b)"
    using inv unfolding Buffer_inv_def by linarith
  then have "length (buf b) - writerIndex b + readerIndex b < 2 ^ 64" using bounds(5) by simp
  then show "size_add (writableBytes b) (prependableBytes b) = length (buf b) - writerIndex b + readerIndex b"
    unfolding bounds(2,3) by (rule size_add_exact)
  show "size_add len 8 = len + 8" "size_add (writerIndex b) len = writerIndex b + len"
    using bounds(4) max_size_lt [OF len] by simp_all
qed

lemma makeSpace_spec:
  assumes inv: "Buffer_inv b" and len: "len \<le> max_size" and less: "writableBytes b < len"
    and ret: "makeSpace len b = Inr b'"
  shows "Buffer_inv b'" and "Buffer_content b' = Buffer_content b" and "len \<le> writableBytes b'"
proof -
  note bounds = Buffer_inv_bounds [OF inv]
  note unfolded = makeSpace_sizes [OF inv len]
  have "Buffer_inv b' \<and> Buffer_content b' = Buffer_content b \<and> len \<le> length (buf b') - writerIndex b'"
  proof (cases "length (buf b) - writerIndex b + readerIndex b < len + 8")
    case True
    then have b': "b' = b\<lparr>buf := take (writerIndex b + len) (buf b)
        @ replicate (writerIndex b + len - length (buf b)) (CHR 0x00)\<rparr>"
      and max: "writerIndex b + len \<le> max_size"
      using ret by (auto simp: makeSpace_def unfolded vec_resize_def split: if_splits)
    have "length (buf b) < writerIndex b + len"
      using less bounds inv by (simp add: Buffer_inv_def)
    then show ?thesis
      using inv max by (simp add: b' Buffer_inv_def Buffer_content_def)
  next
    case False
    let ?d = "Buffer_content b" and ?n = "writerIndex b - readerIndex b"
    have n: "length ?d = ?n" using length_Buffer_content [OF inv] bounds by simp
    have "vec_read (readerIndex b) (readableBytes b) (buf b) = Inr ?d"
      using peek_content [OF inv] by (simp add: peek_def)
    moreover have fits: "8 + ?n \<le> length (buf b)" using inv by (auto simp: Buffer_inv_def)
    moreover have "size_add 8 ?n = 8 + ?n" using fits bounds by simp
    ultimately have b': "b' = b\<lparr>buf := take 8 (buf b) @ ?d @ drop (8 + ?n) (buf b), readerIndex := 8,
        writerIndex := 8 + ?n\<rparr>"
      using ret False n by (auto simp: makeSpace_def unfolded bounds(1) vec_write_fits Let_def)
    have "Buffer_content b' = ?d" using fits n by (simp add: b' Buffer_content_def)
    moreover have "len \<le> length (buf b) - (8 + ?n)"
      using False inv by (auto simp: Buffer_inv_def)
    ultimately show ?thesis
      using inv fits n by (auto simp: b' Buffer_inv_def)
  qed
  with Buffer_inv_bounds(2) show "Buffer_inv b'" "Buffer_content b' = Buffer_content b"
    "len \<le> writableBytes b'" by auto
qed

lemma ensureWriteableBytes_spec:
  assumes "Buffer_inv b" "len \<le> max_size" "ensureWriteableBytes len b = Inr b'"
  shows "Buffer_inv b'" and "Buffer_content b' = Buffer_content b" and "len \<le> writableBytes b'"
  using assms makeSpace_spec [of b len b']
  by (auto simp: ensureWriteableBytes_def split: if_splits)

lemma Buffer_append_spec:
  assumes inv: "Buffer_inv b" and len: "length d \<le> max_size" and ret: "Buffer_append d b = Inr b'"
  shows "Buffer_inv b'" and "Buffer_content b' = Buffer_content b @ d"
proof -
  obtain c v where c: "ensureWriteableBytes (length d) b = Inr c"
    and v: "vec_write (writerIndex c) d (buf c) = Inr v"
    and b': "b' = c\<lparr>buf := v, writerIndex := size_add (writerIndex c) (length d)\<rparr>"
    using ret by (auto simp: Buffer_append_def)
  note spec = ensureWriteableBytes_spec [OF inv len c]
  have fits: "writerIndex c + length d \<le> length (buf c)"
    using v by (auto simp: vec_write_def split: if_splits)
  moreover have "size_add (writerIndex c) (length d) = writerIndex c + length d"
    using fits Buffer_inv_bounds(5) [OF spec(1)] by simp
  ultimately show "Buffer_inv b'" "Buffer_content b' = Buffer_content b @ d"
    using store_at_writer [OF spec(1) fits] v spec(2) by (simp_all add: b' vec_write_def)
qed

lemma makeSpace_total:
  assumes inv: "Buffer_inv b" and room: "length (Buffer_content b) + 2 * len + 8 \<le> max_size"
  shows "\<exists>b'. makeSpace len b = Inr b'"
proof -
  note bounds = Buffer_inv_bounds [OF inv]
  have n: "length (Buffer_content b) = writerIndex b - readerIndex b"
    using length_Buffer_content [OF inv] bounds by simp
  note unfolded = makeSpace_sizes [OF inv add_leD1 [OF add_leD2 [OF room [unfolded mult_2 add.assoc]]]]
  show ?thesis
  proof (cases "length (buf b) - writerIndex b + readerIndex b < len + 8")
    case True
    then have "writerIndex b + len \<le> max_size" using room n inv by (auto simp: Buffer_inv_def)
    with True show ?thesis by (simp add: makeSpace_def unfolded vec_resize_def)
  next
    case False
    have "vec_read (readerIndex b) (readableBytes b) (buf b) = Inr (Buffer_content b)"
      using peek_content [OF inv] by (simp add: peek_def)
    moreover have "8 + length (Buffer_content b) \<le> length (buf b)"
      using inv n by (auto simp: Buffer_inv_def)
    ultimately show ?thesis using False
      by (simp add: makeSpace_def unfolded vec_write_fits)
  qed
qed

lemma Buffer_append_total:
  assumes inv: "Buffer_inv b" and room: "length (Buffer_content b) + 2 * length d + 8 \<le> max_size"
  shows "\<exists>b'. Buffer_append d b = Inr b'"
proof -
  have len: "length d \<le> max_size" using room by simp
  obtain c where c: "ensureWriteableBytes (length d) b = Inr c"
    using makeSpace_total [OF assms] by (fastforce simp: ensureWriteableBytes_def)
  note spec = ensureWriteableBytes_spec [OF inv len c]
  have "writerIndex c + length d \<le> length (buf c)"
    using spec(3) Buffer_inv_bounds(2) [OF spec(1)] spec(1) unfolding Buffer_inv_def by linarith
  with c show ?thesis by (simp add: Buffer_append_def vec_write_fits)
qed

text \<open>Appending fails in one way: the vector would become too long.\<close>

lemma makeSpace_error:
  assumes inv: "Buffer_inv b" and len: "len \<le> max_size" and r: "makeSpace len b = Inl e"
  shows "e = Length_error"
proof -
  note unfolded = makeSpace_sizes [OF inv len]
  show ?thesis
  proof (cases "length (buf b) - writerIndex b + readerIndex b < len + 8")
    case True
    with r show ?thesis by (auto simp: makeSpace_def unfolded vec_resize_def split: if_splits)
  next
    case False
    have "vec_read (readerIndex b) (readableBytes b) (buf b) = Inr (Buffer_content b)"
      using peek_content [OF inv] by (simp add: peek_def)
    moreover have "8 + length (Buffer_content b) \<le> length (buf b)"
      using inv length_Buffer_content [OF inv] Buffer_inv_bounds [OF inv] by (auto simp: Buffer_inv_def kCheapPrepend_def)
    ultimately show ?thesis using False r by (simp add: makeSpace_def unfolded vec_write_fits)
  qed
qed

lemma Buffer_append_error:
  assumes inv: "Buffer_inv b" and len: "length d \<le> max_size" and r: "Buffer_append d b = Inl e"
  shows "e = Length_error"
proof (cases "ensureWriteableBytes (length d) b")
  case (Inl e')
  then show ?thesis using r makeSpace_error [OF inv len] by (auto simp: Buffer_append_def ensureWriteableBytes_def split: if_splits)
next
  case (Inr c)
  note spec = ensureWriteableBytes_spec [OF inv len Inr]
  have "writerIndex c + length d \<le> length (buf c)"
    using spec(3) Buffer_inv_bounds(2) [OF spec(1)] spec(1) unfolding Buffer_inv_def by linarith
  then show ?thesis using r Inr by (simp add: Buffer_append_def vec_write_fits)
qed

section \<open>Reading from and writing to a descriptor\<close>

lemma sum_readFd_iov: "sum_list (readFd_iov b) =
    (if writableBytes b < extrabuf_size then writableBytes b + extrabuf_size else writableBytes b)"
  by (simp add: readFd_iov_def Let_def)

text \<open>What \<open>readFd\<close> does with the bytes the kernel delivered, one lemma for each outcome of the call.\<close>

lemma readFd_fail:
  "k_readv K (ktrace w) fd (readFd_iov b) = Fail e \<Longrightarrow>
   readFd K fd b w = Inr (k_no_return K (ktrace w @ [EvReadv fd (readFd_iov b) (Fail e)]), Some e, b,
     record_event (EvReadv fd (readFd_iov b) (Fail e)) w)"
  by (simp add: readFd_def sys_readv_def record_event_def Let_def)

lemma readFd_spec:
  assumes inv: "Buffer_inv b" and law: "readv_law K"
    and d: "k_readv K (ktrace w) fd (readFd_iov b) = Ok d"
    and ret: "readFd K fd b w = Inr (r, err, b', w')"
  shows "Buffer_inv b'" and "Buffer_content b' = Buffer_content b @ d" and "err = None"
    and "w' = record_event (EvReadv fd (readFd_iov b) (Ok d)) w" and "r = k_no_return K (ktrace w')"
proof -
  note bounds = Buffer_inv_bounds [OF inv]
  have cap: "length d \<le> sum_list (readFd_iov b)"
    using law d by (auto simp: readv_law_def)
  have main: "Buffer_inv b' \<and> Buffer_content b' = Buffer_content b @ d \<and> err = None
      \<and> w' = record_event (EvReadv fd (readFd_iov b) (Ok d)) w \<and> r = k_no_return K (ktrace w')"
  proof (cases "length d \<le> writableBytes b")
    case True
    then have fits: "writerIndex b + length d \<le> length (buf b)"
      using bounds(2) inv unfolding Buffer_inv_def by linarith
    have add: "size_add (writerIndex b) (length d) = writerIndex b + length d"
      using fits bounds(5) by simp
    from ret d cap True fits add show ?thesis
      using store_at_writer [OF inv fits refl]
      by (auto simp: readFd_def sys_readv_def Let_def vec_write_fits record_event_def)
  next
    case False
    let ?n = "writableBytes b"
    let ?c = "b\<lparr>buf := take (writerIndex b) (buf b) @ take ?n d, writerIndex := length (buf b)\<rparr>"
    have fits: "writerIndex b + length (take ?n d) = length (buf b)"
      using False bounds(2) inv by (simp add: Buffer_inv_def)
    have w: "vec_write (writerIndex b) (take ?n d) (buf b) = Inr (take (writerIndex b) (buf b) @ take ?n d)"
      using fits by (simp add: vec_write_def)
    have store: "Buffer_inv ?c" "Buffer_content ?c = Buffer_content b @ take ?n d"
      using store_at_writer [OF inv eq_refl [OF fits] refl] fits by simp_all
    have len: "length (take (writerIndex b) (buf b) @ take ?n d) = length (buf b)"
      using fits inv by (simp add: Buffer_inv_def)
    have "length (drop ?n d) \<le> max_size"
      using cap False by (auto simp: sum_readFd_iov extrabuf_size_def max_size_def split: if_splits)
    moreover obtain c' where c': "Buffer_append (drop ?n d) ?c = Inr c'" "b' = c'"
      using ret d cap False w len by (auto simp: readFd_def sys_readv_def Let_def)
    ultimately have "Buffer_inv b'" "Buffer_content b' = Buffer_content b @ d"
      using Buffer_append_spec [OF store(1) _ c'(1)] store(2) c'(2) by simp_all
    then show ?thesis
      using ret d cap False w len c' by (auto simp: readFd_def sys_readv_def Let_def record_event_def)
  qed
  then show "Buffer_inv b'" "Buffer_content b' = Buffer_content b @ d" "err = None"
    "w' = record_event (EvReadv fd (readFd_iov b) (Ok d)) w" "r = k_no_return K (ktrace w')"
    by blast+
qed

lemma writeFd_spec:
  assumes "Buffer_inv b"
  shows "writeFd K fd b w = Inr (sys_write K fd (Buffer_content b) w)"
  using assms by (simp add: writeFd_def peek_content)

section \<open>The byte queue a client relies on\<close>

text \<open>
  A client (\<open>TcpConnection\<close>) puts bytes at the end and takes them from the front; it does not know
  the indices.  The laws are those of a first-in first-out queue of bytes with an invariant.
\<close>

locale byte_queue =
  fixes inv :: "'q \<Rightarrow> bool"
    and content :: "'q \<Rightarrow> bytes"
    and size_of :: "'q \<Rightarrow> nat"
    and put :: "bytes \<Rightarrow> 'q \<Rightarrow> 'q res"
    and take_front :: "nat \<Rightarrow> 'q \<Rightarrow> 'q"
    and limit :: nat
  assumes size_law: "inv q \<Longrightarrow> size_of q = length (content q)"
    and put_inv: "inv q \<Longrightarrow> length d \<le> limit \<Longrightarrow> put d q = Inr q' \<Longrightarrow> inv q'"
    and put_content: "inv q \<Longrightarrow> length d \<le> limit \<Longrightarrow> put d q = Inr q' \<Longrightarrow> content q' = content q @ d"
    and put_total: "inv q \<Longrightarrow> length (content q) + 2 * length d + 8 \<le> limit \<Longrightarrow> \<exists>q'. put d q = Inr q'"
    and take_inv: "inv q \<Longrightarrow> inv (take_front n q)"
    and take_content: "inv q \<Longrightarrow> content (take_front n q) = drop n (content q)"
begin

text \<open>Putting pieces one after the other appends their concatenation.\<close>

lemma puts_content:
  assumes "foldE put ds q = Inr q'" "inv q" "\<forall>d \<in> set ds. length d \<le> limit"
  shows "inv q' \<and> content q' = content q @ concat ds"
  using assms
proof (induction ds arbitrary: q)
  case Nil
  then show ?case by simp
next
  case (Cons d ds)
  then obtain p where p: "put d q = Inr p" "foldE put ds p = Inr q'" by auto
  with Cons.prems have "inv p" "content p = content q @ d"
    by (auto intro: put_inv put_content)
  with Cons p show ?case by auto
qed

text \<open>Taking in pieces is taking their sum, and whatever is taken comes out in the order it went in.\<close>

lemma takes_content:
  "inv q \<Longrightarrow> inv (fold take_front ns q) \<and> content (fold take_front ns q) = drop (sum_list ns) (content q)"
  by (induction ns arbitrary: q) (simp_all add: take_inv take_content add.commute)

lemma fifo:
  assumes "foldE put ds q = Inr q'" "inv q" "\<forall>d \<in> set ds. length d \<le> limit"
  shows "content (fold take_front ns q') = drop (sum_list ns) (content q @ concat ds)"
  using puts_content [OF assms] takes_content by simp

lemma size_zero_iff: "inv q \<Longrightarrow> size_of q = 0 \<longleftrightarrow> content q = []"
  by (simp add: size_law)

lemma take_all: "inv q \<Longrightarrow> size_of q \<le> n \<Longrightarrow> content (take_front n q) = []"
  by (simp add: size_law take_content)

end

interpretation bq: byte_queue Buffer_inv Buffer_content readableBytes Buffer_append retrieve max_size
  by unfold_locales
    (auto simp: length_Buffer_content retrieve_spec intro: Buffer_append_spec Buffer_append_total)

section \<open>Properties\<close>

text \<open>
  C19: a buffer is a first-in first-out queue of bytes: after any sequence of appends and then any
  sequence of retrievals, what is readable is what was appended, in order, less what was retrieved.
\<close>

theorem Buffer_fifo:
  assumes "Buffer_inv b" "\<forall>d \<in> set ds. length d \<le> max_size" "foldE Buffer_append ds b = Inr b'"
  shows "Buffer_inv (fold retrieve ns b')
    \<and> Buffer_content (fold retrieve ns b') = drop (sum_list ns) (Buffer_content b @ concat ds)"
  using bq.puts_content [OF assms(3,1,2)] bq.takes_content [of b' ns] by simp

theorem Buffer_fifo_witness:
  "\<exists>b'. foldE Buffer_append [''ab'', ''cde''] Buffer_default = Inr b'
     \<and> Buffer_content (fold retrieve [1, 2] b') = ''de''"
proof -
  obtain b' where b': "foldE Buffer_append [''ab'', ''cde''] Buffer_default = Inr b'"
    using Buffer_append_total [of Buffer_default "''ab''"] Buffer_append_spec [of Buffer_default "''ab''"]
      Buffer_append_total [of _ "''cde''"]
    by (fastforce simp: max_size_def)
  from Buffer_fifo [OF Buffer_default_inv _ this, of "[1, 2]"] show ?thesis
    using b' by (auto simp: max_size_def)
qed

text \<open>
  \<open>append\<close> keeps the order of the indices (\<^verbatim>\<open>0 <= readerIndex <= writerIndex <= size\<close>), appends
  exactly its bytes, and succeeds (no index leaves the vector, no \<^verbatim>\<open>size_t\<close> sum wraps) whenever the
  readable bytes and twice the new ones fit in a vector.
\<close>

theorem Buffer_append_correct:
  assumes "Buffer_inv b" "length (Buffer_content b) + 2 * length d + 8 \<le> max_size"
  shows "\<exists>b'. Buffer_append d b = Inr b' \<and> Buffer_inv b' \<and> Buffer_content b' = Buffer_content b @ d"
proof -
  have "length d \<le> max_size" using assms(2) by simp
  then show ?thesis
    using bq.put_total [OF assms] bq.put_inv [OF assms(1)] bq.put_content [OF assms(1)] by blast
qed

theorem Buffer_append_correct_witness:
  "\<exists>b'. Buffer_append ''hello'' Buffer_default = Inr b' \<and> Buffer_content b' = ''hello''"
  using Buffer_append_correct [OF Buffer_default_inv, of "''hello''"] by (auto simp: max_size_def)

text \<open>
  When the gaps before and behind the readable bytes hold the new bytes, \<open>makeSpace\<close> moves the
  readable bytes to the front and the vector keeps its size; otherwise the vector grows to exactly
  \<^verbatim>\<open>writerIndex_ + len\<close> and nothing moves.  In both cases the readable bytes are the same and there is
  room for \<open>len\<close> more.
\<close>

theorem makeSpace_correct:
  assumes inv: "Buffer_inv b" and len: "len \<le> max_size" and less: "writableBytes b < len"
    and ret: "makeSpace len b = Inr b'"
  shows "Buffer_inv b' \<and> Buffer_content b' = Buffer_content b \<and> len \<le> writableBytes b'
    \<and> (if len + kCheapPrepend \<le> writableBytes b + prependableBytes b
       then length (buf b') = length (buf b) \<and> readerIndex b' = kCheapPrepend
       else length (buf b') = writerIndex b + len \<and> readerIndex b' = readerIndex b
         \<and> writerIndex b' = writerIndex b)"
proof (intro conjI)
  show "Buffer_inv b'" "Buffer_content b' = Buffer_content b" "len \<le> writableBytes b'"
    by (fact makeSpace_spec [OF inv len less ret])+
  note unfolded = makeSpace_sizes [OF inv len]
  have "writableBytes b + prependableBytes b = length (buf b) - writerIndex b + readerIndex b"
    using Buffer_inv_bounds [OF inv] by simp
  with ret show "if len + kCheapPrepend \<le> writableBytes b + prependableBytes b
     then length (buf b') = length (buf b) \<and> readerIndex b' = kCheapPrepend
     else length (buf b') = writerIndex b + len \<and> readerIndex b' = readerIndex b
       \<and> writerIndex b' = writerIndex b"
    by (auto simp: makeSpace_def unfolded Let_def dest: vec_write_length vec_resize_length split: if_splits)
qed

definition moved_buffer :: Buffer where
  "moved_buffer = \<lparr>buf = ''01234567abcdefxy'', readerIndex = 12, writerIndex = 15\<rparr>"

theorem makeSpace_correct_witness:
  "\<exists>b'. makeSpace 4 moved_buffer = Inr b' \<and> Buffer_content b' = ''efx'' \<and> length (buf b') = 16"
proof -
  have inv: "Buffer_inv moved_buffer" by (simp add: moved_buffer_def Buffer_inv_def max_size_def)
  note b = Buffer_inv_bounds [OF inv]
  obtain b' where ret: "makeSpace 4 moved_buffer = Inr b'"
    using makeSpace_total [OF inv, of 4] by (auto simp: moved_buffer_def Buffer_content_def max_size_def)
  have n: "writableBytes moved_buffer = 1" "prependableBytes moved_buffer = 12"
    unfolding b(2,3) by (simp_all add: moved_buffer_def)
  have c: "Buffer_content moved_buffer = ''efx''" "length (buf moved_buffer) = 16"
    by (simp_all add: moved_buffer_def Buffer_content_def)
  have "writableBytes moved_buffer < 4" by (simp add: n)
  from makeSpace_correct [OF inv _ this ret] ret show ?thesis
    by (simp add: n c max_size_def)
qed

lemma retrieveAsString_spec:
  assumes inv: "Buffer_inv b" and len: "len \<le> readableBytes b"
  shows "(\<exists>b'. retrieveAsString len b = Inr (take len (Buffer_content b), b')
        \<and> Buffer_inv b' \<and> Buffer_content b' = drop len (Buffer_content b))
    \<and> (\<exists>b'. retrieveAllAsString b = Inr (Buffer_content b, b') \<and> Buffer_inv b' \<and> Buffer_content b' = [])"
proof -
  have peek: "peek b n = Inr (take n (Buffer_content b))" if "n \<le> readableBytes b" for n
    using that Buffer_inv_bounds [OF inv] inv
    by (auto simp: peek_def vec_read_def Buffer_content_def Buffer_inv_def min_def)
  then show ?thesis
    using retrieve_spec [OF inv] length_Buffer_content [OF inv] len
    by (simp add: retrieveAllAsString_def retrieveAsString_def)
qed

text \<open>
  \<open>retrieveAsString\<close> hands out the first \<open>len\<close> readable bytes and drops exactly those, and
  \<open>retrieveAllAsString\<close> hands out all of them and leaves an empty buffer.
\<close>

theorem retrieveAsString_correct:
  assumes inv: "Buffer_inv b" and len: "len \<le> readableBytes b"
  shows "(\<exists>b'. retrieveAsString len b = Inr (take len (Buffer_content b), b')
        \<and> Buffer_inv b' \<and> Buffer_content b' = drop len (Buffer_content b))
    \<and> (\<exists>b'. retrieveAllAsString b = Inr (Buffer_content b, b') \<and> Buffer_inv b' \<and> Buffer_content b' = [])"
  using retrieveAsString_spec [OF assms] .

theorem retrieveAsString_correct_witness:
  "\<exists>b'. retrieveAsString 2 moved_buffer = Inr (''ef'', b') \<and> Buffer_content b' = ''x''"
proof -
  have inv: "Buffer_inv moved_buffer" by (simp add: moved_buffer_def Buffer_inv_def max_size_def)
  have "2 \<le> readableBytes moved_buffer"
    unfolding Buffer_inv_bounds(1) [OF inv] by (simp add: moved_buffer_def)
  from retrieveAsString_correct [OF inv this] show ?thesis
    by (auto simp: moved_buffer_def Buffer_content_def)
qed

lemma readFd_total:
  assumes inv: "Buffer_inv b" and law: "readv_law K"
    and room: "length (Buffer_content b) + 4 * extrabuf_size + 8 \<le> max_size"
  shows "\<exists>r. readFd K fd b w = Inr r"
proof (cases "k_readv K (ktrace w) fd (readFd_iov b)")
  case (Fail e)
  then show ?thesis by (simp add: readFd_fail)
next
  case (Ok d)
  note bounds = Buffer_inv_bounds [OF inv]
  let ?n = "writableBytes b"
  have cap: "length d \<le> sum_list (readFd_iov b)" using law Ok by (auto simp: readv_law_def)
  have w: "vec_write (writerIndex b) (take ?n d) (buf b)
      = Inr (take (writerIndex b) (buf b) @ take ?n d @ drop (writerIndex b + length (take ?n d)) (buf b))"
    using bounds(2) inv unfolding Buffer_inv_def by (intro vec_write_fits) auto
  show ?thesis
  proof (cases "length d \<le> ?n")
    case True
    with w cap Ok show ?thesis by (simp add: readFd_def sys_readv_def Let_def)
  next
    case False
    let ?v = "take (writerIndex b) (buf b) @ take ?n d"
    have fits: "writerIndex b + length (take ?n d) = length (buf b)"
      using False bounds(2) inv by (simp add: Buffer_inv_def)
    have inv2: "Buffer_inv (b\<lparr>buf := ?v, writerIndex := length ?v\<rparr>)"
      and c2: "Buffer_content (b\<lparr>buf := ?v, writerIndex := length ?v\<rparr>) = Buffer_content b @ take ?n d"
      using store_at_writer [OF inv eq_refl [OF fits] refl] fits inv by (simp_all add: Buffer_inv_def)
    have small: "?n < extrabuf_size" "length d \<le> ?n + extrabuf_size"
      using cap False by (auto simp: sum_readFd_iov split: if_splits)
    have "length (Buffer_content b @ take ?n d) + 2 * length (drop ?n d) + 8 \<le> max_size"
      using small room by simp
    then have "\<exists>c. Buffer_append (drop ?n d) (b\<lparr>buf := ?v, writerIndex := length ?v\<rparr>) = Inr c"
      using Buffer_append_total [OF inv2] c2 by simp
    with False w cap Ok fits show ?thesis by (auto simp: readFd_def sys_readv_def Let_def)
  qed
qed

lemma readFd_error:
  assumes inv: "Buffer_inv b" and law: "readv_law K" and r: "readFd K f b w = Inl e"
  shows "e = Length_error"
proof (cases "k_readv K (ktrace w) f (readFd_iov b)")
  case (Fail e)
  then show ?thesis using r by (simp add: readFd_fail)
next
  case (Ok d)
  note bounds = Buffer_inv_bounds [OF inv]
  let ?n = "writableBytes b" and ?v = "take (writerIndex b) (buf b) @ take (writableBytes b) d"
  have cap: "length d \<le> sum_list (readFd_iov b)" using law Ok by (auto simp: readv_law_def)
  have w: "vec_write (writerIndex b) (take ?n d) (buf b)
      = Inr (take (writerIndex b) (buf b) @ take ?n d @ drop (writerIndex b + length (take ?n d)) (buf b))"
    using bounds(2) inv unfolding Buffer_inv_def by (intro vec_write_fits) auto
  have big: "?n < length d"
    using w cap Ok r by (rule_tac ccontr) (simp add: readFd_def sys_readv_def Let_def)
  then have fits: "writerIndex b + length (take ?n d) = length (buf b)" using bounds(2) inv by (simp add: Buffer_inv_def)
  then have inv2: "Buffer_inv (b\<lparr>buf := ?v, writerIndex := length ?v\<rparr>)"
    using store_at_writer [OF inv eq_refl [OF fits] refl] inv by (simp_all add: Buffer_inv_def)
  have "length (drop ?n d) \<le> extrabuf_size" using cap big by (auto simp: sum_readFd_iov split: if_splits)
  then have "length (drop ?n d) \<le> max_size" by (simp add: extrabuf_size_def max_size_def)
  moreover have "Buffer_append (drop ?n d) (b\<lparr>buf := ?v, writerIndex := length ?v\<rparr>) = Inl e"
    using r w cap Ok fits big
    by (cases "Buffer_append (drop ?n d) (b\<lparr>buf := ?v, writerIndex := length ?v\<rparr>)") (auto simp: readFd_def sys_readv_def Let_def)
  ultimately show ?thesis using Buffer_append_error [OF inv2] by blast
qed

text \<open>
  C18: whatever the kernel delivers to \<open>readFd\<close>, through the buffer's free space or the 64 KiB stack
  buffer, ends up at the end of the readable bytes, in order and complete; on an error the buffer is
  unchanged and the error number is stored.  Below 64 KiB of free space one call takes less than
  128 KiB.
\<close>

theorem readFd_correct:
  assumes "Buffer_inv b" "readv_law K" "length (Buffer_content b) + 4 * extrabuf_size + 8 \<le> max_size"
  shows "\<exists>ret err b' w'. readFd K fd b w = Inr (ret, err, b', w') \<and> Buffer_inv b'
    \<and> Buffer_content b' = Buffer_content b @ drop (length (delivered fd (ktrace w))) (delivered fd (ktrace w'))
    \<and> (case k_readv K (ktrace w) fd (readFd_iov b) of
         Ok d \<Rightarrow> err = None \<and> Buffer_content b' = Buffer_content b @ d
           \<and> (writableBytes b < extrabuf_size \<longrightarrow> length d < 2 * extrabuf_size)
       | Fail e \<Rightarrow> err = Some e \<and> b' = b)"
proof (cases "k_readv K (ktrace w) fd (readFd_iov b)")
  case (Fail e)
  with assms(1) show ?thesis by (simp add: readFd_fail record_event_def)
next
  case (Ok d)
  obtain r err b' w' where r: "readFd K fd b w = Inr (r, err, b', w')"
    using readFd_total [OF assms, of fd w] by auto
  have "length d \<le> sum_list (readFd_iov b)" using assms(2) Ok by (auto simp: readv_law_def)
  then have "writableBytes b < extrabuf_size \<longrightarrow> length d < 2 * extrabuf_size"
    by (auto simp: sum_readFd_iov)
  with readFd_spec [OF assms(1,2) Ok r] r Ok show ?thesis by (auto simp: record_event_def)
qed

theorem readFd_correct_witness:
  "\<exists>ret err b' w'. readFd (plain_kernel 4 ''hi'') 5 Buffer_default
      \<lparr>ktrace = [], logger_of = Logger_initial, cur_tid = 1\<rparr> = Inr (ret, err, b', w')
    \<and> Buffer_content b' = ''hi''"
proof -
  have "2 \<le> sum_list (readFd_iov Buffer_default)" by (simp add: sum_readFd_iov extrabuf_size_def)
  then have "k_readv (plain_kernel 4 ''hi'') tr 5 (readFd_iov Buffer_default) = Ok ''hi''" for tr
    by (simp add: plain_kernel_def)
  then show ?thesis
    using readFd_correct [OF Buffer_default_inv, of "plain_kernel 4 ''hi''" 5
        "\<lparr>ktrace = [], logger_of = Logger_initial, cur_tid = 1\<rparr>"]
    by (auto simp: extrabuf_size_def max_size_def)
qed

end
