(* ===== verification/TcpConnection.thy ===== *)
theory TcpConnection
  imports Acceptor Buffer
begin

text \<open>
  \<^verbatim>\<open>TcpConnection.h\<close>, \<^verbatim>\<open>TcpConnection.cc\<close>.  The channel of connection \<open>c\<close> is \<open>ConnChan c\<close>.  The user's
  callbacks are a parameter (\<open>user\<close>): any functions on the world, which the properties restrict to
  sequences of calls to the library (\<open>api_run\<close>).  What the close callback does is the parameter
  \<open>run_close\<close>.  The strings of the callers of \<open>send\<close> live in \<open>strings\<close>, so that a pointer to one may
  outlive it; \<open>live\<close> are the connections that have been constructed and not yet destroyed.
\<close>

section \<open>State\<close>

datatype StateE = kDisconnected | kConnecting | kConnected | kDisconnecting

fun StateE_num :: "StateE \<Rightarrow> int" where
  "StateE_num kDisconnected = 0"
| "StateE_num kConnecting = 1"
| "StateE_num kConnected = 2"
| "StateE_num kDisconnecting = 3"

datatype CloseCallback = Bind_TcpServer_removeConnection

record TcpConnection =
  tc_loop :: loop_id
  tc_name :: string
  tc_state :: StateE
  tc_reading :: bool
  tc_socket :: Socket
  tc_localAddr :: InetAddress
  tc_peerAddr :: InetAddress
  tc_connectionCallback :: "user_fun option"
  tc_messageCallback :: "user_fun option"
  tc_writeCompeleteCallback :: "user_fun option"
  tc_closeCallback :: "CloseCallback option"
  tc_highWaterMarkCallback :: "user_fun option"
  tc_highWaterMark :: nat
  tc_inputBuffer :: Buffer
  tc_outputBuffer :: Buffer

record tworld = lworld +
  conns :: "conn_id \<Rightarrow> TcpConnection"
  live :: "conn_id set"
  strings :: "nat \<rightharpoonup> string"
  next_string :: nat

record 'w user =
  u_connection :: "user_fun \<Rightarrow> conn_id \<Rightarrow> 'w \<Rightarrow> 'w res"
  u_message :: "user_fun \<Rightarrow> conn_id \<Rightarrow> timestamp \<Rightarrow> 'w \<Rightarrow> 'w res"
  u_writeComplete :: "user_fun \<Rightarrow> conn_id \<Rightarrow> 'w \<Rightarrow> 'w res"
  u_highWaterMark :: "user_fun \<Rightarrow> conn_id \<Rightarrow> nat \<Rightarrow> 'w \<Rightarrow> 'w res"
  u_functor :: "user_fun \<Rightarrow> 'w \<Rightarrow> 'w res"
  u_threadInit :: "user_fun \<Rightarrow> loop_id \<Rightarrow> 'w \<Rightarrow> 'w res"

definition map_conn :: "conn_id \<Rightarrow> (TcpConnection \<Rightarrow> TcpConnection) \<Rightarrow> 'z tworld_scheme \<Rightarrow> 'z tworld_scheme" where
  "map_conn c f w = w\<lparr>conns := (conns w)(c := f (conns w c))\<rparr>"

section \<open>Construction and destruction\<close>

text \<open>\<open>None\<close> is a null pointer.\<close>

definition CheckLoopNotNull :: "loop_id option \<Rightarrow> loop_id res" where
  "CheckLoopNotNull loop = (case loop of
     None \<Rightarrow> LOG_FATAL ''%s:%s:%d mainLoop is null \<newline>'' | Some l \<Rightarrow> Inr l)"

definition TcpConnection_ctor ::
    "kernel \<Rightarrow> conn_id \<Rightarrow> loop_id option \<Rightarrow> string \<Rightarrow> fd \<Rightarrow> InetAddress \<Rightarrow> InetAddress
     \<Rightarrow> 'z tworld_scheme \<Rightarrow> 'z tworld_scheme res" where
  "TcpConnection_ctor K c loop nameArg sockfd localAddr peerAddr w =
     bindE (CheckLoopNotNull loop) (\<lambda>l.
     let w = map_conn c (\<lambda>t. \<lparr>tc_loop = l, tc_name = nameArg, tc_state = kConnecting, tc_reading = True,
               tc_socket = sockfd, tc_localAddr = localAddr, tc_peerAddr = peerAddr,
               tc_connectionCallback = None, tc_messageCallback = None, tc_writeCompeleteCallback = None,
               tc_closeCallback = None, tc_highWaterMarkCallback = None,
               tc_highWaterMark = 64 * 1024 * 1024,
               tc_inputBuffer = Buffer_default, tc_outputBuffer = Buffer_default\<rparr>) w;
         w = map_chan (ConnChan c) (\<lambda>ch. (Channel_ctor l sockfd)
               \<lparr>ch_readCallback := Some (Bind_TcpConnection_handleRead c),
                ch_writeCallback := Some (Bind_TcpConnection_handleWrite c),
                ch_closeCallback := Some (Bind_TcpConnection_handleClose c),
                ch_errorCallback := Some (Bind_TcpConnection_handleError c)\<rparr>) w;
         w = LOG K INFO ''TcpConnection::ctor[%s] at fd=%d \<newline>'' [AStr (c_str nameArg), AInt sockfd] w;
         w = Socket_setKeepAlive True sockfd w
     in Inr (w\<lparr>live := insert c (live w)\<rparr>))"

text \<open>The log line, then the members: the socket closes its descriptor.\<close>

definition TcpConnection_dtor :: "kernel \<Rightarrow> conn_id \<Rightarrow> 'z tworld_scheme \<Rightarrow> 'z tworld_scheme" where
  "TcpConnection_dtor K c w =
     (let w = LOG K INFO ''TcpConnection::dtor[%s] at fd=%d state=%d \<newline>''
                [AStr (c_str (tc_name (conns w c))), AInt (ch_fd (chans w (ConnChan c))),
                 AInt (StateE_num (tc_state (conns w c)))] w;
          w = Socket_dtor (tc_socket (conns w c)) w
      in w\<lparr>live := live w - {c}\<rparr>)"

definition connected :: "TcpConnection \<Rightarrow> bool" where
  "connected t \<longleftrightarrow> tc_state t = kConnected"

definition setState :: "StateE \<Rightarrow> TcpConnection \<Rightarrow> TcpConnection" where
  "setState s t = t\<lparr>tc_state := s\<rparr>"

definition setConnectionCallback :: "user_fun option \<Rightarrow> TcpConnection \<Rightarrow> TcpConnection" where
  "setConnectionCallback cb t = t\<lparr>tc_connectionCallback := cb\<rparr>"

definition setMessageCallback :: "user_fun option \<Rightarrow> TcpConnection \<Rightarrow> TcpConnection" where
  "setMessageCallback cb t = t\<lparr>tc_messageCallback := cb\<rparr>"

definition setWriteCompleteCallback :: "user_fun option \<Rightarrow> TcpConnection \<Rightarrow> TcpConnection" where
  "setWriteCompleteCallback cb t = t\<lparr>tc_writeCompeleteCallback := cb\<rparr>"

definition setCloseCallback :: "CloseCallback option \<Rightarrow> TcpConnection \<Rightarrow> TcpConnection" where
  "setCloseCallback cb t = t\<lparr>tc_closeCallback := cb\<rparr>"

definition setHighWaterMarkCallback :: "user_fun option \<Rightarrow> nat \<Rightarrow> TcpConnection \<Rightarrow> TcpConnection" where
  "setHighWaterMarkCallback cb highWaterMark t =
     t\<lparr>tc_highWaterMarkCallback := cb, tc_highWaterMark := highWaterMark\<rparr>"

section \<open>Sending\<close>

text \<open>
  The direct write of \<open>sendInLoop\<close>: what it wrote, what remains, whether the connection is broken, and
  the world.
\<close>

definition write_now ::
    "kernel \<Rightarrow> conn_id \<Rightarrow> bytes \<Rightarrow> 'z tworld_scheme \<Rightarrow> nat \<times> nat \<times> bool \<times> 'z tworld_scheme" where
  "write_now K c data w =
     (let (r, w) = sys_write K (ch_fd (chans w (ConnChan c))) data w
      in case r of
        Ok nwrote \<Rightarrow>
          (let remaining = size_sub (length data) nwrote
           in (nwrote, remaining, False,
               case tc_writeCompeleteCallback (conns w c) of
                 Some u \<Rightarrow> if remaining = 0
                           then queueInLoop K (tc_loop (conns w c)) (Bind_writeComplete u c) w else w
               | None \<Rightarrow> w))
      | Fail errno \<Rightarrow>
          if errno \<noteq> EWOULDBLOCK
          then (0, length data, errno = EPIPE \<or> errno = ECONNRESET, LOG K ERROR ''TcpConnection::sendInLoop'' [] w)
          else (0, length data, False, w))"

text \<open>The high-water mark: its callback is queued when the unsent bytes come to reach it.\<close>

definition mark_high_water :: "kernel \<Rightarrow> conn_id \<Rightarrow> nat \<Rightarrow> nat \<Rightarrow> 'z tworld_scheme \<Rightarrow> 'z tworld_scheme" where
  "mark_high_water K c oldLen remaining w = (case tc_highWaterMarkCallback (conns w c) of
     Some u \<Rightarrow> if tc_highWaterMark (conns w c) \<le> size_add oldLen remaining \<and> oldLen < tc_highWaterMark (conns w c)
               then queueInLoop K (tc_loop (conns w c)) (Bind_highWaterMark u c (size_add oldLen remaining)) w
               else w
   | None \<Rightarrow> w)"

text \<open>Buffering what remains: the high-water mark, the append, and the interest in writability.\<close>

definition buffer_rest ::
    "kernel \<Rightarrow> conn_id \<Rightarrow> bytes \<Rightarrow> nat \<Rightarrow> nat \<Rightarrow> 'z tworld_scheme \<Rightarrow> 'z tworld_scheme res" where
  "buffer_rest K c data nwrote remaining w =
     (let oldLen = readableBytes (tc_outputBuffer (conns w c));
          w = mark_high_water K c oldLen remaining w
      in bindE (vec_read nwrote remaining data) (\<lambda>d.
         bindE (Buffer_append d (tc_outputBuffer (conns w c))) (\<lambda>b.
         let w = map_conn c (\<lambda>t. t\<lparr>tc_outputBuffer := b\<rparr>) w
         in if \<not> isWriting (chans w (ConnChan c)) then enablewriting K (ConnChan c) w else Inr w)))"

definition sendInLoop :: "kernel \<Rightarrow> conn_id \<Rightarrow> bytes \<Rightarrow> 'z tworld_scheme \<Rightarrow> 'z tworld_scheme res" where
  "sendInLoop K c data w =
     (if tc_state (conns w c) = kDisconnected
      then Inr (LOG K ERROR ''disconnected, give up writing!'' [] w)
      else
        (let (nwrote, remaining, faultError, w) =
           (if \<not> isWriting (chans w (ConnChan c)) \<and> readableBytes (tc_outputBuffer (conns w c)) = 0
            then write_now K c data w else (0, length data, False, w))
         in if \<not> faultError \<and> 0 < remaining then buffer_rest K c data nwrote remaining w else Inr w))"

definition shutdownInLoop :: "kernel \<Rightarrow> conn_id \<Rightarrow> 'z tworld_scheme \<Rightarrow> 'z tworld_scheme" where
  "shutdownInLoop K c w =
     (if \<not> isWriting (chans w (ConnChan c)) then Socket_shutdownWrite K (tc_socket (conns w c)) w else w)"

text \<open>
  The two functors bound to a raw \<^verbatim>\<open>this\<close>, the first also to a raw pointer into the caller's string.
\<close>

fun run_raw :: "kernel \<Rightarrow> Functor \<Rightarrow> 'z tworld_scheme \<Rightarrow> 'z tworld_scheme res" where
  "run_raw K (Bind_sendInLoop c p len) w =
     (if c \<notin> live w then Inl Use_after_free
      else case strings w p of
        None \<Rightarrow> Inl Use_after_free
      | Some s \<Rightarrow> bindE (vec_read 0 len s) (\<lambda>data. sendInLoop K c data w))"
| "run_raw K (Bind_shutdownInLoop c) w =
     (if c \<notin> live w then Inl Use_after_free else Inr (shutdownInLoop K c w))"
| "run_raw K _ w = Inr w"

text \<open>\<open>send\<close> of the string at address \<open>p\<close>.\<close>

definition TcpConnection_send :: "kernel \<Rightarrow> conn_id \<Rightarrow> nat \<Rightarrow> 'z tworld_scheme \<Rightarrow> 'z tworld_scheme res" where
  "TcpConnection_send K c p w =
     (case strings w p of
        None \<Rightarrow> Inl Use_after_free
      | Some s \<Rightarrow>
          if tc_state (conns w c) = kConnected
          then if isInLoopThread (tc_loop (conns w c)) w then sendInLoop K c s w
               else runInLoop K (run_raw K) (tc_loop (conns w c)) (Bind_sendInLoop c p (length s)) w
          else Inr w)"

definition TcpConnection_shutdown :: "kernel \<Rightarrow> conn_id \<Rightarrow> 'z tworld_scheme \<Rightarrow> 'z tworld_scheme res" where
  "TcpConnection_shutdown K c w =
     (if tc_state (conns w c) = kConnected
      then (let w = map_conn c (setState kDisconnecting) w
            in runInLoop K (run_raw K) (tc_loop (conns w c)) (Bind_shutdownInLoop c) w)
      else Inr w)"

section \<open>Establishing and destroying\<close>

text \<open>Calling the connection callback; an empty \<^verbatim>\<open>std::function\<close> throws.\<close>

definition call_connection :: "'z tworld_scheme user \<Rightarrow> conn_id \<Rightarrow> 'z tworld_scheme \<Rightarrow> 'z tworld_scheme res" where
  "call_connection U c w = (case tc_connectionCallback (conns w c) of
     None \<Rightarrow> Inl Bad_function_call | Some u \<Rightarrow> u_connection U u c w)"

definition connectEstablished ::
    "kernel \<Rightarrow> 'z tworld_scheme user \<Rightarrow> conn_id \<Rightarrow> 'z tworld_scheme \<Rightarrow> 'z tworld_scheme res" where
  "connectEstablished K U c w =
     (let w = map_conn c (setState kConnected) w;
          w = map_chan (ConnChan c) (Channel_tie c) w
      in bindE (enableReading K (ConnChan c) w) (call_connection U c))"

definition connectDestroyed ::
    "kernel \<Rightarrow> 'z tworld_scheme user \<Rightarrow> conn_id \<Rightarrow> 'z tworld_scheme \<Rightarrow> 'z tworld_scheme res" where
  "connectDestroyed K U c w =
     bindE (if tc_state (conns w c) = kConnected
            then bindE (disableAll K (ConnChan c) (map_conn c (setState kDisconnected) w)) (call_connection U c)
            else Inr w)
       (Channel_remove K (ConnChan c))"

section \<open>Events\<close>

definition handleClose ::
    "kernel \<Rightarrow> 'z tworld_scheme user \<Rightarrow> (CloseCallback \<Rightarrow> conn_id \<Rightarrow> 'z tworld_scheme \<Rightarrow> 'z tworld_scheme res)
     \<Rightarrow> conn_id \<Rightarrow> 'z tworld_scheme \<Rightarrow> 'z tworld_scheme res" where
  "handleClose K U run_close c w =
     (let w = LOG K INFO ''fd=%d state=%d \<newline>'' [AInt (ch_fd (chans w (ConnChan c))),
                AInt (StateE_num (tc_state (conns w c)))] w;
          w = map_conn c (setState kDisconnected) w
      in bindE (disableAll K (ConnChan c) w) (\<lambda>w.
         bindE (call_connection U c w) (\<lambda>w.
         case tc_closeCallback (conns w c) of
           None \<Rightarrow> Inl Bad_function_call
         | Some cb \<Rightarrow> run_close cb c w)))"

definition handleError :: "kernel \<Rightarrow> conn_id \<Rightarrow> 'z tworld_scheme \<Rightarrow> 'z tworld_scheme" where
  "handleError K c w =
     (let (r, w) = sys_getsockopt K (ch_fd (chans w (ConnChan c))) w;
          err = (case r of Fail errno \<Rightarrow> errno | Ok v \<Rightarrow> v)
      in LOG K ERROR ''TcpConnection::handleError name:%s - SO_ERROR:%d \<newline>''
           [AStr (c_str (tc_name (conns w c))), AInt err] w)"

definition handleRead ::
    "kernel \<Rightarrow> 'z tworld_scheme user \<Rightarrow> (CloseCallback \<Rightarrow> conn_id \<Rightarrow> 'z tworld_scheme \<Rightarrow> 'z tworld_scheme res)
     \<Rightarrow> conn_id \<Rightarrow> timestamp \<Rightarrow> 'z tworld_scheme \<Rightarrow> 'z tworld_scheme res" where
  "handleRead K U run_close c receiveTime w =
     bindE (readFd K (ch_fd (chans w (ConnChan c))) (tc_inputBuffer (conns w c)) w) (\<lambda>(n, savedErrno, b, w).
     let w = map_conn c (\<lambda>t. t\<lparr>tc_inputBuffer := b\<rparr>) w
     in if 0 < n
        then (case tc_messageCallback (conns w c) of
                None \<Rightarrow> Inl Bad_function_call
              | Some u \<Rightarrow> u_message U u c receiveTime w)
        else if n = 0 then handleClose K U run_close c w
        else Inr (handleError K c (LOG K ERROR ''TcpConnection::handleRead'' [] w)))"

definition handleWrite :: "kernel \<Rightarrow> conn_id \<Rightarrow> 'z tworld_scheme \<Rightarrow> 'z tworld_scheme res" where
  "handleWrite K c w =
     (if isWriting (chans w (ConnChan c))
      then bindE (writeFd K (ch_fd (chans w (ConnChan c))) (tc_outputBuffer (conns w c)) w) (\<lambda>(r, w).
        case r of
          Fail e \<Rightarrow> Inr w
        | Ok n \<Rightarrow>
            if 0 < n
            then (let w = map_conn c (\<lambda>t. t\<lparr>tc_outputBuffer := retrieve n (tc_outputBuffer t)\<rparr>) w
              in if readableBytes (tc_outputBuffer (conns w c)) = 0
                 then bindE (disableWriting K (ConnChan c) w) (\<lambda>w.
                   let w = (case tc_writeCompeleteCallback (conns w c) of
                              Some u \<Rightarrow> queueInLoop K (tc_loop (conns w c)) (Bind_writeComplete u c) w
                            | None \<Rightarrow> w)
                   in Inr (if tc_state (conns w c) = kDisconnecting then shutdownInLoop K c w else w))
                 else Inr (LOG K ERROR ''TcpConnection::handleWrite'' [] w))
            else Inr w)
      else Inr (LOG K ERROR ''TcpConnection fd=%d is down, no more writing \<newline>''
             [AInt (ch_fd (chans w (ConnChan c)))] w))"

section \<open>Frames\<close>

lemma tworld_more:
  assumes "lworld.more w' = lworld.more w"
  shows "conns w' = conns w" "live w' = live w" "strings w' = strings w" "next_string w' = next_string w" "tworld.more w' = tworld.more w"
  using assms by (cases w; cases w'; simp)+

lemma map_conn_simps [simp]:
  "conns (map_conn c f w) c = f (conns w c)" "d \<noteq> c \<Longrightarrow> conns (map_conn c f w) d = conns w d"
  "chans (map_conn c f w) = chans w" "ktrace (map_conn c f w) = ktrace w" "loops (map_conn c f w) = loops w"
  "cur_tid (map_conn c f w) = cur_tid w" "loopInThread (map_conn c f w) = loopInThread w"
  "live (map_conn c f w) = live w" "strings (map_conn c f w) = strings w"
  "next_string (map_conn c f w) = next_string w"
  "tworld.more (map_conn c f w) = tworld.more w" "logger_of (map_conn c f w) = logger_of w"
  by (simp_all add: map_conn_def)

lemma LOG_tworld [simp]:
  "conns (LOG K lv fmt args w) = conns w" "live (LOG K lv fmt args w) = live w" "strings (LOG K lv fmt args w) = strings w"
  "next_string (LOG K lv fmt args w) = next_string w" "tworld.more (LOG K lv fmt args w) = tworld.more w"
  by (simp_all add: LOG_def)

lemma record_event_tworld [simp]:
  "conns (record_event e w) = conns w" "live (record_event e w) = live w" "strings (record_event e w) = strings w"
  "next_string (record_event e w) = next_string w" "tworld.more (record_event e w) = tworld.more w"
  by (simp_all add: record_event_def)

lemma map_chan_tworld [simp]:
  "conns (map_chan ch f w) = conns w" "live (map_chan ch f w) = live w" "strings (map_chan ch f w) = strings w"
  "next_string (map_chan ch f w) = next_string w" "tworld.more (map_chan ch f w) = tworld.more w"
  by (simp_all add: map_chan_def)

lemma queueInLoop_tworld [simp]:
  "conns (queueInLoop K l cb w) = conns w" "live (queueInLoop K l cb w) = live w" "strings (queueInLoop K l cb w) = strings w"
  "next_string (queueInLoop K l cb w) = next_string w" "tworld.more (queueInLoop K l cb w) = tworld.more w"
  "chans (queueInLoop K l cb w) = chans w" "cur_tid (queueInLoop K l cb w) = cur_tid w"
  by (simp_all add: tworld_more [OF queueInLoop_spec(5)] queueInLoop_spec(2,3))

definition pending :: "conn_id \<Rightarrow> 'z tworld_scheme \<Rightarrow> bytes" where
  "pending c w = Buffer_content (tc_outputBuffer (conns w c))"

definition conn_fd :: "conn_id \<Rightarrow> 'z tworld_scheme \<Rightarrow> fd" where
  "conn_fd c w = ch_fd (chans w (ConnChan c))"

text \<open>
  An operation on connection \<open>c\<close>: it leaves the other connections and channels alone, keeps the
  identity of \<open>c\<close> and of its channel, and keeps \<open>loop_frame\<close> of every loop.
\<close>

definition conn_ident :: "TcpConnection \<Rightarrow> TcpConnection" where
  "conn_ident t = t\<lparr>tc_state := kConnecting, tc_inputBuffer := Buffer_default, tc_outputBuffer := Buffer_default\<rparr>"

definition chan_ident :: "Channel \<Rightarrow> Channel" where
  "chan_ident c = c\<lparr>ch_events := 0, ch_index := 0\<rparr>"

definition same_conn :: "TcpConnection \<Rightarrow> TcpConnection \<Rightarrow> bool" where
  "same_conn t t' \<longleftrightarrow> conn_ident t' = conn_ident t"

definition same_chan :: "Channel \<Rightarrow> Channel \<Rightarrow> bool" where
  "same_chan c d \<longleftrightarrow> chan_ident d = chan_ident c"

lemma same_connD:
  assumes "same_conn t t'"
  shows "tc_loop t' = tc_loop t" "tc_name t' = tc_name t" "tc_socket t' = tc_socket t"
    "tc_writeCompeleteCallback t' = tc_writeCompeleteCallback t" "tc_closeCallback t' = tc_closeCallback t"
    "tc_connectionCallback t' = tc_connectionCallback t" "tc_highWaterMark t' = tc_highWaterMark t"
  using assms by (cases t; cases t'; simp add: same_conn_def conn_ident_def)+

lemma same_chanD:
  assumes "same_chan c d"
  shows "ch_fd d = ch_fd c" "ch_loop d = ch_loop c" "same_dispatch c d" "ch_tied d = ch_tied c" "ch_tie d = ch_tie c"
  using assms by (cases c; cases d; simp add: same_chan_def chan_ident_def same_dispatch_def)+

definition conn_frame :: "conn_id \<Rightarrow> 'z tworld_scheme \<Rightarrow> 'z tworld_scheme \<Rightarrow> bool" where
  "conn_frame c w w' \<longleftrightarrow> (\<forall>ch. ch \<noteq> ConnChan c \<longrightarrow> chans w' ch = chans w ch)
     \<and> (\<forall>d. d \<noteq> c \<longrightarrow> conns w' d = conns w d) \<and> same_conn (conns w c) (conns w' c)
     \<and> same_chan (chans w (ConnChan c)) (chans w' (ConnChan c))
     \<and> live w' = live w \<and> strings w' = strings w \<and> next_string w' = next_string w \<and> tworld.more w' = tworld.more w
     \<and> (\<forall>l. loop_frame l w w')
     \<and> (\<forall>f. f \<noteq> conn_fd c w \<and> (\<forall>l. el_wakeupFd (loops w l) \<noteq> f) \<longrightarrow> written f (ktrace w') = written f (ktrace w))"

lemma same_conn_refl [simp]: "same_conn t t"
  by (simp add: same_conn_def)

lemma same_conn_trans: "same_conn s t \<Longrightarrow> same_conn t u \<Longrightarrow> same_conn s u"
  by (simp add: same_conn_def)

lemma same_chan_refl [simp]: "same_chan c c"
  by (simp add: same_chan_def)

lemma same_chan_trans: "same_chan c d \<Longrightarrow> same_chan d e \<Longrightarrow> same_chan c e"
  by (simp add: same_chan_def)

lemma conn_frame_refl [simp]: "conn_frame c w w"
  by (simp add: conn_frame_def)

lemma conn_frame_trans:
  assumes "conn_frame c u v" "conn_frame c v w"
  shows "conn_frame c u w"
proof -
  have "conn_fd c v = conn_fd c u"
    using same_chanD(1) assms(1) unfolding conn_frame_def conn_fd_def by blast
  moreover have "el_wakeupFd (loops v l) = el_wakeupFd (loops u l)" for l
    using assms(1) unfolding conn_frame_def loop_frame_def by blast
  ultimately have "written f (ktrace w) = written f (ktrace u)"
    if "f \<noteq> conn_fd c u" "\<forall>l. el_wakeupFd (loops u l) \<noteq> f" for f
    using assms that unfolding conn_frame_def by auto
  then show ?thesis
    using assms unfolding conn_frame_def by (auto intro: same_conn_trans same_chan_trans loop_frame_trans)
qed

lemma same_conn_updates [simp]:
  "same_conn t (setState s t)" "same_conn t (t\<lparr>tc_inputBuffer := b\<rparr>)" "same_conn t (t\<lparr>tc_outputBuffer := b\<rparr>)"
  by (simp_all add: same_conn_def setState_def conn_ident_def)

lemma same_chan_updates [simp]:
  "same_chan c (set_index i (read_on c))" "same_chan c (set_index i (read_off c))"
  "same_chan c (set_index i (write_on c))" "same_chan c (set_index i (write_off c))"
  "same_chan c (set_index i (all_off c))" "same_chan c (set_index i c)"
  by (simp_all add: same_chan_def chan_ident_def set_index_def read_on_def read_off_def write_on_def
      write_off_def all_off_def)

lemma loop_frame_conn [simp, frames]: "loop_frame l w (map_conn c f w)"
  by (rule loop_frame_same) auto

lemma conn_frame_conn:
  assumes "same_conn (conns w c) (f (conns w c))"
  shows "conn_frame c w (map_conn c f w)"
  using assms by (simp add: conn_frame_def)

lemma conn_frame_LOG [simp]: "conn_frame c w (LOG K lv fmt args w)"
  by (simp add: conn_frame_def)

lemma written_by_other [simp]: "g \<noteq> f \<Longrightarrow> written_by f (EvWrite g d r) = []"
  by (cases r) simp_all

lemma queueInLoop_written:
  assumes "el_wakeupFd (loops w l) \<noteq> f"
  shows "written f (ktrace (queueInLoop K l cb w)) = written f (ktrace w)"
    "delivered f (ktrace (queueInLoop K l cb w)) = delivered f (ktrace w)"
  using queueInLoop_spec(6) [where K = K and l = l and cb = cb and w = w] assms
  by (auto split: if_splits sysret.splits)

lemma conn_frame_record:
  assumes "\<And>f. conn_fd c w \<noteq> f \<Longrightarrow> written_by f e = []"
  shows "conn_frame c w (record_event e w)"
  using assms by (auto simp: conn_frame_def)

lemma conn_frame_queue [simp]: "conn_frame c w (queueInLoop K l cb w)"
  by (simp add: conn_frame_def queueInLoop_written)

lemma conn_frame_steps [simp]:
  "conn_frame c u w \<Longrightarrow> conn_frame c u (LOG K lv fmt args w)"
  "conn_frame c u w \<Longrightarrow> conn_frame c u (record_event (EvWrite (conn_fd c w) d r) w)"
  "conn_frame c u w \<Longrightarrow> conn_frame c u (record_event (EvWrite (ch_fd (chans w (ConnChan c))) d r) w)"
  "conn_frame c u w \<Longrightarrow> conn_frame c u (record_event (EvReadv g iov rr) w)"
  "conn_frame c u w \<Longrightarrow> conn_frame c u (record_event (EvShutdown g rs) w)"
  "conn_frame c u w \<Longrightarrow> conn_frame c u (record_event (EvGetsockopt g ro) w)"
  "conn_frame c u w \<Longrightarrow> conn_frame c u (queueInLoop K l cb w)"
  "conn_frame c u w \<Longrightarrow> conn_frame c u (map_conn c (setState s) w)"
  "conn_frame c u w \<Longrightarrow> conn_frame c u (map_conn c (\<lambda>t. t\<lparr>tc_inputBuffer := f t\<rparr>) w)"
  "conn_frame c u w \<Longrightarrow> conn_frame c u (map_conn c (\<lambda>t. t\<lparr>tc_outputBuffer := f t\<rparr>) w)"
  by (rule conn_frame_trans, assumption,
      ((simp add: conn_frame_conn; fail) | (rule conn_frame_record, simp add: conn_fd_def; fail)))+

lemma conn_frame_channel_op:
  assumes "channel_op f (ConnChan c) w w'" "\<And>i. same_chan (chans w (ConnChan c)) (set_index i (f (chans w (ConnChan c))))"
  shows "conn_frame c w w'"
  using assms tworld_more [OF channel_opD(5) [OF assms(1)]] channel_opD(6,7) [OF assms(1)]
  by (auto simp: conn_frame_def loop_frame_channel_op channel_opD(2) [OF assms(1)])

lemmas conn_frame_ops =
  conn_frame_channel_op [OF channel_ops(1) same_chan_updates(1)]
  conn_frame_channel_op [OF channel_ops(2) same_chan_updates(2)]
  conn_frame_channel_op [OF channel_ops(3) same_chan_updates(3)]
  conn_frame_channel_op [OF channel_ops(4) same_chan_updates(4)]
  conn_frame_channel_op [OF channel_ops(5) same_chan_updates(5)]

lemma conn_frame_remove: "Channel_remove K (ConnChan c) w = Inr w' \<Longrightarrow> conn_frame c w w'"
  by (rule conn_frame_channel_op [OF Channel_remove_op]) auto

lemma conn_frameD:
  assumes "conn_frame c w w'"
  shows "conn_fd d w' = conn_fd d w" "ch_loop (chans w' ch) = ch_loop (chans w ch)"
    "tc_loop (conns w' d) = tc_loop (conns w d)" "tc_socket (conns w' d) = tc_socket (conns w d)"
    "tc_writeCompeleteCallback (conns w' d) = tc_writeCompeleteCallback (conns w d)"
    "loop_frame l w w'" "el_wakeupFd (loops w' l) = el_wakeupFd (loops w l)"
    "ch_fd (chans w' ch) = ch_fd (chans w ch)"
proof -
  have conn: "same_conn (conns w d) (conns w' d)"
    using assms by (cases "d = c") (auto simp: conn_frame_def)
  have chan: "same_chan (chans w k) (chans w' k)" for k
    using assms by (cases "k = ConnChan c") (auto simp: conn_frame_def)
  show "loop_frame l w w'" using assms by (simp add: conn_frame_def)
  then show "el_wakeupFd (loops w' l) = el_wakeupFd (loops w l)" by (simp add: loop_frame_def)
  show "conn_fd d w' = conn_fd d w" "ch_loop (chans w' ch) = ch_loop (chans w ch)"
    "ch_fd (chans w' ch) = ch_fd (chans w ch)"
    using same_chanD [OF chan [of "ConnChan d"]] same_chanD [OF chan [of ch]] by (simp_all add: conn_fd_def)
  show "tc_loop (conns w' d) = tc_loop (conns w d)" "tc_socket (conns w' d) = tc_socket (conns w d)"
    "tc_writeCompeleteCallback (conns w' d) = tc_writeCompeleteCallback (conns w d)"
    using same_connD [OF conn] by simp_all
qed

end
