(* ===== verification/ConnectionOutput.thy ===== *)
theory ConnectionOutput
  imports TcpConnection
begin

text \<open>
  What a connection sends: its output buffer, its interest in writability, the two callbacks about the
  output, and the half-close.  The bytes the kernel took followed by the unsent bytes (\<open>stream\<close>) are
  the bytes the user sent, and the write side is shut down only behind the last of them.
\<close>

section \<open>The output of a connection\<close>

text \<open>
  \<open>conn_inv\<close>: the buffers are well-formed, the channel is the connection's own, and the connection asks
  for writability exactly while it has unsent bytes (after a close only the first half holds).
\<close>

definition conn_inv :: "conn_id \<Rightarrow> 'z tworld_scheme \<Rightarrow> bool" where
  "conn_inv c w \<longleftrightarrow> Buffer_inv (tc_inputBuffer (conns w c)) \<and> Buffer_inv (tc_outputBuffer (conns w c))
     \<and> ch_fd (chans w (ConnChan c)) = tc_socket (conns w c)
     \<and> ch_loop (chans w (ConnChan c)) = tc_loop (conns w c)
     \<and> (isWriting (chans w (ConnChan c)) \<longrightarrow> pending c w \<noteq> [])
     \<and> (pending c w \<noteq> [] \<and> tc_state (conns w c) \<noteq> kDisconnected \<longrightarrow> isWriting (chans w (ConnChan c)))"

text \<open>No loop uses the connection's descriptor as its eventfd.\<close>

definition private_fd :: "conn_id \<Rightarrow> 'z tworld_scheme \<Rightarrow> bool" where
  "private_fd c w \<longleftrightarrow> (\<forall>l. el_wakeupFd (loops w l) \<noteq> conn_fd c w)"

text \<open>Everything the kernel took for the connection and what is still to be sent.\<close>

definition stream :: "conn_id \<Rightarrow> 'z tworld_scheme \<Rightarrow> bytes" where
  "stream c w = written (conn_fd c w) (ktrace w) @ pending c w"

lemma private_fd_frame: "private_fd c w \<Longrightarrow> conn_frame c' w w' \<Longrightarrow> private_fd c w'"
  using conn_frameD(1,7) [of c' w w'] by (simp add: private_fd_def)

lemma readable_pending: "Buffer_inv (tc_outputBuffer (conns w c)) \<Longrightarrow>
    readableBytes (tc_outputBuffer (conns w c)) = length (pending c w)"
  by (simp add: pending_def length_Buffer_content)

lemma length_fits: "length d \<le> max_size \<Longrightarrow> length d < 2 ^ 64"
  by (simp add: max_size_def)

lemma write_now_spec:
  assumes r: "write_now K c data w = (nw, rm, fault, w')" and len: "length data \<le> max_size" and law: "write_law K"
    and priv: "private_fd c w"
  shows "conn_frame c w w'" "conns w' = conns w" "chans w' = chans w" "nw + rm = length data"
    "written (conn_fd c w) (ktrace w') = written (conn_fd c w) (ktrace w) @ take nw data"
    "fault \<longleftrightarrow> k_write K (ktrace w) (conn_fd c w) data \<in> {Fail EPIPE, Fail ECONNRESET}"
    "fault \<longrightarrow> nw = 0"
proof -
  let ?f = "conn_fd c w" and ?u = "tc_writeCompeleteCallback (conns w c)"
  have goal: "conn_frame c w w' \<and> conns w' = conns w \<and> chans w' = chans w \<and> nw + rm = length data
    \<and> written ?f (ktrace w') = written ?f (ktrace w) @ take nw data
    \<and> (fault \<longleftrightarrow> k_write K (ktrace w) ?f data \<in> {Fail EPIPE, Fail ECONNRESET}) \<and> (fault \<longrightarrow> nw = 0)"
  proof (cases "k_write K (ktrace w) ?f data")
    case (Ok n)
    let ?v = "record_event (EvWrite ?f data (Ok n)) w"
    have n: "n \<le> length data" using law Ok by (auto simp: write_law_def)
    then have sub: "size_sub (length data) n = length data - n" using length_fits [OF len] by simp
    have res: "nw = n" "rm = length data - n" "\<not> fault"
      "w' = ?v \<or> (\<exists>cb. w' = queueInLoop K (tc_loop (conns w c)) cb ?v)"
      using r Ok sub
      by (auto simp: write_now_def sys_write_def conn_fd_def Let_def split: option.splits if_splits)
    have v: "conn_frame c w ?v" "written ?f (ktrace ?v) = written ?f (ktrace w) @ take n data" by simp_all
    have "written ?f (ktrace w') = written ?f (ktrace ?v)" "conn_frame c ?v w'" "conns w' = conns w" "chans w' = chans w"
      using res(4) priv queueInLoop_written [of ?v "tc_loop (conns w c)" ?f K]
      by (auto simp: private_fd_def)
    with v res(1-3) n Ok show ?thesis using conn_frame_trans [OF v(1)] by auto
  next
    case (Fail e)
    then show ?thesis
      using r by (auto simp: write_now_def sys_write_def conn_fd_def EWOULDBLOCK_def EPIPE_def ECONNRESET_def Let_def
          split: if_splits intro: conn_frame_trans)
  qed
  show "conn_frame c w w'" "conns w' = conns w" "chans w' = chans w" "nw + rm = length data"
    "written ?f (ktrace w') = written ?f (ktrace w) @ take nw data"
    "fault \<longleftrightarrow> k_write K (ktrace w) ?f data \<in> {Fail EPIPE, Fail ECONNRESET}" "fault \<longrightarrow> nw = 0"
    using goal by blast+
qed

lemma mark_high_water_spec:
  shows "conn_frame c w (mark_high_water K c m n w)" "conns (mark_high_water K c m n w) = conns w"
    "chans (mark_high_water K c m n w) = chans w"
  by (simp_all add: mark_high_water_def split: option.split)

lemma mark_high_water_written:
  assumes "private_fd c w"
  shows "written (conn_fd c w) (ktrace (mark_high_water K c m n w)) = written (conn_fd c w) (ktrace w)"
  using assms queueInLoop_written [of w _ "conn_fd c w" K]
  by (simp add: mark_high_water_def private_fd_def split: option.split)

lemma is_writing_index [simp]: "isWriting (set_index i c) = isWriting c"
  by (simp add: isWriting_def set_index_def)

lemma buffer_rest_spec:
  assumes r: "buffer_rest K c data nw rm w = Inr w'" and len: "length data \<le> max_size"
    and inv: "Buffer_inv (tc_outputBuffer (conns w c))" and sum: "nw + rm = length data"
    and priv: "private_fd c w"
  shows "conn_frame c w w'" "pending c w' = pending c w @ drop nw data"
    "written (conn_fd c w) (ktrace w') = written (conn_fd c w) (ktrace w)"
    "isWriting (chans w' (ConnChan c))" "Buffer_inv (tc_outputBuffer (conns w' c))"
    "tc_state (conns w' c) = tc_state (conns w c)" "tc_inputBuffer (conns w' c) = tc_inputBuffer (conns w c)"
proof -
  let ?m = "mark_high_water K c (readableBytes (tc_outputBuffer (conns w c))) rm w"
  note mark = mark_high_water_spec [where c = c and w = w and K = K and m = "readableBytes (tc_outputBuffer (conns w c))" and n = rm]
  obtain d b where d: "vec_read nw rm data = Inr d" and b: "Buffer_append d (tc_outputBuffer (conns w c)) = Inr b"
    and fin: "(if \<not> isWriting (chans ?m (ConnChan c))
        then enablewriting K (ConnChan c) (map_conn c (\<lambda>t. t\<lparr>tc_outputBuffer := b\<rparr>) ?m)
        else Inr (map_conn c (\<lambda>t. t\<lparr>tc_outputBuffer := b\<rparr>) ?m)) = Inr w'"
    using r mark(2) by (auto simp: buffer_rest_def Let_def)
  have "d = drop nw data" using d sum by (auto simp: vec_read_def split: if_splits)
  then have app: "Buffer_inv b" "Buffer_content b = pending c w @ drop nw data"
    using Buffer_append_spec [OF inv _ b] len by (auto simp: pending_def)
  let ?v = "map_conn c (\<lambda>t. t\<lparr>tc_outputBuffer := b\<rparr>) ?m"
  have v: "conn_frame c w ?v" "conns ?v c = (conns w c)\<lparr>tc_outputBuffer := b\<rparr>"
    "written (conn_fd c w) (ktrace ?v) = written (conn_fd c w) (ktrace w)"
    using mark mark_high_water_written [OF priv] by simp_all
  have fin': "conn_frame c w w' \<and> conns w' c = conns ?v c
    \<and> written (conn_fd c w) (ktrace w') = written (conn_fd c w) (ktrace ?v) \<and> isWriting (chans w' (ConnChan c))"
  proof (cases "isWriting (chans ?m (ConnChan c))")
    case True
    with fin v(1) show ?thesis by auto
  next
    case False
    with fin have e: "enablewriting K (ConnChan c) ?v = Inr w'" by simp
    note op = channel_ops(3) [OF e]
    have "conns w' = conns ?v" using tworld_more(1) [OF channel_opD(5) [OF op]] .
    then show ?thesis
      using conn_frame_trans [OF v(1) conn_frame_ops(3) [OF e]] channel_opD(2,7) [OF op] channel_bits(1)
      by auto
  qed
  with v app show "conn_frame c w w'" "pending c w' = pending c w @ drop nw data"
    "written (conn_fd c w) (ktrace w') = written (conn_fd c w) (ktrace w)"
    "isWriting (chans w' (ConnChan c))" "Buffer_inv (tc_outputBuffer (conns w' c))"
    "tc_state (conns w' c) = tc_state (conns w c)" "tc_inputBuffer (conns w' c) = tc_inputBuffer (conns w c)"
    by (auto simp: pending_def)
qed

text \<open>The data of a send that the connection refuses: it is closed, or the peer is gone.\<close>

definition refuses :: "kernel \<Rightarrow> conn_id \<Rightarrow> bytes \<Rightarrow> 'z tworld_scheme \<Rightarrow> bool" where
  "refuses K c data w \<longleftrightarrow> tc_state (conns w c) = kDisconnected
     \<or> pending c w = [] \<and> k_write K (ktrace w) (conn_fd c w) data \<in> {Fail EPIPE, Fail ECONNRESET}"

lemma sendInLoop_spec:
  assumes r: "sendInLoop K c data w = Inr w'" and inv: "conn_inv c w" and len: "length data \<le> max_size"
    and law: "write_law K" and priv: "private_fd c w"
  shows "conn_frame c w w'" "conn_inv c w'" "tc_state (conns w' c) = tc_state (conns w c)"
    "stream c w' = stream c w @ (if refuses K c data w then [] else data)"
proof -
  let ?ch = "ConnChan c" and ?f = "conn_fd c w"
  have bufs: "Buffer_inv (tc_outputBuffer (conns w c))" "Buffer_inv (tc_inputBuffer (conns w c))"
    using inv by (auto simp: conn_inv_def)
  have same_fd: "conn_fd c w' = ?f" if "conn_frame c w w'" using conn_frameD(1) [OF that] .
  have keep: "ch_fd (chans w' ?ch) = tc_socket (conns w' c) \<and> ch_loop (chans w' ?ch) = tc_loop (conns w' c)"
    if "conn_frame c w w'"
    using conn_frameD(2-4,8) [OF that] inv by (simp add: conn_inv_def)
  have goal: "conn_frame c w w' \<and> conn_inv c w' \<and> tc_state (conns w' c) = tc_state (conns w c)
    \<and> stream c w' = stream c w @ (if refuses K c data w then [] else data)"
  proof (cases "tc_state (conns w c) = kDisconnected")
    case True
    with r inv show ?thesis
      by (auto simp: sendInLoop_def stream_def refuses_def conn_inv_def pending_def conn_fd_def)
  next
    case conn: False
    have idle: "\<not> isWriting (chans w ?ch) \<and> readableBytes (tc_outputBuffer (conns w c)) = 0 \<longleftrightarrow> pending c w = []"
      using inv conn by (auto simp: conn_inv_def readable_pending)
    show ?thesis
    proof (cases "pending c w = []")
      case True
      obtain nw rm fault v where wn: "write_now K c data w = (nw, rm, fault, v)" by (metis prod_cases4)
      note spec = write_now_spec [OF wn len law priv]
      have fault: "fault \<longleftrightarrow> refuses K c data w" using spec(6) True conn by (simp add: refuses_def)
      have nowr: "\<not> isWriting (chans w ?ch)" using inv True by (auto simp: conn_inv_def)
      show ?thesis
      proof (cases "\<not> fault \<and> 0 < rm")
        case rest: True
        then have br: "buffer_rest K c data nw rm v = Inr w'"
          using r conn idle True wn by (simp add: sendInLoop_def)
        have "Buffer_inv (tc_outputBuffer (conns v c))" "private_fd c v"
          using bufs spec(2) private_fd_frame [OF priv spec(1)] by simp_all
        note out = buffer_rest_spec [OF br len this(1) spec(4) this(2)]
        have fr: "conn_frame c w w'" using conn_frame_trans [OF spec(1) out(1)] .
        have "drop nw data \<noteq> []" using rest spec(4) by auto
        moreover have "pending c v = []" using True spec(2) by (simp add: pending_def)
        moreover have "conn_fd c v = ?f" using conn_frameD(1) [OF spec(1)] .
        ultimately show ?thesis
          using fr out spec(2,5) fault rest keep [OF fr] same_fd [OF fr] inv True
          by (auto simp: conn_inv_def stream_def)
      next
        case False
        then have w': "w' = v" using r conn idle True wn by (auto simp: sendInLoop_def)
        have "take nw data = (if fault then [] else data)" using False spec(4,7) by auto
        then show ?thesis
          using spec(1-3,5) inv True w' fault same_fd [OF spec(1) [folded w']]
          by (auto simp: conn_inv_def stream_def pending_def conn_fd_def)
      qed
    next
      case False
      then have br: "if data = [] then w' = w else buffer_rest K c data 0 (length data) w = Inr w'"
        using r conn idle by (auto simp: sendInLoop_def split: if_splits)
      have nref: "\<not> refuses K c data w" using False conn by (simp add: refuses_def)
      show ?thesis
      proof (cases "data = []")
        case True
        with br inv nref show ?thesis by simp
      next
        case nonempty: False
        with br have "buffer_rest K c data 0 (length data) w = Inr w'" by simp
        note out = buffer_rest_spec [OF this len bufs(1) _ priv]
        have fr: "conn_frame c w w'" using out(1) by simp
        show ?thesis
          using fr out keep [OF fr] same_fd [OF fr] inv nonempty nref conn False
          by (auto simp: conn_inv_def stream_def)
      qed
    qed
  qed
  show "conn_frame c w w'" "conn_inv c w'" "tc_state (conns w' c) = tc_state (conns w c)"
    "stream c w' = stream c w @ (if refuses K c data w then [] else data)"
    using goal by blast+
qed

section \<open>Draining and shutting down\<close>

lemma shutdownInLoop_spec:
  shows "conn_frame c w (shutdownInLoop K d w)" "conns (shutdownInLoop K d w) = conns w"
    "chans (shutdownInLoop K d w) = chans w" "written f (ktrace (shutdownInLoop K d w)) = written f (ktrace w)"
    "loops (shutdownInLoop K d w) = loops w"
    "ktrace (shutdownInLoop K d w) = ktrace w @ (if isWriting (chans w (ConnChan d)) then []
       else [EvShutdown (tc_socket (conns w d)) (k_shutdown K (ktrace w) (tc_socket (conns w d)))])"
  by (simp_all add: shutdownInLoop_def Socket_shutdownWrite_def sys_shutdown_def Let_def split: sysret.split)

text \<open>The world of \<open>handleWrite\<close> after a successful write of \<open>n\<close> bytes.\<close>

definition wrote :: "conn_id \<Rightarrow> nat \<Rightarrow> 'z tworld_scheme \<Rightarrow> 'z tworld_scheme" where
  "wrote c n w = map_conn c (\<lambda>t. t\<lparr>tc_outputBuffer := retrieve n (tc_outputBuffer t)\<rparr>)
     (record_event (EvWrite (conn_fd c w) (pending c w) (Ok n)) w)"

lemma wrote_fields [simp]:
  "tc_state (conns (wrote c n w) d) = tc_state (conns w d)"
  "tc_inputBuffer (conns (wrote c n w) d) = tc_inputBuffer (conns w d)"
  by (simp_all add: wrote_def map_conn_def)

lemma wrote_simps [simp]:
  "conn_frame c w (wrote c n w)" "chans (wrote c n w) = chans w" "loops (wrote c n w) = loops w"
  "ktrace (wrote c n w) = ktrace w @ [EvWrite (conn_fd c w) (pending c w) (Ok n)]"
  by (simp_all add: wrote_def)

lemma wrote_pending:
  assumes "Buffer_inv (tc_outputBuffer (conns w c))"
  shows "pending c (wrote c n w) = drop n (pending c w)" "Buffer_inv (tc_outputBuffer (conns (wrote c n w) c))"
  using retrieve_spec [OF assms, of n] by (simp_all add: wrote_def pending_def)

text \<open>What \<open>handleWrite\<close> does once the output is empty.\<close>

definition drained :: "kernel \<Rightarrow> conn_id \<Rightarrow> 'z tworld_scheme \<Rightarrow> 'z tworld_scheme" where
  "drained K c w =
     (let w = (case tc_writeCompeleteCallback (conns w c) of
                 Some u \<Rightarrow> queueInLoop K (tc_loop (conns w c)) (Bind_writeComplete u c) w | None \<Rightarrow> w)
      in if tc_state (conns w c) = kDisconnecting then shutdownInLoop K c w else w)"

lemma drained_spec:
  shows "conn_frame c w (drained K c w)" "conns (drained K c w) = conns w" "chans (drained K c w) = chans w"
    and "private_fd c w \<Longrightarrow> written (conn_fd c w) (ktrace (drained K c w)) = written (conn_fd c w) (ktrace w)"
    and "tc_state (conns w c) = kDisconnecting \<Longrightarrow> \<not> isWriting (chans w (ConnChan c)) \<Longrightarrow>
      \<exists>tr r. ktrace (drained K c w) = ktrace w @ tr @ [EvShutdown (tc_socket (conns w c)) r]"
proof -
  let ?v = "case tc_writeCompeleteCallback (conns w c) of
      Some u \<Rightarrow> queueInLoop K (tc_loop (conns w c)) (Bind_writeComplete u c) w | None \<Rightarrow> w"
  have v: "conn_frame c w ?v" "conns ?v = conns w" "chans ?v = chans w" by (simp_all split: option.split)
  have d: "drained K c w = (if tc_state (conns w c) = kDisconnecting then shutdownInLoop K c ?v else ?v)"
    using v(2) by (simp add: drained_def Let_def)
  show "conn_frame c w (drained K c w)" "conns (drained K c w) = conns w" "chans (drained K c w) = chans w"
    unfolding d using v conn_frame_trans [OF v(1) shutdownInLoop_spec(1) [of c ?v K c]]
      shutdownInLoop_spec(2,3) [of K c ?v] by simp_all
  show "written (conn_fd c w) (ktrace (drained K c w)) = written (conn_fd c w) (ktrace w)" if "private_fd c w"
    unfolding d using that queueInLoop_written [of w _ "conn_fd c w" K]
    by (auto simp: private_fd_def shutdownInLoop_spec(4) split: option.split)
  show "\<exists>tr r. ktrace (drained K c w) = ktrace w @ tr @ [EvShutdown (tc_socket (conns w c)) r]"
    if "tc_state (conns w c) = kDisconnecting" "\<not> isWriting (chans w (ConnChan c))"
  proof -
    obtain tr where "ktrace ?v = ktrace w @ tr"
      using conn_frameD(6) [OF v(1)] by (auto simp: loop_frame_def)
    then show ?thesis unfolding d using that v by (auto simp: shutdownInLoop_spec(6))
  qed
qed

lemma handleWrite_cases:
  assumes inv: "conn_inv c w" and law: "write_law K"
  shows "handleWrite K c w =
    (if isWriting (chans w (ConnChan c))
     then (case k_write K (ktrace w) (conn_fd c w) (pending c w) of
        Fail e \<Rightarrow> Inr (record_event (EvWrite (conn_fd c w) (pending c w) (Fail e)) w)
      | Ok n \<Rightarrow>
          if n = 0 then Inr (record_event (EvWrite (conn_fd c w) (pending c w) (Ok 0)) w)
          else if n = length (pending c w)
          then bindE (disableWriting K (ConnChan c) (wrote c n w)) (\<lambda>w. Inr (drained K c w))
          else Inr (LOG K ERROR ''TcpConnection::handleWrite'' [] (wrote c n w)))
     else Inr (LOG K ERROR ''TcpConnection fd=%d is down, no more writing \<newline>'' [AInt (conn_fd c w)] w))"
proof (cases "isWriting (chans w (ConnChan c))")
  case False
  then show ?thesis by (simp add: handleWrite_def conn_fd_def)
next
  case True
  have bi: "Buffer_inv (tc_outputBuffer (conns w c))" using inv by (simp add: conn_inv_def)
  have wf: "writeFd K (ch_fd (chans w (ConnChan c))) (tc_outputBuffer (conns w c)) w
      = Inr (sys_write K (conn_fd c w) (pending c w) w)"
    by (simp add: writeFd_spec [OF bi] conn_fd_def pending_def)
  show ?thesis
  proof (cases "k_write K (ktrace w) (conn_fd c w) (pending c w)")
    case (Fail e)
    then show ?thesis using True wf by (simp add: handleWrite_def sys_write_def Let_def)
  next
    case (Ok n)
    have n: "n \<le> length (pending c w)" using law Ok by (auto simp: write_law_def)
    have "readableBytes (tc_outputBuffer (conns (wrote c n w) c)) = length (pending c w) - n"
      using readable_pending [OF wrote_pending(2) [OF bi]] wrote_pending(1) [OF bi, of n] by simp
    then have "readableBytes (retrieve n (tc_outputBuffer (conns w c))) = 0 \<longleftrightarrow> n = length (pending c w)"
      using n by (auto simp: wrote_def)
    with True wf Ok show ?thesis
      by (simp add: handleWrite_def sys_write_def wrote_def drained_def Let_def)
  qed
qed

lemma handleWrite_spec:
  assumes r: "handleWrite K c w = Inr w'" and inv: "conn_inv c w" and law: "write_law K" and priv: "private_fd c w"
  shows "conn_frame c w w'" "conn_inv c w'" "tc_state (conns w' c) = tc_state (conns w c)"
    "stream c w' = stream c w"
proof -
  let ?ch = "ConnChan c" and ?f = "conn_fd c w"
  note hw = r [unfolded handleWrite_cases [OF inv law]]
  have bi: "Buffer_inv (tc_outputBuffer (conns w c))" using inv by (simp add: conn_inv_def)
  have same: "conn_frame c w w' \<and> conn_inv c w' \<and> tc_state (conns w' c) = tc_state (conns w c)
      \<and> stream c w' = stream c w"
    if "conn_frame c w w'" "conns w' = conns w" "chans w' = chans w"
    "written ?f (ktrace w') = written ?f (ktrace w)"
    using that inv by (auto simp: conn_inv_def stream_def pending_def conn_fd_def)
  have keep: "ch_fd (chans w' ?ch) = tc_socket (conns w' c) \<and> ch_loop (chans w' ?ch) = tc_loop (conns w' c)
      \<and> conn_fd c w' = ?f" if "conn_frame c w w'"
    using conn_frameD(1-4,8) [OF that] inv by (simp add: conn_inv_def)
  consider (quiet) "conn_frame c w w'" "conns w' = conns w" "chans w' = chans w"
      "written ?f (ktrace w') = written ?f (ktrace w)"
    | (part) n where "isWriting (chans w ?ch)" "n < length (pending c w)"
        "w' = LOG K ERROR ''TcpConnection::handleWrite'' [] (wrote c n w)"
    | (all) v where "disableWriting K ?ch (wrote c (length (pending c w)) w) = Inr v" "w' = drained K c v"
  proof (cases "isWriting (chans w ?ch)")
    case False
    with hw have "w' = LOG K ERROR ''TcpConnection fd=%d is down, no more writing \<newline>'' [AInt ?f] w" by simp
    then show ?thesis using quiet by simp
  next
    case writing: True
    show ?thesis
    proof (cases "k_write K (ktrace w) ?f (pending c w)")
      case (Fail e)
      with hw writing have "w' = record_event (EvWrite ?f (pending c w) (Fail e)) w" by simp
      then show ?thesis using quiet by simp
    next
      case (Ok n)
      then have n: "n \<le> length (pending c w)" using law by (auto simp: write_law_def)
      consider "n = 0" | "n \<noteq> 0" "n = length (pending c w)" | "n \<noteq> 0" "n < length (pending c w)"
        using n by linarith
      then show ?thesis
      proof cases
        case 1
        with hw writing Ok have "w' = record_event (EvWrite ?f (pending c w) (Ok 0)) w" by simp
        then show ?thesis using quiet by simp
      next
        case 2
        with hw writing Ok show ?thesis using all by auto
      next
        case 3
        with hw writing Ok show ?thesis using part by auto
      qed
    qed
  qed
  then have goal: "conn_frame c w w' \<and> conn_inv c w' \<and> tc_state (conns w' c) = tc_state (conns w c)
      \<and> stream c w' = stream c w"
  proof cases
    case quiet
    then show ?thesis by (rule same)
  next
    case part
    have fr: "conn_frame c w w'" using part by simp
    have "pending c w' = drop n (pending c w)" "Buffer_inv (tc_outputBuffer (conns w' c))"
      using wrote_pending [OF bi, of n] part(3) by (simp_all add: pending_def)
    then show ?thesis
      using fr keep [OF fr] part inv by (auto simp: conn_inv_def stream_def)
  next
    case all
    note op = channel_ops(4) [OF all(1)] and d = drained_spec [where c = c and w = v and K = K]
    have cs: "conns v = conns (wrote c (length (pending c w)) w)" by (rule tworld_more(1) [OF channel_opD(5) [OF op]])
    have fv: "conn_frame c w v" using conn_frame_trans [OF wrote_simps(1) conn_frame_ops(4) [OF all(1)]] .
    have fr: "conn_frame c w w'" using conn_frame_trans [OF fv d(1)] all(2) by simp
    have fd: "conn_fd c v = ?f" using conn_frameD(1) [OF fv] .
    have "pending c w' = []" "Buffer_inv (tc_outputBuffer (conns w' c))"
      using wrote_pending [OF bi, of "length (pending c w)"] all(2) d(2) cs by (simp_all add: pending_def)
    moreover have "\<not> isWriting (chans w' ?ch)"
      using channel_opD(7) [OF op] all(2) d(3) channel_bits(3) by auto
    moreover have "written ?f (ktrace w') = written ?f (ktrace w) @ pending c w"
      using d(4) [OF private_fd_frame [OF priv fv]] channel_opD(2) [OF op, of ?f] all(2) fd by simp
    ultimately show ?thesis
      using fr keep [OF fr] inv all(2) d(2) cs by (auto simp: conn_inv_def stream_def)
  qed
  then show "conn_frame c w w'" "conn_inv c w'" "tc_state (conns w' c) = tc_state (conns w c)"
    "stream c w' = stream c w" by blast+
qed

text \<open>Calls that neither open nor close a descriptor nor change what epoll watches.\<close>

fun io_event :: "kevent \<Rightarrow> bool" where
  "io_event (EvRead f n r) = True"
| "io_event (EvReadv f iov r) = True"
| "io_event (EvWrite f d r) = True"
| "io_event (EvShutdown f r) = True"
| "io_event (EvGetsockopt f r) = True"
| "io_event _ = False"

lemma io_event_after: "io_event e \<Longrightarrow> interest_after ep e m = m" "io_event e \<Longrightarrow> open_after e s = s"
  by (cases e; simp)+

lemma io_events:
  "list_all io_event tr \<Longrightarrow> interest ep (a @ tr) = interest ep a"
  "list_all io_event tr \<Longrightarrow> open_fds (a @ tr) = open_fds a"
  by (induction tr rule: rev_induct; simp add: io_event_after flip: append_assoc)+

definition only_io :: "'z lworld_scheme \<Rightarrow> 'z lworld_scheme \<Rightarrow> bool" where
  "only_io w w' \<longleftrightarrow> (\<exists>tr. list_all io_event tr \<and> ktrace w' = ktrace w @ tr) \<and> chans w' = chans w
     \<and> (\<forall>l. el_poller (loops w' l) = el_poller (loops w l))"

lemma only_io_refl [simp]: "only_io w w"
  by (auto simp: only_io_def intro: exI [of _ "[]"])

lemma only_io_trans:
  assumes "only_io u v" "only_io v w"
  shows "only_io u w"
proof -
  obtain a b where "list_all io_event a" "ktrace v = ktrace u @ a" "list_all io_event b" "ktrace w = ktrace v @ b"
    using assms by (auto simp: only_io_def)
  then have "list_all io_event (a @ b) \<and> ktrace w = ktrace u @ (a @ b)" by simp
  with assms show ?thesis unfolding only_io_def by auto
qed

lemma only_io_serves:
  assumes "only_io w w'" "serves l ch p w"
  shows "serves l ch p w'"
  using assms io_events poller_inv_same [of p w w'] by (auto simp: only_io_def serves_def attachable_def)

lemma only_io_base:
  "only_io w (LOG K lv fmt args w)" "only_io w (map_conn c f w)" "only_io w (shutdownInLoop K c w)"
  "io_event e \<Longrightarrow> only_io w (record_event e w)" "only_io w (queueInLoop K l cb w)"
proof -
  have 1: "list_all io_event [] \<and> ktrace w = ktrace w @ []" by simp
  show "only_io w (LOG K lv fmt args w)" "only_io w (map_conn c f w)" unfolding only_io_def using 1 by auto
  show "io_event e \<Longrightarrow> only_io w (record_event e w)" by (auto simp: only_io_def intro: exI [of _ "[e]"])
  show "only_io w (shutdownInLoop K c w)" by (auto simp: only_io_def shutdownInLoop_spec)
  have "\<exists>tr. list_all io_event tr \<and> ktrace (queueInLoop K l cb w) = ktrace w @ tr"
  proof (cases "isInLoopThread l w \<and> \<not> el_callingPendingFunctors (loops w l)")
    case True
    then have "ktrace (queueInLoop K l cb w) = ktrace w"
      using queueInLoop_spec(6) [where K = K and l = l and cb = cb and w = w] by simp
    with 1 show ?thesis by metis
  next
    case False
    then obtain r where "ktrace (queueInLoop K l cb w) = ktrace w @ [EvWrite (el_wakeupFd (loops w l)) uint64_one r]"
      using queueInLoop_spec(6) [where K = K and l = l and cb = cb and w = w] by auto
    then show ?thesis by (intro exI [of _ "[EvWrite (el_wakeupFd (loops w l)) uint64_one r]"]) simp
  qed
  then show "only_io w (queueInLoop K l cb w)" by (simp add: only_io_def queueInLoop_spec(1))
qed

lemma only_io_steps [simp]:
  "only_io u w \<Longrightarrow> only_io u (LOG K lv fmt args w)" "only_io u w \<Longrightarrow> only_io u (map_conn c f w)"
  "only_io u w \<Longrightarrow> only_io u (shutdownInLoop K c w)"
  "only_io u w \<Longrightarrow> io_event e \<Longrightarrow> only_io u (record_event e w)" "only_io u w \<Longrightarrow> only_io u (queueInLoop K l cb w)"
  using only_io_base only_io_trans by blast+

lemma only_io_drained [simp]: "only_io u w \<Longrightarrow> only_io u (drained K c w)"
  by (simp add: drained_def Let_def split: option.split)

lemma only_io_wrote [simp]: "only_io u w \<Longrightarrow> only_io u (wrote c n w)"
  by (simp add: wrote_def)

lemma handleWrite_total:
  assumes "serves l (ConnChan c) p w" "epoll_ctl_law K" "conn_inv c w" "write_law K"
  shows "\<exists>p' w'. handleWrite K c w = Inr w' \<and> serves l (ConnChan c) p' w'"
proof -
  have ser: "\<exists>p'. serves l (ConnChan c) p' v" if "only_io w v" for v
    using only_io_serves [OF that assms(1)] by blast
  have dis: "\<exists>v. disableWriting K (ConnChan c) (wrote c n w) = Inr v \<and> (\<exists>p'. serves l (ConnChan c) p' (drained K c v))" for n
  proof -
    have "serves l (ConnChan c) p (wrote c n w)" using only_io_serves [OF _ assms(1), of "wrote c n w"] by simp
    from enable_totals(4) [OF this assms(2)] obtain p' v where
      "disableWriting K (ConnChan c) (wrote c n w) = Inr v" "serves l (ConnChan c) p' v" by blast
    then show ?thesis using only_io_serves [of v "drained K c v"] by fastforce
  qed
  have "\<exists>w'. handleWrite K c w = Inr w' \<and> (\<exists>p'. serves l (ConnChan c) p' w')"
  proof (cases "k_write K (ktrace w) (conn_fd c w) (pending c w)")
    case (Fail e)
    then show ?thesis using ser unfolding handleWrite_cases [OF assms(3,4)] by simp
  next
    case (Ok n)
    then show ?thesis using ser dis [of n] unfolding handleWrite_cases [OF assms(3,4)] by auto
  qed
  then show ?thesis by blast
qed

text \<open>The peer keeps reading: every write of some bytes takes at least one.\<close>

definition accepts_writes :: "kernel \<Rightarrow> fd \<Rightarrow> bool" where
  "accepts_writes K f \<longleftrightarrow> (\<forall>tr d. d \<noteq> [] \<longrightarrow> (\<exists>n. 0 < n \<and> k_write K tr f d = Ok n))"

lemma handleWrite_progress:
  assumes inv: "conn_inv c w" and ser: "serves l (ConnChan c) p w" and laws: "epoll_ctl_law K" "write_law K"
    and priv: "private_fd c w" and st: "tc_state (conns w c) = kDisconnecting" and ne: "pending c w \<noteq> []"
    and acc: "accepts_writes K (conn_fd c w)"
  shows "\<exists>p' w'. handleWrite K c w = Inr w' \<and> serves l (ConnChan c) p' w'
    \<and> length (pending c w') < length (pending c w)
    \<and> (pending c w' = [] \<longrightarrow> \<not> isWriting (chans w' (ConnChan c))
        \<and> (\<exists>tr r. ktrace w' = tr @ [EvShutdown (conn_fd c w) r] \<and> written (conn_fd c w) tr = stream c w))"
proof -
  obtain p' w' where w': "handleWrite K c w = Inr w'" "serves l (ConnChan c) p' w'"
    using handleWrite_total [OF ser laws(1) inv laws(2)] by blast
  note spec = handleWrite_spec [OF w'(1) inv laws(2) priv]
  have bi: "Buffer_inv (tc_outputBuffer (conns w c))" using inv by (simp add: conn_inv_def)
  have wr: "isWriting (chans w (ConnChan c))" using inv st ne by (simp add: conn_inv_def)
  obtain n where n: "0 < n" "k_write K (ktrace w) (conn_fd c w) (pending c w) = Ok n"
    using acc ne by (auto simp: accepts_writes_def)
  then have le: "n \<le> length (pending c w)" using laws(2) by (auto simp: write_law_def)
  note hw = w'(1) [unfolded handleWrite_cases [OF inv laws(2)]]
  show ?thesis
  proof (cases "n = length (pending c w)")
    case False
    with hw wr n have "w' = LOG K ERROR ''TcpConnection::handleWrite'' [] (wrote c n w)" by simp
    then have "pending c w' = drop n (pending c w)" using wrote_pending(1) [OF bi, of n] by (simp add: pending_def)
    with w' n(1) ne False le show ?thesis by auto
  next
    case True
    with hw wr n obtain v where v: "disableWriting K (ConnChan c) (wrote c n w) = Inr v" "w' = drained K c v" by auto
    note op = channel_ops(4) [OF v(1)]
    have cs: "conns v = conns (wrote c n w)" by (rule tworld_more(1) [OF channel_opD(5) [OF op]])
    have nw: "\<not> isWriting (chans v (ConnChan c))" using channel_opD(7) [OF op] channel_bits(3) by auto
    have "tc_state (conns v c) = kDisconnecting" using cs st by simp
    from drained_spec(5) [OF this nw, of K] obtain tr r where
      tr: "ktrace w' = (ktrace v @ tr) @ [EvShutdown (tc_socket (conns v c)) r]" using v(2) by auto
    have sock: "tc_socket (conns v c) = conn_fd c w"
      using inv cs by (simp add: conn_inv_def conn_fd_def wrote_def)
    have empty: "pending c w' = []"
      using wrote_pending(1) [OF bi, of n] True cs v(2) drained_spec(2) [of K c v] by (simp add: pending_def)
    have "conn_fd c w' = conn_fd c w" using conn_frameD(1) [OF spec(1)] .
    then have "written (conn_fd c w) (ktrace v @ tr) = stream c w"
      using spec(4) tr empty by (simp add: stream_def written_append)
    with w' empty nw v(2) tr sock ne show ?thesis by (auto simp: drained_spec(3))
  qed
qed

lemma graceful_close_ind:
  assumes "conn_inv c w" "serves l (ConnChan c) p w" "epoll_ctl_law K" "write_law K" "private_fd c w"
    and "tc_state (conns w c) = kDisconnecting" "pending c w \<noteq> []" "accepts_writes K (conn_fd c w)"
  shows "\<exists>m w' tr r. m \<le> length (pending c w) \<and> passes (handleWrite K c) m w = Inr w' \<and> pending c w' = []
    \<and> \<not> isWriting (chans w' (ConnChan c))
    \<and> ktrace w' = tr @ [EvShutdown (conn_fd c w) r] \<and> written (conn_fd c w) tr = stream c w"
  using assms
proof (induction "length (pending c w)" arbitrary: w p rule: less_induct)
  case less
  obtain p' w' where w': "handleWrite K c w = Inr w'" "serves l (ConnChan c) p' w'"
    "length (pending c w') < length (pending c w)"
    "pending c w' = [] \<longrightarrow> \<not> isWriting (chans w' (ConnChan c))
        \<and> (\<exists>tr r. ktrace w' = tr @ [EvShutdown (conn_fd c w) r] \<and> written (conn_fd c w) tr = stream c w)"
    using handleWrite_progress [OF less.prems] by blast
  note spec = handleWrite_spec [OF w'(1) less.prems(1,4,5)]
  have fd: "conn_fd c w' = conn_fd c w" by (rule conn_frameD(1) [OF spec(1)])
  show ?case
  proof (cases "pending c w' = []")
    case True
    then obtain tr r where "ktrace w' = tr @ [EvShutdown (conn_fd c w) r]" "written (conn_fd c w) tr = stream c w"
      using w'(4) by blast
    moreover have "passes (handleWrite K c) (Suc 0) w = Inr w'" using w'(1) by simp
    moreover have "Suc 0 \<le> length (pending c w)" using w'(3) by simp
    ultimately show ?thesis using True w'(4) by blast
  next
    case False
    from less.hyps [OF w'(3) spec(2) w'(2) less.prems(3,4) private_fd_frame [OF less.prems(5) spec(1)] _ False]
    obtain m v tr r where "m \<le> length (pending c w')" "passes (handleWrite K c) m w' = Inr v" "pending c v = []"
      "\<not> isWriting (chans v (ConnChan c))" "ktrace v = tr @ [EvShutdown (conn_fd c w) r]"
      "written (conn_fd c w) tr = stream c w"
      using spec(3,4) fd less.prems(6,8) by auto
    moreover have "passes (handleWrite K c) (Suc m) w = passes (handleWrite K c) m w'" using w'(1) by simp
    moreover have "Suc m \<le> length (pending c w)" using w'(3) \<open>m \<le> length (pending c w')\<close> by simp
    ultimately show ?thesis by metis
  qed
qed

section \<open>Callbacks about the output\<close>

definition queue_of :: "conn_id \<Rightarrow> 'z tworld_scheme \<Rightarrow> Functor list" where
  "queue_of c w = el_pendingFunctors (loops w (tc_loop (conns w c)))"

definition complete_functor :: "conn_id \<Rightarrow> 'z tworld_scheme \<Rightarrow> Functor list" where
  "complete_functor c w = (case tc_writeCompeleteCallback (conns w c) of
     None \<Rightarrow> [] | Some u \<Rightarrow> [Bind_writeComplete u c])"

definition mark_functor :: "conn_id \<Rightarrow> nat \<Rightarrow> 'z tworld_scheme \<Rightarrow> Functor list" where
  "mark_functor c n w = (case tc_highWaterMarkCallback (conns w c) of
     None \<Rightarrow> [] | Some u \<Rightarrow> [Bind_highWaterMark u c n])"

lemma queue_of_channel_op:
  assumes "channel_op f ch w w'"
  shows "queue_of c w' = queue_of c w"
  using assms tworld_more(1) [OF channel_opD(5) [OF assms]] by (auto simp: queue_of_def channel_op_def)

lemma queue_of_steps [simp]:
  "queue_of c (LOG K lv fmt args w) = queue_of c w" "queue_of c (record_event e w) = queue_of c w"
  "queue_of c (map_conn d (\<lambda>t. t\<lparr>tc_outputBuffer := f t\<rparr>) w) = queue_of c w"
  "queue_of c (shutdownInLoop K d w) = queue_of c w"
  "queue_of c (queueInLoop K (tc_loop (conns w c)) cb w) = queue_of c w @ [cb]"
proof -
  show "queue_of c (map_conn d (\<lambda>t. t\<lparr>tc_outputBuffer := f t\<rparr>) w) = queue_of c w"
    by (cases "d = c") (simp_all add: queue_of_def)
qed (simp_all add: queue_of_def shutdownInLoop_spec queueInLoop_spec(1))

lemma write_now_queue:
  assumes "write_now K c data w = (nw, rm, fault, w')" "length data \<le> max_size" "write_law K"
  shows "queue_of c w' = queue_of c w @ (if rm = 0 \<and> k_write K (ktrace w) (conn_fd c w) data = Ok nw
    then complete_functor c w else [])"
proof (cases "k_write K (ktrace w) (conn_fd c w) data")
  case (Ok n)
  then have "n \<le> length data" using assms(3) by (auto simp: write_law_def)
  then have "size_sub (length data) n = length data - n" using length_fits [OF assms(2)] by simp
  then show ?thesis
    using assms(1) Ok queue_of_steps(5) [where c = c and w = "record_event (EvWrite (conn_fd c w) data (Ok n)) w" and K = K]
    by (auto simp: write_now_def sys_write_def conn_fd_def complete_functor_def Let_def
        split: option.splits if_splits)
next
  case (Fail e)
  then show ?thesis
    using assms(1) by (auto simp: write_now_def sys_write_def conn_fd_def Let_def split: if_splits)
qed

lemma mark_high_water_queue:
  assumes "m + n < 2 ^ 64"
  shows "queue_of c (mark_high_water K c m n w) = queue_of c w
    @ (if m < tc_highWaterMark (conns w c) \<and> tc_highWaterMark (conns w c) \<le> m + n then mark_functor c (m + n) w else [])"
  using assms by (simp add: mark_high_water_def mark_functor_def split: option.split)

lemma buffer_rest_queue:
  assumes r: "buffer_rest K c data nw rm w = Inr w'" and fits: "length (pending c w) + rm < 2 ^ 64"
    and inv: "Buffer_inv (tc_outputBuffer (conns w c))"
  shows "queue_of c w' = queue_of c w @ (if length (pending c w) < tc_highWaterMark (conns w c)
      \<and> tc_highWaterMark (conns w c) \<le> length (pending c w) + rm
    then mark_functor c (length (pending c w) + rm) w else [])"
proof -
  let ?m = "mark_high_water K c (length (pending c w)) rm w"
  obtain b where "(if \<not> isWriting (chans ?m (ConnChan c))
        then enablewriting K (ConnChan c) (map_conn c (\<lambda>t. t\<lparr>tc_outputBuffer := b\<rparr>) ?m)
        else Inr (map_conn c (\<lambda>t. t\<lparr>tc_outputBuffer := b\<rparr>) ?m)) = Inr w'"
    using r by (auto simp: buffer_rest_def readable_pending [OF inv] Let_def)
  then have "queue_of c w' = queue_of c ?m"
    using queue_of_channel_op [OF channel_ops(3)] by (fastforce split: if_splits)
  then show ?thesis using mark_high_water_queue [OF fits, where c = c and K = K and w = w] by simp
qed

lemma sendInLoop_queue:
  assumes r: "sendInLoop K c data w = Inr w'" and inv: "conn_inv c w" and len: "length data \<le> max_size"
    and law: "write_law K" and priv: "private_fd c w"
  shows "queue_of c w' = queue_of c w
    @ (if tc_state (conns w c) \<noteq> kDisconnected \<and> pending c w = []
          \<and> k_write K (ktrace w) (conn_fd c w) data = Ok (length data) then complete_functor c w else [])
    @ (if length (pending c w) < tc_highWaterMark (conns w c) \<and> tc_highWaterMark (conns w c) \<le> length (pending c w')
       then mark_functor c (length (pending c w')) w else [])"
proof (cases "tc_state (conns w c) = kDisconnected")
  case True
  with r have "w' = LOG K ERROR ''disconnected, give up writing!'' [] w" by (simp add: sendInLoop_def)
  with True show ?thesis by (auto simp: pending_def)
next
  case conn: False
  let ?ch = "ConnChan c"
  have bi: "Buffer_inv (tc_outputBuffer (conns w c))" using inv by (simp add: conn_inv_def)
  have idle: "\<not> isWriting (chans w ?ch) \<and> readableBytes (tc_outputBuffer (conns w c)) = 0 \<longleftrightarrow> pending c w = []"
    using inv conn by (auto simp: conn_inv_def readable_pending)
  have bound: "length (pending c w) < 2 ^ 63"
    using Buffer_inv_bounds(1,4) [OF bi] readable_pending [OF bi] by linarith
  show ?thesis
  proof (cases "pending c w = []")
    case True
    obtain nw rm fault v where wn: "write_now K c data w = (nw, rm, fault, v)" by (metis prod_cases4)
    note spec = write_now_spec [OF wn len law priv] and q = write_now_queue [OF wn len law]
    have pv: "pending c v = []" using True spec(2) by (simp add: pending_def)
    have ok: "rm = 0 \<and> k_write K (ktrace w) (conn_fd c w) data = Ok nw
        \<longleftrightarrow> k_write K (ktrace w) (conn_fd c w) data = Ok (length data)"
      using spec(4) wn by (auto simp: write_now_def sys_write_def conn_fd_def Let_def split: sysret.splits)
    have marks: "mark_functor c n v = mark_functor c n w" "tc_highWaterMark (conns v c) = tc_highWaterMark (conns w c)" for n
      using spec(2) by (simp_all add: mark_functor_def)
    show ?thesis
    proof (cases "\<not> fault \<and> 0 < rm")
      case rest: True
      then have br: "buffer_rest K c data nw rm v = Inr w'"
        using r conn idle True wn by (simp add: sendInLoop_def)
      have bv: "Buffer_inv (tc_outputBuffer (conns v c))" using bi spec(2) by simp
      note out = buffer_rest_spec [OF br len bv spec(4) private_fd_frame [OF priv spec(1)]]
      have rm: "length (pending c w') = rm" using out(2) pv spec(4) by auto
      have "length (pending c v) + rm < 2 ^ 64" using pv length_fits [OF len] spec(4) by simp
      from buffer_rest_queue [OF br this bv] show ?thesis
        using q ok rest rm pv marks True by simp
    next
      case False
      then have w': "w' = v" using r conn idle True wn by (auto simp: sendInLoop_def)
      have "\<not> fault \<Longrightarrow> rm = 0" using False by simp
      moreover have "fault \<Longrightarrow> \<not> (k_write K (ktrace w) (conn_fd c w) data = Ok nw)" using spec(6) by auto
      ultimately show ?thesis using q ok conn True w' pv by auto
    qed
  next
    case False
    then have br: "if data = [] then w' = w else buffer_rest K c data 0 (length data) w = Inr w'"
      using r conn idle by (auto simp: sendInLoop_def split: if_splits)
    show ?thesis
    proof (cases "data = []")
      case True
      with br False show ?thesis by auto
    next
      case nonempty: False
      with br have b: "buffer_rest K c data 0 (length data) w = Inr w'" by simp
      have "length (pending c w) + length data < 2 ^ 64"
        using bound len by (simp add: max_size_def)
      from buffer_rest_queue [OF b this bi] buffer_rest_spec(2) [OF b len bi _ priv] False
      show ?thesis by simp
    qed
  qed
qed

lemma handleWrite_queue:
  assumes r: "handleWrite K c w = Inr w'" and inv: "conn_inv c w" and law: "write_law K" and priv: "private_fd c w"
  shows "queue_of c w' = queue_of c w
    @ (if isWriting (chans w (ConnChan c)) \<and> pending c w' = [] then complete_functor c w else [])"
proof -
  have bi: "Buffer_inv (tc_outputBuffer (conns w c))" using inv by (simp add: conn_inv_def)
  note hw = r [unfolded handleWrite_cases [OF inv law]]
  have same: "queue_of c (wrote c n w) = queue_of c w" for n by (simp add: wrote_def)
  show ?thesis
  proof (cases "isWriting (chans w (ConnChan c))")
    case False
    then show ?thesis using hw by auto
  next
    case True
    then have ne: "pending c w \<noteq> []" using inv by (simp add: conn_inv_def)
    show ?thesis
    proof (cases "k_write K (ktrace w) (conn_fd c w) (pending c w)")
      case (Fail e)
      with hw True ne show ?thesis by (auto simp: pending_def)
    next
      case (Ok n)
      then have le: "n \<le> length (pending c w)" using law by (auto simp: write_law_def)
      consider "n = 0" | "n \<noteq> 0" "n < length (pending c w)" | "n = length (pending c w)" using le by linarith
      then show ?thesis
      proof cases
        case 1
        with hw True Ok ne show ?thesis by (auto simp: pending_def)
      next
        case 2
        with hw True Ok have "w' = LOG K ERROR ''TcpConnection::handleWrite'' [] (wrote c n w)" by simp
        moreover from this have "pending c w' = drop n (pending c w)"
          using wrote_pending(1) [OF bi, of n] by (simp add: pending_def)
        ultimately show ?thesis using 2 same by simp
      next
        case 3
        with hw True Ok ne obtain v where v: "disableWriting K (ConnChan c) (wrote c n w) = Inr v" "w' = drained K c v"
          by auto
        note op = channel_ops(4) [OF v(1)]
        have cs: "conns v = conns (wrote c n w)" by (rule tworld_more(1) [OF channel_opD(5) [OF op]])
        have "pending c w' = []"
          using wrote_pending(1) [OF bi, of n] 3 cs v(2) drained_spec(2) [of K c v] by (simp add: pending_def)
        moreover have "queue_of c v = queue_of c w" using queue_of_channel_op [OF op] same by simp
        moreover have "complete_functor c v = complete_functor c w" using cs by (simp add: complete_functor_def wrote_def)
        moreover have "queue_of c w' = queue_of c v @ complete_functor c v"
          by (simp add: v(2) drained_def complete_functor_def Let_def split: option.split)
        ultimately show ?thesis using True by simp
      qed
    qed
  qed
qed

section \<open>An example connection\<close>

text \<open>
  Connection 0 on descriptor 7 of loop 0 (epoll instance 3, eventfd 4), in state \<open>st\<close> with the unsent
  bytes \<open>out\<close>, all callbacks set and a high-water mark of 4.
\<close>

definition demo_conn :: "StateE \<Rightarrow> bytes \<Rightarrow> TcpConnection" where
  "demo_conn st out = \<lparr>tc_loop = 0, tc_name = ''demo'', tc_state = st, tc_reading = True, tc_socket = 7,
     tc_localAddr = InetAddress_default, tc_peerAddr = InetAddress_default, tc_connectionCallback = Some 1,
     tc_messageCallback = Some 2, tc_writeCompeleteCallback = Some 3,
     tc_closeCallback = Some Bind_TcpServer_removeConnection, tc_highWaterMarkCallback = Some 4,
     tc_highWaterMark = 4, tc_inputBuffer = Buffer_default,
     tc_outputBuffer = \<lparr>buf = replicate 8 (CHR 0x00) @ out, readerIndex = 8, writerIndex = 8 + length out\<rparr>\<rparr>"

definition demo_events :: "bytes \<Rightarrow> 32 word" where
  "demo_events out = (if out = [] then kReadEvent else kReadEvent OR kWriteEvent)"

definition demo_chan :: "bytes \<Rightarrow> Channel" where
  "demo_chan out = (Channel_ctor 0 7)\<lparr>ch_events := demo_events out, ch_index := kAdded, ch_tie := Some 0,
     ch_tied := True, ch_readCallback := Some (Bind_TcpConnection_handleRead 0),
     ch_writeCallback := Some (Bind_TcpConnection_handleWrite 0),
     ch_closeCallback := Some (Bind_TcpConnection_handleClose 0),
     ch_errorCallback := Some (Bind_TcpConnection_handleError 0)\<rparr>"

definition demo_conn_poller :: Poller where
  "demo_conn_poller = \<lparr>pl_channels = [7 \<mapsto> ConnChan 0], pl_owner = 0, pl_epollfd = 3,
     pl_events = replicate kInitEventListSize zero_event\<rparr>"

definition demo_tworld :: "StateE \<Rightarrow> bytes \<Rightarrow> tworld" where
  "demo_tworld st out =
     \<lparr>ktrace = [EvEpollCreate (Ok 3), EvEventfd (Ok 4), EvSocket (Ok 7),
         EvEpollCtl 3 EPOLL_CTL_ADD 7 \<lparr>ev_events = demo_events out, ev_ptr = Some (ConnChan 0)\<rparr> (Ok ())],
      logger_of = Logger_initial, cur_tid = 1, chans = (\<lambda>ch. Channel_ctor 0 0)(ConnChan 0 := demo_chan out),
      loops = (\<lambda>l. \<lparr>el_looping = True, el_quit = False, el_threadId = 1 + int l, el_pollReturnTime = Timestamp_default,
        el_poller = Some demo_conn_poller, el_wakeupFd = 4, el_activeChannels = [],
        el_callingPendingFunctors = False, el_pendingFunctors = [], el_functors = []\<rparr>),
      loopInThread = [1 \<mapsto> 0], conns = (\<lambda>c. demo_conn st out), live = {0}, strings = Map.empty,
      next_string = 0\<rparr>"

lemma demo_fields [simp]:
  "conns (demo_tworld st out) c = demo_conn st out" "chans (demo_tworld st out) (ConnChan 0) = demo_chan out"
  "conn_fd 0 (demo_tworld st out) = 7" "pending c (demo_tworld st out) = out"
  "tc_state (demo_conn st out) = st" "tc_loop (demo_conn st out) = 0" "tc_highWaterMark (demo_conn st out) = 4"
  "queue_of c (demo_tworld st out) = []" "written 7 (ktrace (demo_tworld st out)) = []"
  "complete_functor c (demo_tworld st out) = [Bind_writeComplete 3 c]"
  "mark_functor c n (demo_tworld st out) = [Bind_highWaterMark 4 c n]"
  "stream 0 (demo_tworld st out) = out" "isInLoopThread 0 (demo_tworld st out)"
  "isInLoopThread 1 (demo_tworld st out) = False" "strings (demo_tworld st out) = Map.empty"
  by (simp_all add: demo_tworld_def demo_conn_def demo_chan_def Channel_ctor_def conn_fd_def pending_def
      Buffer_content_def queue_of_def complete_functor_def mark_functor_def written_def stream_def isInLoopThread_def)

lemma demo_writing [simp]: "isWriting (demo_chan out) \<longleftrightarrow> out \<noteq> []"
  by (simp add: demo_chan_def demo_events_def isWriting_def has_bits_def event_bits)

lemma demo_private [simp]: "private_fd 0 (demo_tworld st out)"
  by (simp add: private_fd_def) (simp add: demo_tworld_def)

lemma demo_conn_inv [simp]:
  assumes "length out \<le> 1000"
  shows "conn_inv 0 (demo_tworld st out)"
proof -
  have "Buffer_inv (tc_inputBuffer (demo_conn st out))" by (simp add: demo_conn_def)
  moreover have "Buffer_inv (tc_outputBuffer (demo_conn st out))"
    using assms by (simp add: demo_conn_def Buffer_inv_def kCheapPrepend_def max_size_def)
  moreover have "ch_fd (demo_chan out) = tc_socket (demo_conn st out)"
    "ch_loop (demo_chan out) = tc_loop (demo_conn st out)"
    by (simp_all add: demo_chan_def demo_conn_def Channel_ctor_def)
  ultimately show ?thesis by (simp add: conn_inv_def)
qed

lemma demo_serves [simp]: "serves 0 (ConnChan 0) demo_conn_poller (demo_tworld st out)"
proof -
  have chs: "chans (demo_tworld st out) = (\<lambda>ch. Channel_ctor 0 0)(ConnChan 0 := demo_chan out)"
    by (simp add: demo_tworld_def)
  have fields: "ch_fd (demo_chan out) = 7" "ch_loop (demo_chan out) = 0" "ch_index (demo_chan out) = kAdded"
    "ch_events (demo_chan out) = demo_events out" "ch_index (Channel_ctor 0 0) = kNew"
    by (simp_all add: demo_chan_def Channel_ctor_def index_defs)
  have int: "interest 3 (ktrace (demo_tworld st out))
      = [7 \<mapsto> \<lparr>ev_events = demo_events out, ev_ptr = Some (ConnChan 0)\<rparr>]"
    by (simp add: demo_tworld_def interest_def)
  have "expected_interest demo_conn_poller (demo_tworld st out)
      = [7 \<mapsto> \<lparr>ev_events = demo_events out, ev_ptr = Some (ConnChan 0)\<rparr>]"
    by (rule ext) (simp add: expected_interest_def demo_conn_poller_def chs fields)
  with int fields have "poller_inv demo_conn_poller (demo_tworld st out)"
    unfolding poller_inv_def by (simp add: demo_conn_poller_def chs kInitEventListSize_def)
  moreover have "7 \<in> open_fds (ktrace (demo_tworld st out))" by (simp add: demo_tworld_def open_fds_def)
  ultimately show ?thesis
    using fields by (simp add: serves_def attachable_def demo_conn_poller_def) (simp add: demo_tworld_def demo_conn_poller_def)
qed

lemma short_string: "length s \<le> 1000 \<Longrightarrow> length s \<le> max_size"
  by (simp add: max_size_def)

section \<open>Sending succeeds\<close>

lemma write_now_io:
  assumes "write_now K c data w = (nw, rm, fault, w')"
  shows "only_io w w'"
  using assms
  by (auto simp: write_now_def sys_write_def Let_def split: sysret.splits option.splits if_splits)

lemma mark_high_water_io [simp]: "only_io w (mark_high_water K c m n w)"
  by (simp add: mark_high_water_def split: option.split)

lemma buffer_rest_total:
  assumes ser: "serves l (ConnChan c) p w" and law: "epoll_ctl_law K"
    and inv: "Buffer_inv (tc_outputBuffer (conns w c))" and sum: "nw + rm = length data"
    and room: "length (pending c w) + 2 * length data + 8 \<le> max_size"
  shows "\<exists>p' w'. buffer_rest K c data nw rm w = Inr w' \<and> serves l (ConnChan c) p' w'"
proof -
  let ?m = "mark_high_water K c (readableBytes (tc_outputBuffer (conns w c))) rm w"
  have d: "vec_read nw rm data = Inr (drop nw data)" using sum by (simp add: vec_read_def)
  have "length (Buffer_content (tc_outputBuffer (conns w c))) + 2 * length (drop nw data) + 8 \<le> max_size"
    using room by (simp add: pending_def)
  from Buffer_append_total [OF inv this] obtain b where
    b: "Buffer_append (drop nw data) (tc_outputBuffer (conns w c)) = Inr b" by blast
  let ?v = "map_conn c (\<lambda>t. t\<lparr>tc_outputBuffer := b\<rparr>) ?m"
  have io: "only_io w ?v" by simp
  have v: "serves l (ConnChan c) p ?v" by (rule only_io_serves [OF io ser])
  show ?thesis
  proof (cases "isWriting (chans ?m (ConnChan c))")
    case True
    then have "buffer_rest K c data nw rm w = Inr ?v" using d b by (simp add: buffer_rest_def mark_high_water_spec(2) Let_def)
    with v show ?thesis by blast
  next
    case False
    then have "buffer_rest K c data nw rm w = enablewriting K (ConnChan c) ?v"
      using d b by (simp add: buffer_rest_def mark_high_water_spec(2) Let_def)
    with enable_totals(3) [OF v law] show ?thesis by auto
  qed
qed

lemma sendInLoop_total:
  assumes ser: "serves l (ConnChan c) p w" and laws: "epoll_ctl_law K" "write_law K" and inv: "conn_inv c w"
    and priv: "private_fd c w" and room: "length (pending c w) + 2 * length data + 8 \<le> max_size"
  shows "\<exists>p' w'. sendInLoop K c data w = Inr w' \<and> serves l (ConnChan c) p' w'"
proof -
  have bi: "Buffer_inv (tc_outputBuffer (conns w c))" using inv by (simp add: conn_inv_def)
  have len: "length data \<le> max_size" using room by simp
  obtain nw rm fault v where wn: "write_now K c data w = (nw, rm, fault, v)" by (metis prod_cases4)
  note spec = write_now_spec [OF wn len laws(2) priv]
  have v: "serves l (ConnChan c) p v" by (rule only_io_serves [OF write_now_io [OF wn] ser])
  have "pending c v = pending c w" "Buffer_inv (tc_outputBuffer (conns v c))" using spec(2) bi by (simp_all add: pending_def)
  then have rest: "\<exists>p' w'. buffer_rest K c data nw rm v = Inr w' \<and> serves l (ConnChan c) p' w'"
    using buffer_rest_total [OF v laws(1) _ spec(4)] room by simp
  have rest0: "\<exists>p' w'. buffer_rest K c data 0 (length data) w = Inr w' \<and> serves l (ConnChan c) p' w'"
    using buffer_rest_total [OF ser laws(1) bi _ room] by simp
  have "serves l (ConnChan c) p (LOG K ERROR ''disconnected, give up writing!'' [] w)"
    by (rule only_io_serves [OF _ ser]) simp
  with rest rest0 ser v show ?thesis by (auto simp: sendInLoop_def wn)
qed

section \<open>Properties\<close>



text \<open>
  C22: a writable event moves bytes from the output buffer to the kernel and does nothing else to the
  stream: it succeeds whatever the kernel answers, the bytes taken followed by the unsent bytes stay
  the same, and the interest in writability ends exactly when the last byte is taken.
\<close>

theorem handleWrite_correct:
  assumes "serves l (ConnChan c) p w" "epoll_ctl_law K" "write_law K" "conn_inv c w" "private_fd c w"
  shows "\<exists>w'. handleWrite K c w = Inr w' \<and> conn_inv c w' \<and> stream c w' = stream c w
    \<and> (isWriting (chans w (ConnChan c)) \<longrightarrow> pending c w' =
         (case k_write K (ktrace w) (conn_fd c w) (pending c w) of Ok n \<Rightarrow> drop n (pending c w) | Fail e \<Rightarrow> pending c w))
    \<and> (tc_state (conns w c) \<noteq> kDisconnected \<longrightarrow> (isWriting (chans w' (ConnChan c)) \<longleftrightarrow> pending c w' \<noteq> []))"
proof -
  obtain w' where w': "handleWrite K c w = Inr w'" using handleWrite_total [OF assms(1,2,4,3)] by blast
  note spec = handleWrite_spec [OF w' assms(4,3,5)]
  have wr: "tc_state (conns w c) \<noteq> kDisconnected \<longrightarrow> (isWriting (chans w' (ConnChan c)) \<longleftrightarrow> pending c w' \<noteq> [])"
    using spec(2,3) by (auto simp: conn_inv_def)
  have "pending c w' = (case k_write K (ktrace w) (conn_fd c w) (pending c w) of
      Ok n \<Rightarrow> drop n (pending c w) | Fail e \<Rightarrow> pending c w)" if iw: "isWriting (chans w (ConnChan c))"
  proof (cases "k_write K (ktrace w) (conn_fd c w) (pending c w)")
    case (Fail e)
    then show ?thesis using w' iw unfolding handleWrite_cases [OF assms(4,3)] by (auto simp: pending_def)
  next
    case (Ok n)
    have bi: "Buffer_inv (tc_outputBuffer (conns w c))" using assms(4) by (simp add: conn_inv_def)
    have "pending c (drained K c v) = drop n (pending c w)" if "disableWriting K (ConnChan c) (wrote c n w) = Inr v" for v
      using tworld_more(1) [OF channel_opD(5) [OF channel_ops(4) [OF that]]] wrote_pending(1) [OF bi, of n]
      by (simp add: pending_def drained_spec(2))
    then show ?thesis
      using w' iw Ok wrote_pending(1) [OF bi, of n] unfolding handleWrite_cases [OF assms(4,3)]
      by (auto simp: pending_def split: if_splits)
  qed
  with w' spec wr show ?thesis by blast
qed

theorem handleWrite_correct_witness:
  "\<exists>w'. handleWrite (plain_kernel 2 []) 0 (demo_tworld kConnected ''hello'') = Inr w'
    \<and> stream 0 w' = ''hello'' \<and> pending 0 w' = ''llo''"
proof -
  have ans: "k_write (plain_kernel 2 []) tr f d = Ok (min 2 (length d))" for tr f d by (simp add: plain_kernel_def)
  show ?thesis
    using handleWrite_correct [of 0 0 demo_conn_poller "demo_tworld kConnected ''hello''" "plain_kernel 2 []"]
    by (auto simp: ans)
qed



text \<open>
  A writable event queues the write-complete callback exactly when it has taken the last unsent byte.
\<close>

theorem write_callback_exact:
  assumes "handleWrite K c w = Inr w'" "conn_inv c w" "write_law K" "private_fd c w"
  shows "queue_of c w' = queue_of c w
    @ (if isWriting (chans w (ConnChan c)) \<and> pending c w' = [] then complete_functor c w else [])"
  by (rule handleWrite_queue [OF assms])

theorem write_callback_exact_witness:
  "\<exists>w'. handleWrite (plain_kernel 5 []) 0 (demo_tworld kConnected ''hello'') = Inr w'
    \<and> queue_of 0 w' = [Bind_writeComplete 3 0]"
proof -
  let ?K = "plain_kernel 5 []" and ?w = "demo_tworld kConnected ''hello''"
  have ans: "k_write ?K tr f d = Ok (min 5 (length d))" for tr f d by (simp add: plain_kernel_def)
  have inv: "conn_inv 0 ?w" "serves 0 (ConnChan 0) demo_conn_poller ?w" by simp_all
  obtain w' where w': "handleWrite ?K 0 ?w = Inr w'"
    using handleWrite_total [OF inv(2) _ inv(1), of ?K] by auto
  then obtain v where "disableWriting ?K (ConnChan 0) (wrote 0 (length ''hello'') ?w) = Inr v" "w' = drained ?K 0 v"
    using handleWrite_cases [OF inv(1), of ?K] by (auto simp: ans)
  moreover have "pending 0 (wrote 0 (length ''hello'') ?w) = []"
    using wrote_pending(1) [of ?w 0] inv(1) by (simp add: conn_inv_def)
  ultimately have "pending 0 w' = []"
    using tworld_more(1) [OF channel_opD(5) [OF channel_ops(4)]] by (fastforce simp: pending_def drained_spec(2))
  then show ?thesis using write_callback_exact [OF w' inv(1)] w' by simp
qed

lemma graceful_tail:
  assumes "conn_inv c w" "serves l (ConnChan c) p w" "epoll_ctl_law K" "write_law K" "private_fd c w"
    and "tc_state (conns w c) = kDisconnecting" "accepts_writes K (conn_fd c w)"
  shows "\<exists>m w' tr r. m \<le> length (pending c w) \<and> passes (handleWrite K c) m (shutdownInLoop K c w) = Inr w'
    \<and> pending c w' = [] \<and> ktrace w' = tr @ [EvShutdown (conn_fd c w) r] \<and> written (conn_fd c w) tr = stream c w"
proof (cases "pending c w = []")
  case True
  then have "\<not> isWriting (chans w (ConnChan c))" using assms(1) by (auto simp: conn_inv_def)
  then have "\<exists>r. ktrace (shutdownInLoop K c w) = ktrace w @ [EvShutdown (conn_fd c w) r]"
    using assms(1) by (auto simp: shutdownInLoop_spec(6) conn_inv_def conn_fd_def)
  moreover have "passes (handleWrite K c) 0 (shutdownInLoop K c w) = Inr (shutdownInLoop K c w)" by simp
  moreover have "pending c (shutdownInLoop K c w) = []" using True by (simp add: pending_def shutdownInLoop_spec(2))
  moreover have "written (conn_fd c w) (ktrace w) = stream c w" using True by (simp add: stream_def)
  ultimately show ?thesis using le0 by blast
next
  case False
  then have "isWriting (chans w (ConnChan c))" using assms(1,6) by (simp add: conn_inv_def)
  then have "shutdownInLoop K c w = w" by (simp add: shutdownInLoop_def)
  then show ?thesis using graceful_close_ind [OF assms(1-6) False assms(7)] by auto
qed

lemma shutdown_in_loop:
  assumes "conn_inv c w" "serves l (ConnChan c) p w" "private_fd c w" "tc_state (conns w c) = kConnected"
    and "isInLoopThread (tc_loop (conns w c)) w" "c \<in> live w"
  shows "TcpConnection_shutdown K c w = Inr (shutdownInLoop K c (map_conn c (setState kDisconnecting) w))"
    "conn_inv c (map_conn c (setState kDisconnecting) w)" "serves l (ConnChan c) p (map_conn c (setState kDisconnecting) w)"
    "private_fd c (map_conn c (setState kDisconnecting) w)" "tc_state (conns (map_conn c (setState kDisconnecting) w) c) = kDisconnecting"
    "conn_fd c (map_conn c (setState kDisconnecting) w) = conn_fd c w" "pending c (map_conn c (setState kDisconnecting) w) = pending c w"
    "stream c (map_conn c (setState kDisconnecting) w) = stream c w"
proof -
  let ?v = "map_conn c (setState kDisconnecting) w"
  show pe: "pending c ?v = pending c w" by (simp add: pending_def setState_def)
  show fd: "conn_fd c ?v = conn_fd c w" by (simp add: conn_fd_def)
  show "stream c ?v = stream c w" using pe fd by (simp add: stream_def)
  show "tc_state (conns ?v c) = kDisconnecting" by (simp add: setState_def)
  show "conn_inv c ?v" using assms(1,4) by (auto simp: conn_inv_def setState_def pending_def)
  show "serves l (ConnChan c) p ?v" by (rule only_io_serves [OF _ assms(2)]) simp
  show "private_fd c ?v" by (rule private_fd_frame [OF assms(3), where c' = c]) simp
  show "TcpConnection_shutdown K c w = Inr (shutdownInLoop K c ?v)"
    using assms(4-6) by (simp add: TcpConnection_shutdown_def runInLoop_def isInLoopThread_def setState_def)
qed

text \<open>
  C4: \<open>shutdown\<close> closes the write side only behind the data: called in the loop's thread on an open
  connection whose peer keeps reading, it leads, after at most as many writable events as there are
  unsent bytes, to a \<^verbatim>\<open>shutdown\<close> call that comes after all bytes sent have been taken by the kernel.
\<close>

theorem graceful_close:
  assumes "serves l (ConnChan c) p w" "epoll_ctl_law K" "write_law K" "conn_inv c w" "private_fd c w"
    and "tc_state (conns w c) = kConnected" "isInLoopThread (tc_loop (conns w c)) w" "c \<in> live w"
    and "accepts_writes K (conn_fd c w)"
  shows "\<exists>w1 m w' tr r. TcpConnection_shutdown K c w = Inr w1 \<and> tc_state (conns w1 c) = kDisconnecting
    \<and> m \<le> length (pending c w) \<and> passes (handleWrite K c) m w1 = Inr w' \<and> pending c w' = []
    \<and> ktrace w' = tr @ [EvShutdown (conn_fd c w) r] \<and> written (conn_fd c w) tr = stream c w"
proof -
  note v = shutdown_in_loop [OF assms(4,1,5-8)]
  have "accepts_writes K (conn_fd c (map_conn c (setState kDisconnecting) w))" using assms(9) v(6) by simp
  from graceful_tail [OF v(2,3) assms(2,3) v(4,5) this] v
  have "\<exists>m w' tr r. m \<le> length (pending c w) \<and> passes (handleWrite K c) m (shutdownInLoop K c (map_conn c (setState kDisconnecting) w)) = Inr w'
    \<and> pending c w' = [] \<and> ktrace w' = tr @ [EvShutdown (conn_fd c w) r] \<and> written (conn_fd c w) tr = stream c w"
    by simp
  then show ?thesis using v(1) [of K] v(5) by (simp add: shutdownInLoop_spec(2))
qed

theorem graceful_close_witness:
  "\<exists>w1 m w' tr r. TcpConnection_shutdown (plain_kernel 2 []) 0 (demo_tworld kConnected ''hello'') = Inr w1
    \<and> m \<le> length ''hello'' \<and> passes (handleWrite (plain_kernel 2 []) 0) m w1 = Inr w'
    \<and> ktrace w' = tr @ [EvShutdown 7 r] \<and> written 7 tr = ''hello''"
proof -
  have acc: "accepts_writes (plain_kernel 2 []) (conn_fd 0 (demo_tworld kConnected ''hello''))"
    by (auto simp: accepts_writes_def plain_kernel_def)
  have inv: "serves 0 (ConnChan 0) demo_conn_poller (demo_tworld kConnected ''hello'')"
    "conn_inv 0 (demo_tworld kConnected ''hello'')" "private_fd 0 (demo_tworld kConnected ''hello'')"
    "tc_state (conns (demo_tworld kConnected ''hello'') 0) = kConnected"
    "isInLoopThread (tc_loop (conns (demo_tworld kConnected ''hello'') 0)) (demo_tworld kConnected ''hello'')"
    "0 \<in> live (demo_tworld kConnected ''hello'')"
    by (simp_all, simp add: demo_tworld_def)
  from graceful_close [OF inv(1) plain_kernel_laws(3,1) inv(2-6) acc]
  show ?thesis unfolding demo_fields by blast
qed

end
