(* ===== verification/ConnectionEvents.thy ===== *)
theory ConnectionEvents
  imports ConnectionOutput
begin

text \<open>
  What the user's code may do (\<open>api_run\<close>), the invariant of all connections (\<open>conns_inv\<close>), and the
  relation \<open>advances\<close> that every step of the library and of such user code keeps: queues grow at their
  end, states only move forward, and the bytes of a connection only get more.
\<close>

section \<open>What user code may do\<close>

definition new_string :: "string \<Rightarrow> 'z tworld_scheme \<Rightarrow> nat \<times> 'z tworld_scheme" where
  "new_string s w = (next_string w,
     w\<lparr>strings := (strings w)(next_string w \<mapsto> s), next_string := next_string w + 1\<rparr>)"

definition delete_string :: "nat \<Rightarrow> 'z tworld_scheme \<Rightarrow> 'z tworld_scheme" where
  "delete_string p w = w\<lparr>strings := (strings w)(p := None)\<rparr>"

text \<open>
  One call: sending a string, shutting down, taking bytes out of the input buffer, setting a callback,
  creating or destroying a string, queueing a functor, asking a loop to quit, logging.
\<close>

inductive api_step :: "kernel \<Rightarrow> 'z tworld_scheme \<Rightarrow> 'z tworld_scheme \<Rightarrow> bool" for K where
  api_send: "c \<in> live w \<Longrightarrow> TcpConnection_send K c p w = Inr w' \<Longrightarrow> api_step K w w'"
| api_shutdown: "c \<in> live w \<Longrightarrow> TcpConnection_shutdown K c w = Inr w' \<Longrightarrow> api_step K w w'"
| api_retrieve: "c \<in> live w \<Longrightarrow>
    api_step K w (map_conn c (\<lambda>t. t\<lparr>tc_inputBuffer := retrieve n (tc_inputBuffer t)\<rparr>) w)"
| api_complete: "c \<in> live w \<Longrightarrow> api_step K w (map_conn c (setWriteCompleteCallback cb) w)"
| api_mark: "c \<in> live w \<Longrightarrow> api_step K w (map_conn c (setHighWaterMarkCallback cb n) w)"
| api_new: "length s \<le> max_size \<Longrightarrow> api_step K w (snd (new_string s w))"
| api_delete: "api_step K w (delete_string p w)"
| api_queue: "api_step K w (queueInLoop K l (User_functor u) w)"
| api_quit: "api_step K w (EventLoop_quit K l w)"
| api_log: "api_step K w (LOG K lv fmt args w)"

inductive api_run :: "kernel \<Rightarrow> 'z tworld_scheme \<Rightarrow> 'z tworld_scheme \<Rightarrow> bool" for K where
  api_done: "api_run K w w"
| api_more: "api_run K u v \<Longrightarrow> api_step K v w \<Longrightarrow> api_run K u w"

definition user_law :: "kernel \<Rightarrow> 'z tworld_scheme user \<Rightarrow> bool" where
  "user_law K U \<longleftrightarrow>
     (\<forall>u c w w'. u_connection U u c w = Inr w' \<longrightarrow> api_run K w w')
   \<and> (\<forall>u c t w w'. u_message U u c t w = Inr w' \<longrightarrow> api_run K w w')
   \<and> (\<forall>u c w w'. u_writeComplete U u c w = Inr w' \<longrightarrow> api_run K w w')
   \<and> (\<forall>u c n w w'. u_highWaterMark U u c n w = Inr w' \<longrightarrow> api_run K w w')
   \<and> (\<forall>u w w'. u_functor U u w = Inr w' \<longrightarrow> api_run K w w')
   \<and> (\<forall>u l w w'. u_threadInit U u l w = Inr w' \<longrightarrow> api_run K w w')"

section \<open>The invariant of all connections\<close>

text \<open>No string is longer than \<^verbatim>\<open>std::string::max_size\<close> allows.\<close>

abbreviation strings_ok :: "'z tworld_scheme \<Rightarrow> bool" where
  "strings_ok w \<equiv> \<forall>p s. strings w p = Some s \<longrightarrow> length s \<le> max_size"

definition conns_inv :: "'z tworld_scheme \<Rightarrow> bool" where
  "conns_inv w \<longleftrightarrow>
     (\<forall>c \<in> live w. conn_inv c w \<and> private_fd c w \<and> (\<forall>d \<in> live w. d \<noteq> c \<longrightarrow> conn_fd d w \<noteq> conn_fd c w))
   \<and> strings_ok w"

fun state_rank :: "StateE \<Rightarrow> nat" where
  "state_rank kConnecting = 0"
| "state_rank kConnected = 1"
| "state_rank kDisconnecting = 2"
| "state_rank kDisconnected = 3"

text \<open>The states in the order of a connection's life.\<close>

instantiation StateE :: linorder
begin

definition less_eq_StateE :: "StateE \<Rightarrow> StateE \<Rightarrow> bool" where
  "less_eq_StateE s t \<longleftrightarrow> state_rank s \<le> state_rank t"

definition less_StateE :: "StateE \<Rightarrow> StateE \<Rightarrow> bool" where
  "less_StateE s t \<longleftrightarrow> state_rank s < state_rank t"

instance
proof
  fix s t :: StateE
  show "s \<le> t \<Longrightarrow> t \<le> s \<Longrightarrow> s = t" by (cases s; cases t) (simp_all add: less_eq_StateE_def)
qed (auto simp: less_eq_StateE_def less_StateE_def)

end

lemma state_order [simp]: "s \<le> kDisconnected" "kConnecting \<le> s" "kConnected \<le> kDisconnecting"
  by (cases s; simp add: less_eq_StateE_def)+

text \<open>Channels that are not those of connections still to be constructed.\<close>

definition settled :: "chan_id \<Rightarrow> 'z tworld_scheme \<Rightarrow> bool" where
  "settled ch w \<longleftrightarrow> (case ch of ConnChan c \<Rightarrow> c \<in> live w | _ \<Rightarrow> True)"

definition same_role :: "TcpConnection \<Rightarrow> TcpConnection \<Rightarrow> bool" where
  "same_role t t' \<longleftrightarrow> tc_loop t' = tc_loop t \<and> tc_name t' = tc_name t \<and> tc_socket t' = tc_socket t
     \<and> tc_closeCallback t' = tc_closeCallback t \<and> tc_connectionCallback t' = tc_connectionCallback t
     \<and> tc_messageCallback t' = tc_messageCallback t \<and> tc_state t \<le> tc_state t'"

definition advances :: "'z tworld_scheme \<Rightarrow> 'z tworld_scheme \<Rightarrow> bool" where
  "advances w w' \<longleftrightarrow> live w \<subseteq> live w' \<and> (\<forall>l. loop_frame l w w')
     \<and> (\<forall>ch. settled ch w \<longrightarrow> same_dispatch (chans w ch) (chans w' ch)
          \<and> ch_fd (chans w' ch) = ch_fd (chans w ch) \<and> ch_loop (chans w' ch) = ch_loop (chans w ch))
     \<and> (\<forall>c \<in> live w. same_role (conns w c) (conns w' c) \<and> (\<exists>d. stream c w' = stream c w @ d))
     \<and> conns_inv w'"

lemma advances_refl: "conns_inv w \<Longrightarrow> advances w w"
  by (simp add: advances_def same_role_def)

lemma same_dispatch_trans: "same_dispatch a b \<Longrightarrow> same_dispatch b c \<Longrightarrow> same_dispatch a c"
  by (simp add: same_dispatch_def)

lemma same_role_trans: "same_role a b \<Longrightarrow> same_role b c \<Longrightarrow> same_role a c"
  by (auto simp: same_role_def)

lemma settled_mono: "settled ch w \<Longrightarrow> live w \<subseteq> live w' \<Longrightarrow> settled ch w'"
  by (auto simp: settled_def split: chan_id.splits)

lemma advances_trans:
  assumes "advances u v" "advances v w"
  shows "advances u w"
proof -
  have "\<exists>d. stream c w = stream c u @ d" if "c \<in> live u" for c
  proof -
    from assms that obtain d1 d2 where "stream c v = stream c u @ d1" "stream c w = stream c v @ d2"
      unfolding advances_def by (meson subsetD)
    then show ?thesis by simp
  qed
  moreover have "same_dispatch (chans u ch) (chans w ch) \<and> ch_fd (chans w ch) = ch_fd (chans u ch)
      \<and> ch_loop (chans w ch) = ch_loop (chans u ch)" if "settled ch u" for ch
    using assms that settled_mono [of ch u v] unfolding advances_def by (metis same_dispatch_trans)
  moreover have "same_role (conns u c) (conns w c)" if "c \<in> live u" for c
    using assms that unfolding advances_def by (meson same_role_trans subsetD)
  ultimately show ?thesis
    using assms unfolding advances_def by (blast intro: loop_frame_trans)
qed

section \<open>Operations on one connection\<close>

lemma same_chan_conn_frame: "conn_frame c w w' \<Longrightarrow> same_chan (chans w ch) (chans w' ch)"
  by (cases "ch = ConnChan c") (simp_all add: conn_frame_def)

lemma same_conn_conn_frame: "conn_frame c w w' \<Longrightarrow> same_conn (conns w d) (conns w' d)"
  by (cases "d = c") (simp_all add: conn_frame_def)

lemma same_connD2: "same_conn t t' \<Longrightarrow> tc_messageCallback t' = tc_messageCallback t"
  by (cases t; cases t'; simp add: same_conn_def conn_ident_def)

lemma stream_other:
  assumes "conns_inv w" "c \<in> live w" "d \<in> live w" "d \<noteq> c" "conn_frame c w w'"
  shows "stream d w' = stream d w"
proof -
  have "conn_fd d w \<noteq> conn_fd c w" "\<forall>l. el_wakeupFd (loops w l) \<noteq> conn_fd d w"
    using assms(1-4) by (auto simp: conns_inv_def private_fd_def)
  then have "written (conn_fd d w) (ktrace w') = written (conn_fd d w) (ktrace w)"
    using assms(5) by (simp add: conn_frame_def)
  moreover have "conn_fd d w' = conn_fd d w" by (rule conn_frameD(1) [OF assms(5)])
  moreover have "conns w' d = conns w d" using assms(4,5) by (simp add: conn_frame_def)
  ultimately show ?thesis by (simp add: stream_def pending_def)
qed

lemma conns_inv_frame:
  assumes inv: "conns_inv w" and fr: "conn_frame c w w'" and ci: "conn_inv c w'"
  shows "conns_inv w'"
proof -
  have live: "live w' = live w" "strings w' = strings w" using fr by (simp_all add: conn_frame_def)
  have "conn_inv d w'" if "d \<in> live w" for d
  proof (cases "d = c")
    case True
    with ci show ?thesis by simp
  next
    case False
    then have "conns w' d = conns w d" "chans w' (ConnChan d) = chans w (ConnChan d)"
      using fr by (simp_all add: conn_frame_def)
    then show ?thesis using inv that by (simp add: conns_inv_def conn_inv_def pending_def)
  qed
  then show ?thesis
    using inv private_fd_frame [OF _ fr] conn_frameD(1) [OF fr] unfolding conns_inv_def live by simp
qed

lemma advances_conn:
  assumes inv: "conns_inv w" and c: "c \<in> live w" and fr: "conn_frame c w w'" and ci: "conn_inv c w'"
    and st: "tc_state (conns w c) \<le> tc_state (conns w' c)"
    and str: "\<exists>d. stream c w' = stream c w @ d"
  shows "advances w w'"
proof -
  have live: "live w' = live w" using fr by (simp add: conn_frame_def)
  have role: "same_role (conns w d) (conns w' d)" for d
  proof (cases "d = c")
    case True
    then show ?thesis
      using same_connD [OF same_conn_conn_frame [OF fr]] same_connD2 [OF same_conn_conn_frame [OF fr]] st
      by (simp add: same_role_def)
  next
    case False
    then show ?thesis using fr by (simp add: conn_frame_def same_role_def)
  qed
  have "\<exists>x. stream d w' = stream d w @ x" if "d \<in> live w" for d
    using str stream_other [OF inv c that _ fr] by (cases "d = c") auto
  then show ?thesis
    using role live conn_frameD(6) [OF fr] conns_inv_frame [OF inv fr ci]
      same_chanD [OF same_chan_conn_frame [OF fr]]
    by (simp add: advances_def)
qed

text \<open>A step that touches neither connections nor channels, and writes to eventfds only.\<close>

lemma advances_elsewhere:
  assumes inv: "conns_inv w" and "conns w' = conns w" "chans w' = chans w" "live w' = live w"
    and str: "\<forall>p s. strings w' p = Some s \<longrightarrow> length s \<le> max_size" and lf: "\<And>l. loop_frame l w w'"
    and wr: "\<And>f. \<forall>l. el_wakeupFd (loops w l) \<noteq> f \<Longrightarrow> written f (ktrace w') = written f (ktrace w)"
  shows "advances w w'"
proof -
  have fd: "conn_fd c w' = conn_fd c w" "pending c w' = pending c w" for c
    using assms(2,3) by (simp_all add: conn_fd_def pending_def)
  have "el_wakeupFd (loops w' l) = el_wakeupFd (loops w l)" for l using lf by (simp add: loop_frame_def)
  then have priv: "private_fd c w' = private_fd c w" for c using fd by (simp add: private_fd_def)
  then have inv': "conns_inv w'"
    using inv str fd unfolding conns_inv_def conn_inv_def assms(2-4) by simp
  have "stream c w' = stream c w" if "c \<in> live w" for c
    using inv that wr [of "conn_fd c w"] fd by (simp add: stream_def conns_inv_def private_fd_def)
  then show ?thesis
    using assms(2-4) lf inv' by (simp add: advances_def same_role_def)
qed
lemma conns_invD:
  assumes "conns_inv w" "c \<in> live w"
  shows "conn_inv c w" "private_fd c w"
  using assms by (auto simp: conns_inv_def)

lemma advances_queue:
  assumes "conns_inv w"
  shows "advances w (queueInLoop K l cb w)"
  using assms by (intro advances_elsewhere) (auto simp: conns_inv_def queueInLoop_written)

lemma advances_LOG:
  assumes "conns_inv w"
  shows "advances w (LOG K lv fmt args w)"
  using assms by (intro advances_elsewhere) (auto simp: conns_inv_def)

lemma advances_quit:
  assumes "conns_inv w"
  shows "advances w (EventLoop_quit K l w)"
proof (rule advances_elsewhere [OF assms])
  note t = tworld_more [OF quit_spec(5) [of K l w]]
  show "conns (EventLoop_quit K l w) = conns w" "live (EventLoop_quit K l w) = live w"
    by (rule t)+
  show "\<forall>p s. strings (EventLoop_quit K l w) p = Some s \<longrightarrow> length s \<le> max_size"
    using assms t(3) by (simp add: conns_inv_def)
  show "written f (ktrace (EventLoop_quit K l w)) = written f (ktrace w)"
    if "\<forall>l. el_wakeupFd (loops w l) \<noteq> f" for f
    using quit_spec(6) [where K = K and l = l and w = w] that by (auto split: if_splits)
qed (simp_all add: quit_spec(2))

lemma advances_update:
  assumes inv: "conns_inv w" and c: "c \<in> live w" and bi: "Buffer_inv (tc_inputBuffer (f (conns w c)))"
    and role: "same_role (conns w c) (f (conns w c))" "tc_outputBuffer (f (conns w c)) = tc_outputBuffer (conns w c)"
    and open': "tc_state (f (conns w c)) = tc_state (conns w c)"
  shows "advances w (map_conn c f w)"
proof -
  let ?v = "map_conn c f w"
  have live: "live ?v = live w" "strings ?v = strings w" by simp_all
  have fd: "conn_fd d ?v = conn_fd d w" "private_fd d ?v = private_fd d w" for d
    by (simp_all add: conn_fd_def private_fd_def)
  have pe: "pending d ?v = pending d w" for d by (cases "d = c") (simp_all add: pending_def role(2))
  have ci: "conn_inv d ?v" if "d \<in> live w" for d
    using conns_invD(1) [OF inv that] bi role open' pe
    by (cases "d = c") (simp_all add: conn_inv_def same_role_def)
  have inv': "conns_inv ?v" using inv ci fd unfolding conns_inv_def live by simp
  have "same_role (conns w d) (conns ?v d)" for d
    using role(1) by (cases "d = c") (simp_all add: same_role_def)
  moreover have "stream d ?v = stream d w" for d using fd pe by (simp add: stream_def)
  ultimately show ?thesis using inv' live by (simp add: advances_def)
qed

lemma advances_send_data:
  assumes "sendInLoop K c data w = Inr w'" "conns_inv w" "c \<in> live w" "length data \<le> max_size" "write_law K"
  shows "advances w w'"
proof -
  note ci = conns_invD [OF assms(2,3)]
  note spec = sendInLoop_spec [OF assms(1) ci(1) assms(4,5) ci(2)]
  show ?thesis
    by (rule advances_conn [OF assms(2,3) spec(1,2)]) (use spec(3,4) in auto)
qed

lemma advances_send:
  assumes "TcpConnection_send K c p w = Inr w'" "conns_inv w" "c \<in> live w" "write_law K"
  shows "advances w w'"
proof -
  obtain s where s: "strings w p = Some s"
    using assms(1) by (cases "strings w p") (auto simp: TcpConnection_send_def)
  then have len: "length s \<le> max_size" using assms(2) by (simp add: conns_inv_def)
  consider "w' = w" | "sendInLoop K c s w = Inr w'" | "w' = queueInLoop K (tc_loop (conns w c)) (Bind_sendInLoop c p (length s)) w"
  proof -
    assume cases: "w' = w \<Longrightarrow> thesis" "sendInLoop K c s w = Inr w' \<Longrightarrow> thesis"
      "w' = queueInLoop K (tc_loop (conns w c)) (Bind_sendInLoop c p (length s)) w \<Longrightarrow> thesis"
    show thesis
    proof (cases "tc_state (conns w c) = kConnected")
      case False
      with assms(1) s show thesis by (intro cases(1)) (simp add: TcpConnection_send_def)
    next
      case open': True
      show thesis
      proof (cases "isInLoopThread (tc_loop (conns w c)) w")
        case True
        with assms(1) s open' show thesis by (intro cases(2)) (simp add: TcpConnection_send_def)
      next
        case False
        with assms(1) s open' show thesis
          by (intro cases(3)) (simp add: TcpConnection_send_def runInLoop_def)
      qed
    qed
  qed
  then show ?thesis
    using advances_refl advances_queue advances_send_data len assms(2-4) by cases blast+
qed

lemma advances_conn_refl:
  assumes "conns_inv w" "c \<in> live w" "conn_frame c w w'" "conns w' = conns w" "chans w' = chans w"
    and "written (conn_fd c w) (ktrace w') = written (conn_fd c w) (ktrace w)"
  shows "advances w w'"
proof (rule advances_conn [OF assms(1-3)])
  show "conn_inv c w'" using conns_invD(1) [OF assms(1,2)] assms(4,5) by (simp add: conn_inv_def pending_def)
  show "\<exists>d. stream c w' = stream c w @ d"
    using assms(4-6) by (simp add: stream_def pending_def conn_fd_def)
qed (simp add: assms(4))

lemma advances_shutdownInLoop:
  assumes "conns_inv w" "c \<in> live w"
  shows "advances w (shutdownInLoop K c w)"
  by (rule advances_conn_refl [OF assms]) (simp_all add: shutdownInLoop_spec)

text \<open>Moving the state forward while the connection stays open or has nothing to send.\<close>

lemma advances_setState:
  assumes inv: "conns_inv w" and c: "c \<in> live w" and rank: "tc_state (conns w c) \<le> s"
    and op: "s = kDisconnected \<or> tc_state (conns w c) \<noteq> kDisconnected"
  shows "advances w (map_conn c (setState s) w)"
proof (rule advances_conn [OF inv c])
  show "conn_frame c w (map_conn c (setState s) w)" by simp
  show "conn_inv c (map_conn c (setState s) w)"
    using conns_invD(1) [OF inv c] op by (auto simp: conn_inv_def setState_def pending_def)
  show "\<exists>d. stream c (map_conn c (setState s) w) = stream c w @ d"
    by (simp add: stream_def pending_def conn_fd_def setState_def)
qed (use rank in \<open>simp add: setState_def\<close>)

lemma advances_inv: "advances w w' \<Longrightarrow> conns_inv w'"
  by (simp add: advances_def)

lemma advances_live: "advances w w' \<Longrightarrow> c \<in> live w \<Longrightarrow> c \<in> live w'"
  by (auto simp: advances_def)

lemma advances_shutdown:
  assumes "TcpConnection_shutdown K c w = Inr w'" "conns_inv w" "c \<in> live w"
  shows "advances w w'"
proof (cases "tc_state (conns w c) = kConnected")
  case False
  with assms show ?thesis by (simp add: TcpConnection_shutdown_def advances_refl)
next
  case True
  let ?v = "map_conn c (setState kDisconnecting) w"
  have v: "advances w ?v" using True by (intro advances_setState [OF assms(2,3)]) auto
  have "c \<in> live ?v" using assms(3) by simp
  then have "w' = shutdownInLoop K c ?v \<or> w' = queueInLoop K (tc_loop (conns ?v c)) (Bind_shutdownInLoop c) ?v"
    using assms(1) True by (auto simp: TcpConnection_shutdown_def runInLoop_def Let_def split: if_splits)
  then have "advances ?v w'"
    using advances_inv [OF v] \<open>c \<in> live ?v\<close> advances_shutdownInLoop advances_queue by blast
  with v show ?thesis by (rule advances_trans)
qed

lemma advances_api_step:
  assumes "api_step K w w'" "conns_inv w" "write_law K"
  shows "advances w w'"
  using assms(1)
proof cases
  case (api_send c p)
  then show ?thesis using advances_send assms(2,3) by blast
next
  case (api_shutdown c)
  then show ?thesis using advances_shutdown assms(2) by blast
next
  case (api_retrieve c n)
  then have "Buffer_inv (tc_inputBuffer (conns w c))" using conns_invD(1) [OF assms(2)] by (simp add: conn_inv_def)
  from retrieve_spec(1) [OF this] api_retrieve show ?thesis
    by (simp add: advances_update [OF assms(2)] same_role_def)
next
  case (api_complete c cb)
  then have "Buffer_inv (tc_inputBuffer (conns w c))" using conns_invD(1) [OF assms(2)] by (simp add: conn_inv_def)
  with api_complete show ?thesis
    by (simp add: advances_update [OF assms(2)] same_role_def setWriteCompleteCallback_def)
next
  case (api_mark c cb n)
  then have "Buffer_inv (tc_inputBuffer (conns w c))" using conns_invD(1) [OF assms(2)] by (simp add: conn_inv_def)
  with api_mark show ?thesis
    by (simp add: advances_update [OF assms(2)] same_role_def setHighWaterMarkCallback_def)
next
  case (api_new s)
  have lf: "loop_frame l w w'" for l by (rule loop_frame_same) (simp_all add: api_new new_string_def)
  show ?thesis
    by (rule advances_elsewhere [OF assms(2)])
      (use assms(2) lf api_new in \<open>auto simp: new_string_def conns_inv_def\<close>)
next
  case (api_delete p)
  have lf: "loop_frame l w w'" for l by (rule loop_frame_same) (simp_all add: api_delete delete_string_def)
  show ?thesis
    by (rule advances_elsewhere [OF assms(2)])
      (use assms(2) lf api_delete in \<open>auto simp: delete_string_def conns_inv_def\<close>)
qed (use advances_queue advances_quit advances_LOG assms(2) in auto)

lemma advances_api_run:
  assumes "api_run K w w'" "conns_inv w" "write_law K"
  shows "advances w w'"
  using assms
proof (induction rule: api_run.induct)
  case (api_done w)
  then show ?case by (simp add: advances_refl)
next
  case (api_more u v w)
  then show ?case using advances_trans advances_api_step advances_inv by blast
qed

section \<open>Events and lifetime\<close>

lemma advances_user:
  assumes law: "user_law K U" "write_law K" and inv: "conns_inv w"
  shows "u_connection U u c w = Inr w' \<Longrightarrow> advances w w'" "u_message U u c t w = Inr w' \<Longrightarrow> advances w w'"
    "u_writeComplete U u c w = Inr w' \<Longrightarrow> advances w w'" "u_highWaterMark U u c n w = Inr w' \<Longrightarrow> advances w w'"
    "u_functor U u w = Inr w' \<Longrightarrow> advances w w'" "u_threadInit U u l w = Inr w' \<Longrightarrow> advances w w'"
proof -
  have run: "api_run K w w' \<Longrightarrow> advances w w'" by (rule advances_api_run [OF _ inv law(2)])
  show "u_connection U u c w = Inr w' \<Longrightarrow> advances w w'" "u_message U u c t w = Inr w' \<Longrightarrow> advances w w'"
    "u_writeComplete U u c w = Inr w' \<Longrightarrow> advances w w'" "u_highWaterMark U u c n w = Inr w' \<Longrightarrow> advances w w'"
    "u_functor U u w = Inr w' \<Longrightarrow> advances w w'" "u_threadInit U u l w = Inr w' \<Longrightarrow> advances w w'"
    using law(1) by (auto simp: user_law_def intro: run)
qed

lemma advances_call_connection:
  assumes "call_connection U c w = Inr w'" "user_law K U" "write_law K" "conns_inv w"
  shows "advances w w'"
  using assms advances_user(1) by (auto simp: call_connection_def split: option.splits)

lemma advances_channel_op:
  assumes op: "channel_op f (ConnChan c) w w'" and inv: "conns_inv w" and c: "c \<in> live w"
    and same: "\<And>i. same_chan (chans w (ConnChan c)) (set_index i (f (chans w (ConnChan c))))"
    and wr: "isWriting (f (chans w (ConnChan c))) = isWriting (chans w (ConnChan c))
      \<or> \<not> isWriting (f (chans w (ConnChan c))) \<and> tc_state (conns w c) = kDisconnected"
  shows "advances w w'"
proof -
  have fr: "conn_frame c w w'" by (rule conn_frame_channel_op [OF op same])
  have cs: "conns w' = conns w" by (rule tworld_more(1) [OF channel_opD(5) [OF op]])
  obtain i where i: "chans w' (ConnChan c) = set_index i (f (chans w (ConnChan c)))"
    using channel_opD(7) [OF op] by blast
  have "conn_inv c w'"
    using conns_invD(1) [OF inv c] conn_frameD(2,8) [OF fr, of "ConnChan c"] wr
    unfolding conn_inv_def pending_def cs by (auto simp: i)
  moreover have "stream c w' = stream c w"
    using channel_opD(2) [OF op] conn_frameD(1) [OF fr] cs by (simp add: stream_def pending_def)
  ultimately show ?thesis by (intro advances_conn [OF inv c fr]) (simp_all add: cs)
qed

lemma advances_channel_ops:
  assumes "conns_inv w" "c \<in> live w"
  shows "enableReading K (ConnChan c) w = Inr w' \<Longrightarrow> advances w w'"
    and "Channel_remove K (ConnChan c) w = Inr w' \<Longrightarrow> advances w w'"
    and "disableAll K (ConnChan c) w = Inr w' \<Longrightarrow> tc_state (conns w c) = kDisconnected \<Longrightarrow> advances w w'"
proof -
  show "enableReading K (ConnChan c) w = Inr w' \<Longrightarrow> advances w w'"
    by (rule advances_channel_op [OF channel_ops(1) assms]) (auto simp: channel_bits)
  show "Channel_remove K (ConnChan c) w = Inr w' \<Longrightarrow> advances w w'"
    by (rule advances_channel_op [OF Channel_remove_op assms]) auto
  show "disableAll K (ConnChan c) w = Inr w' \<Longrightarrow> tc_state (conns w c) = kDisconnected \<Longrightarrow> advances w w'"
    by (rule advances_channel_op [OF channel_ops(5) assms]) (auto simp: channel_bits)
qed

lemma advances_tie:
  assumes inv: "conns_inv w"
  shows "advances w (map_chan (ConnChan c) (Channel_tie c) w)"
proof -
  let ?v = "map_chan (ConnChan c) (Channel_tie c) w"
  have ch: "same_dispatch (chans w ch) (chans ?v ch) \<and> ch_fd (chans ?v ch) = ch_fd (chans w ch)
      \<and> ch_loop (chans ?v ch) = ch_loop (chans w ch) \<and> isWriting (chans ?v ch) = isWriting (chans w ch)" for ch
    by (cases "ch = ConnChan c") (simp_all add: Channel_tie_def same_dispatch_def isWriting_def)
  have fd: "conn_fd d ?v = conn_fd d w" "pending d ?v = pending d w" "private_fd d ?v = private_fd d w" for d
    using ch [of "ConnChan d"] by (simp_all add: conn_fd_def pending_def private_fd_def)
  have "conn_inv d ?v = conn_inv d w" for d
    using ch [of "ConnChan d"] fd by (simp add: conn_inv_def)
  then have "conns_inv ?v" using inv fd by (simp add: conns_inv_def)
  then show ?thesis using ch fd by (simp add: advances_def same_role_def stream_def)
qed

lemma advances_connectEstablished:
  assumes r: "connectEstablished K U c w = Inr w'" and inv: "conns_inv w" "c \<in> live w"
    and laws: "user_law K U" "write_law K" and st: "tc_state (conns w c) = kConnecting"
  shows "advances w w'"
proof -
  let ?v = "map_conn c (setState kConnected) w"
  let ?t = "map_chan (ConnChan c) (Channel_tie c) ?v"
  obtain x where x: "enableReading K (ConnChan c) ?t = Inr x" "call_connection U c x = Inr w'"
    using r by (auto simp: connectEstablished_def Let_def)
  have v: "advances w ?v" using st by (intro advances_setState [OF inv]) auto
  have t: "advances ?v ?t" by (rule advances_tie [OF advances_inv [OF v]])
  have e: "advances ?t x" using advances_channel_ops(1) [OF advances_inv [OF t] _ x(1)] inv(2) by simp
  have "advances x w'" by (rule advances_call_connection [OF x(2) laws advances_inv [OF e]])
  with v t e show ?thesis by (blast intro: advances_trans)
qed

lemma advances_connectDestroyed:
  assumes r: "connectDestroyed K U c w = Inr w'" and inv: "conns_inv w" "c \<in> live w"
    and laws: "user_law K U" "write_law K"
  shows "advances w w'"
proof -
  have rem: "Channel_remove K (ConnChan c) x = Inr w' \<Longrightarrow> conns_inv x \<Longrightarrow> c \<in> live x \<Longrightarrow> advances x w'" for x
    using advances_channel_ops(2) by blast
  show ?thesis
  proof (cases "tc_state (conns w c) = kConnected")
    case False
    with r rem inv show ?thesis by (simp add: connectDestroyed_def)
  next
    case True
    let ?v = "map_conn c (setState kDisconnected) w"
    obtain x y where x: "disableAll K (ConnChan c) ?v = Inr x" "call_connection U c x = Inr y"
      "Channel_remove K (ConnChan c) y = Inr w'"
      using r True by (auto simp: connectDestroyed_def)
    have v: "advances w ?v" using True by (intro advances_setState [OF inv]) auto
    have 1: "advances ?v x"
      using advances_channel_ops(3) [OF advances_inv [OF v] _ x(1)] inv(2) by (simp add: setState_def)
    have 2: "advances x y" by (rule advances_call_connection [OF x(2) laws advances_inv [OF 1]])
    have "c \<in> live y" using inv(2) v 1 2 advances_live by blast
    from rem [OF x(3) advances_inv [OF 2] this] v 1 2 show ?thesis by (blast intro: advances_trans)
  qed
qed

lemma advances_handleWrite:
  assumes "handleWrite K c w = Inr w'" "conns_inv w" "c \<in> live w" "write_law K"
  shows "advances w w'"
proof -
  note ci = conns_invD [OF assms(2,3)]
  note spec = handleWrite_spec [OF assms(1) ci(1) assms(4) ci(2)]
  show ?thesis by (rule advances_conn [OF assms(2,3) spec(1,2)]) (use spec(3,4) in auto)
qed

lemma advances_handleError:
  assumes "conns_inv w" "c \<in> live w"
  shows "advances w (handleError K c w)"
proof (rule advances_conn_refl [OF assms])
  show "conn_frame c w (handleError K c w)" by (simp add: handleError_def sys_getsockopt_def Let_def)
qed (simp_all add: handleError_def sys_getsockopt_def Let_def)

text \<open>The close callback is a step of the library.\<close>

definition close_law :: "(CloseCallback \<Rightarrow> conn_id \<Rightarrow> 'z tworld_scheme \<Rightarrow> 'z tworld_scheme res) \<Rightarrow> bool" where
  "close_law run_close \<longleftrightarrow>
     (\<forall>cb c w w'. run_close cb c w = Inr w' \<longrightarrow> conns_inv w \<longrightarrow> c \<in> live w \<longrightarrow> advances w w')"

lemma advances_handleClose:
  assumes r: "handleClose K U run_close c w = Inr w'" and inv: "conns_inv w" "c \<in> live w"
    and laws: "user_law K U" "write_law K" "close_law run_close"
  shows "advances w w'"
proof -
  let ?u = "LOG K INFO ''fd=%d state=%d \<newline>'' [AInt (ch_fd (chans w (ConnChan c))),
                AInt (StateE_num (tc_state (conns w c)))] w"
  let ?v = "map_conn c (setState kDisconnected) ?u"
  obtain x y cb where x: "disableAll K (ConnChan c) ?v = Inr x" "call_connection U c x = Inr y"
    "run_close cb c y = Inr w'"
    using r by (auto simp: handleClose_def Let_def split: option.splits)
  have u: "advances w ?u" by (rule advances_LOG [OF inv(1)])
  have v: "advances ?u ?v"
    by (rule advances_setState [OF advances_inv [OF u]]) (use inv(2) in \<open>auto\<close>)
  have 1: "advances ?v x"
    using advances_channel_ops(3) [OF advances_inv [OF v] _ x(1)] inv(2) by (simp add: setState_def)
  have 2: "advances x y" by (rule advances_call_connection [OF x(2) laws(1,2) advances_inv [OF 1]])
  have "c \<in> live y" using inv(2) u v 1 2 advances_live by blast
  with x(3) advances_inv [OF 2] laws(3) have "advances y w'" unfolding close_law_def by blast
  with u v 1 2 show ?thesis by (blast intro: advances_trans)
qed

lemma advances_handleRead:
  assumes r: "handleRead K U run_close c t w = Inr w'" and inv: "conns_inv w" "c \<in> live w"
    and laws: "user_law K U" "write_law K" "close_law run_close" "readv_law K"
  shows "advances w w'"
proof -
  let ?b = "tc_inputBuffer (conns w c)"
  obtain n e b v where rd: "readFd K (ch_fd (chans w (ConnChan c))) ?b w = Inr (n, e, b, v)"
    using r by (cases "readFd K (ch_fd (chans w (ConnChan c))) ?b w") (auto simp: handleRead_def)
  let ?x = "map_conn c (\<lambda>t. t\<lparr>tc_inputBuffer := b\<rparr>) v"
  have bi: "Buffer_inv ?b" using conns_invD(1) [OF inv] by (simp add: conn_inv_def)
  have rv: "Buffer_inv b \<and> (\<exists>iov rr. v = record_event (EvReadv (ch_fd (chans w (ConnChan c))) iov rr) w)"
  proof (cases "k_readv K (ktrace w) (ch_fd (chans w (ConnChan c))) (readFd_iov ?b)")
    case (Ok d)
    from readFd_spec [OF bi laws(4) Ok rd] show ?thesis by blast
  next
    case (Fail e)
    with rd bi show ?thesis by (auto simp: readFd_fail)
  qed
  then obtain iov rr where v: "v = record_event (EvReadv (ch_fd (chans w (ConnChan c))) iov rr) w" and bb: "Buffer_inv b"
    by blast
  have 1: "advances w v"
    by (rule advances_conn_refl [OF inv]) (simp_all add: v)
  have c: "c \<in> live v" using v inv(2) by simp
  have 2: "advances v ?x"
    by (rule advances_update [OF advances_inv [OF 1] c]) (simp_all add: bb same_role_def)
  have cx: "c \<in> live ?x" using c by simp
  have res: "(if 0 < n
        then (case tc_messageCallback (conns ?x c) of
                None \<Rightarrow> Inl Bad_function_call | Some u \<Rightarrow> u_message U u c t ?x)
        else if n = 0 then handleClose K U run_close c ?x
        else Inr (handleError K c (LOG K ERROR ''TcpConnection::handleRead'' [] ?x))) = Inr w'"
    using r rd by (simp add: handleRead_def Let_def)
  have "advances ?x w'"
  proof -
    have "advances ?x (LOG K ERROR ''TcpConnection::handleRead'' [] ?x)" by (rule advances_LOG [OF advances_inv [OF 2]])
    moreover have "advances (LOG K ERROR ''TcpConnection::handleRead'' [] ?x)
        (handleError K c (LOG K ERROR ''TcpConnection::handleRead'' [] ?x))"
      using advances_handleError [OF advances_inv [OF calculation]] cx by simp
    ultimately have err: "advances ?x (handleError K c (LOG K ERROR ''TcpConnection::handleRead'' [] ?x))"
      by (rule advances_trans)
    show ?thesis
      using res err advances_user(2) [OF laws(1,2) advances_inv [OF 2]]
        advances_handleClose [OF _ advances_inv [OF 2] cx laws(1-3)]
      by (auto split: if_splits option.splits)
  qed
  with 1 2 show ?thesis by (blast intro: advances_trans)
qed

section \<open>Properties\<close>

text \<open>A user whose callbacks do nothing, and a close callback that does nothing.\<close>

definition idle_user :: "'z tworld_scheme user" where
  "idle_user = \<lparr>u_connection = (\<lambda>u c w. Inr w), u_message = (\<lambda>u c t w. Inr w), u_writeComplete = (\<lambda>u c w. Inr w),
     u_highWaterMark = (\<lambda>u c n w. Inr w), u_functor = (\<lambda>u w. Inr w), u_threadInit = (\<lambda>u l w. Inr w)\<rparr>"

lemma idle_user_law [simp]: "user_law K idle_user"
  by (simp add: user_law_def idle_user_def api_done)

lemma demo_live [simp]: "live (demo_tworld st out) = {0}"
  by (simp add: demo_tworld_def)

lemma demo_conns_inv [simp]: "length out \<le> 1000 \<Longrightarrow> conns_inv (demo_tworld st out)"
  by (simp add: conns_inv_def)

lemma demo_epollfd [simp]: "pl_epollfd demo_conn_poller = 3"
  by (simp add: demo_conn_poller_def)

lemma demo_chan_fields [simp]: "ch_index (demo_chan out) = kAdded" "ch_fd (demo_chan out) = 7"
  by (simp_all add: demo_chan_def Channel_ctor_def)

text \<open>
  C29: closing happens in order: when the connection callback runs, the connection is already disconnected,
  its channel has no interest and the kernel no longer watches its descriptor; the close callback
  follows with whatever the connection callback left; no byte of the stream has changed.
\<close>

theorem handleClose_correct:
  assumes "serves l (ConnChan c) p w" "epoll_ctl_law K" "ch_index (chans w (ConnChan c)) = kAdded"
  shows "\<exists>x. handleClose K U run_close c w = bindE (call_connection U c x)
      (\<lambda>y. case tc_closeCallback (conns y c) of None \<Rightarrow> Inl Bad_function_call | Some cb \<Rightarrow> run_close cb c y)
    \<and> tc_state (conns x c) = kDisconnected \<and> isNoneEvent (chans x (ConnChan c))
    \<and> interest (pl_epollfd p) (ktrace x) (conn_fd c w) = None \<and> stream c x = stream c w"
proof -
  let ?u = "map_conn c (setState kDisconnected) (LOG K INFO ''fd=%d state=%d \<newline>'' [AInt (ch_fd (chans w (ConnChan c))),
                AInt (StateE_num (tc_state (conns w c)))] w)"
  have u: "only_io w ?u" by simp
  obtain p' x where x: "disableAll K (ConnChan c) ?u = Inr x" "serves l (ConnChan c) p' x"
    "hasChannel (ConnChan c) p' x" "pl_epollfd p' = pl_epollfd p"
    "chans x (ConnChan c) = set_index kDeleted (all_off (chans w (ConnChan c)))"
    using enable_totals(5) [OF only_io_serves [OF u assms(1)] assms(2)] assms(3) by auto
  note op = channel_ops(5) [OF x(1)]
  have cs: "conns x = conns ?u" by (rule tworld_more(1) [OF channel_opD(5) [OF op]])
  have fd: "conn_fd c x = conn_fd c w" using x(5) by (simp add: conn_fd_def all_off_def set_index_def)
  have "interest (pl_epollfd p') (ktrace x) = expected_interest p' x"
    using x(2) by (simp add: serves_def poller_inv_def)
  moreover have "pl_channels p' (conn_fd c x) = Some (ConnChan c)"
    using x(3) by (simp add: hasChannel_def conn_fd_def split: option.splits)
  moreover have "ch_index (chans x (ConnChan c)) = kDeleted" unfolding x(5) by simp
  ultimately have "interest (pl_epollfd p) (ktrace x) (conn_fd c x) = None"
    using x(4) by (simp add: expected_interest_def)
  moreover have "stream c x = stream c w"
    using channel_opD(2) [OF op] fd by (simp add: stream_def pending_def cs setState_def)
  moreover have "handleClose K U run_close c w = bindE (call_connection U c x)
      (\<lambda>y. case tc_closeCallback (conns y c) of None \<Rightarrow> Inl Bad_function_call | Some cb \<Rightarrow> run_close cb c y)"
    using x(1) by (simp add: handleClose_def Let_def)
  moreover have "isNoneEvent (chans x (ConnChan c))"
    unfolding x(5) by (simp add: isNoneEvent_def set_index_def all_off_def)
  ultimately show ?thesis using fd by (auto simp: cs setState_def)
qed

theorem handleClose_correct_witness:
  "\<exists>x. handleClose (plain_kernel 4 []) idle_user (\<lambda>cb c w. Inr w) 0 (demo_tworld kConnected ''ab'')
      = bindE (call_connection idle_user 0 x)
          (\<lambda>y. case tc_closeCallback (conns y 0) of None \<Rightarrow> Inl Bad_function_call | Some cb \<Rightarrow> Inr y)
    \<and> tc_state (conns x 0) = kDisconnected \<and> interest 3 (ktrace x) 7 = None"
  using handleClose_correct [of 0 0 demo_conn_poller "demo_tworld kConnected ''ab''" "plain_kernel 4 []"
      idle_user "\<lambda>cb c w. Inr w"]
  by auto

text \<open>
  The machine returns the result of \<^verbatim>\<open>readv\<close> from \<open>readFd\<close>, as the missing \<^verbatim>\<open>return n\<close> would.
\<close>

definition return_law :: "kernel \<Rightarrow> bool" where
  "return_law K \<longleftrightarrow> (\<forall>tr f iov d. k_no_return K (tr @ [EvReadv f iov (Ok d)]) = int (length d))
     \<and> (\<forall>tr f iov e. k_no_return K (tr @ [EvReadv f iov (Fail e)]) = -1)"

lemma plain_return_law [simp]: "return_law (plain_kernel cap input)"
  by (simp add: return_law_def plain_kernel_def)

definition received :: "conn_id \<Rightarrow> 'z tworld_scheme \<Rightarrow> bytes" where
  "received c w = Buffer_content (tc_inputBuffer (conns w c))"



text \<open>
  The missing \<^verbatim>\<open>return\<close> itself: whatever the kernel delivered, a left-over 0 in the result register closes
  the connection, and the message callback is not called.
\<close>

lemma missing_return_closes:
  assumes "conn_inv c w" "readv_law K" "length (received c w) + 4 * extrabuf_size + 8 \<le> max_size"
    and d: "k_readv K (ktrace w) (conn_fd c w) (readFd_iov (tc_inputBuffer (conns w c))) = Ok d"
    and zero: "\<forall>tr. k_no_return K tr = 0"
  shows "\<exists>x. received c x = received c w @ d \<and> handleRead K U run_close c t w = handleClose K U run_close c x"
proof -
  have bi: "Buffer_inv (tc_inputBuffer (conns w c))" using assms(1) by (simp add: conn_inv_def)
  obtain n e b v where rd: "readFd K (conn_fd c w) (tc_inputBuffer (conns w c)) w = Inr (n, e, b, v)"
    using readFd_total [OF bi assms(2)] assms(3) by (fastforce simp: received_def)
  note spec = readFd_spec [OF bi assms(2) d rd]
  then have "handleRead K U run_close c t w = handleClose K U run_close c (map_conn c (\<lambda>t. t\<lparr>tc_inputBuffer := b\<rparr>) v)"
    using rd zero by (simp add: handleRead_def conn_fd_def)
  then show ?thesis using spec(2) by (intro exI) (auto simp: received_def)
qed

text \<open>
  C31: a send from another thread sends nothing itself: it queues a functor that holds a pointer into the
  caller's string and wakes the loop.  Run while the string is still there, the functor sends
  exactly the string; run after the caller has destroyed it, it reads freed memory.
\<close>

theorem cross_thread_send:
  assumes "tc_state (conns w c) = kConnected" "\<not> isInLoopThread (tc_loop (conns w c)) w" "strings w p = Some s"
  shows "\<exists>w' r. TcpConnection_send K c p w = Inr w' \<and> queue_of c w' = queue_of c w @ [Bind_sendInLoop c p (length s)]
    \<and> conns w' = conns w \<and> ktrace w' = ktrace w @ [EvWrite (el_wakeupFd (loops w (tc_loop (conns w c)))) uint64_one r]
    \<and> (\<forall>v. c \<in> live v \<and> strings v p = Some s \<longrightarrow> run_raw K (Bind_sendInLoop c p (length s)) v = sendInLoop K c s v)
    \<and> run_raw K (Bind_sendInLoop c p (length s)) (delete_string p w') = Inl Use_after_free"
proof -
  let ?w = "queueInLoop K (tc_loop (conns w c)) (Bind_sendInLoop c p (length s)) w"
  have "TcpConnection_send K c p w = Inr ?w"
    using assms by (simp add: TcpConnection_send_def runInLoop_def)
  moreover obtain r where "ktrace ?w = ktrace w @ [EvWrite (el_wakeupFd (loops w (tc_loop (conns w c)))) uint64_one r]"
    using queueInLoop_spec(6) [where K = K and l = "tc_loop (conns w c)" and w = w] assms(2) by auto
  moreover have "run_raw K (Bind_sendInLoop c p (length s)) (delete_string p v) = Inl Use_after_free" for v :: "'a tworld_scheme"
    by (simp add: delete_string_def)
  moreover have "vec_read 0 (length s) s = Inr s" by (simp add: vec_read_def)
  ultimately show ?thesis by (intro exI [of _ ?w] exI [of _ r]) simp
qed

theorem cross_thread_send_witness:
  "\<exists>w'. TcpConnection_send (plain_kernel 4 []) 0 0 (snd (new_string ''hi'' ((demo_tworld kConnected [])\<lparr>cur_tid := 9\<rparr>))) = Inr w'
    \<and> queue_of 0 w' = [Bind_sendInLoop 0 0 2]
    \<and> run_raw (plain_kernel 4 []) (Bind_sendInLoop 0 0 2) (delete_string 0 w') = Inl Use_after_free"
proof -
  let ?v = "snd (new_string ''hi'' ((demo_tworld kConnected [])\<lparr>cur_tid := 9\<rparr>))"
  have "tc_state (conns ?v 0) = kConnected" "\<not> isInLoopThread (tc_loop (conns ?v 0)) ?v" "strings ?v 0 = Some ''hi''"
    "queue_of 0 ?v = []"
    by (simp_all add: new_string_def demo_tworld_def isInLoopThread_def queue_of_def)
  from cross_thread_send [OF this(1-3), of "plain_kernel 4 []"] this(4) show ?thesis
    by (auto simp: numeral_2_eq_2)
qed

end
