(* ===== verification/ThreadPool.thy ===== *)
theory ThreadPool
  imports ConnectionEvents CurrentThread "HOL-Library.Multiset"
begin

text \<open>
  \<^verbatim>\<open>Thread.h\<close>, \<^verbatim>\<open>Thread.cc\<close>, \<^verbatim>\<open>EventLoopThread.h\<close>, \<^verbatim>\<open>EventLoopThread.cc\<close>, \<^verbatim>\<open>EventLoopThreadPool.h\<close>,
  \<^verbatim>\<open>EventLoopThreadPool.cc\<close>.  A thread function is split where the parent stops waiting for it:
  \<open>threadFunc_begin\<close> is what runs before \<^verbatim>\<open>loop.loop()\<close>, \<open>threadFunc_end\<close> what runs after it.  That the
  parent does wait, under every interleaving, is the subject of the theory \<open>Handshake\<close>.
\<close>

section \<open>Thread\<close>

record Thread =
  th_started :: bool
  th_joined :: bool
  th_thread :: "int option"
  th_tid :: int
  th_name :: string
  th_detached :: bool

record pworld = tworld +
  numCreated :: int

text \<open>\<^verbatim>\<open>++numCreated_\<close> on an atomic 32-bit integer wraps around.\<close>

definition atomic_incr :: "int \<Rightarrow> int" where
  "atomic_incr n = sint (word_of_int (n + 1) :: 32 word)"

definition setDefaultName :: "Thread \<Rightarrow> 'z pworld_scheme \<Rightarrow> Thread \<times> 'z pworld_scheme" where
  "setDefaultName t w =
     (let num = atomic_incr (numCreated w); w = w\<lparr>numCreated := num\<rparr>
      in (if th_name t = [] then t\<lparr>th_name := snprintf 32 ''Thread%d'' [AInt num]\<rparr> else t, w))"

definition Thread_ctor :: "string \<Rightarrow> 'z pworld_scheme \<Rightarrow> Thread \<times> 'z pworld_scheme" where
  "Thread_ctor name w = setDefaultName \<lparr>th_started = False, th_joined = False, th_thread = None, th_tid = 0,
     th_name = name, th_detached = False\<rparr> w"

definition Thread_dtor :: "Thread \<Rightarrow> Thread" where
  "Thread_dtor t = (if th_started t \<and> \<not> th_joined t then t\<lparr>th_detached := True\<rparr> else t)"

text \<open>
  \<open>start\<close> returns when the new thread has stored its id; the thread function itself is run by the
  caller of this definition, as the new thread (\<open>run_in\<close>).
\<close>

definition Thread_start :: "kernel \<Rightarrow> Thread \<Rightarrow> 'z kworld_scheme \<Rightarrow> Thread \<times> 'z kworld_scheme" where
  "Thread_start K t w =
     (let (t_id, w) = sys_clone K w
      in (t\<lparr>th_started := True, th_thread := Some t_id, th_tid := t_id\<rparr>, w))"

text \<open>
  \<open>join\<close> returns when the joined thread has run to its end (\<open>rest\<close>); it has no \<^verbatim>\<open>return\<close> statement
  either.
\<close>

definition Thread_join ::
    "kernel \<Rightarrow> (int \<Rightarrow> 'z kworld_scheme \<Rightarrow> 'z kworld_scheme res) \<Rightarrow> Thread \<Rightarrow> 'z kworld_scheme
     \<Rightarrow> (int \<times> Thread \<times> 'z kworld_scheme) res" where
  "Thread_join K rest t w =
     (let t = t\<lparr>th_joined := True\<rparr>
      in case th_thread t of
        None \<Rightarrow> Inl Null_dereference
      | Some t_id \<Rightarrow> bindE (rest t_id w) (\<lambda>w. Inr (k_no_return K (ktrace w), t, w)))"

definition run_in :: "int \<Rightarrow> ('z kworld_scheme \<Rightarrow> 'z kworld_scheme res) \<Rightarrow> 'z kworld_scheme \<Rightarrow> 'z kworld_scheme res" where
  "run_in t_id f w = bindE (f (w\<lparr>cur_tid := t_id\<rparr>)) (\<lambda>v. Inr (v\<lparr>cur_tid := cur_tid w\<rparr>))"

section \<open>EventLoopThread\<close>

record EventLoopThread =
  et_loop :: "loop_id option"
  et_exiting :: bool
  et_thread :: Thread
  et_callback :: "user_fun option"

definition EventLoopThread_ctor ::
    "user_fun option \<Rightarrow> string \<Rightarrow> 'z pworld_scheme \<Rightarrow> EventLoopThread \<times> 'z pworld_scheme" where
  "EventLoopThread_ctor cb name w =
     (let (t, w) = Thread_ctor name w
      in (\<lparr>et_loop = None, et_exiting = False, et_thread = t, et_callback = cb\<rparr>, w))"

definition threadFunc_begin ::
    "kernel \<Rightarrow> 'z pworld_scheme user \<Rightarrow> loop_id \<Rightarrow> EventLoopThread \<Rightarrow> 'z pworld_scheme \<Rightarrow> 'z pworld_scheme res" where
  "threadFunc_begin K U loop t w =
     bindE (EventLoop_ctor K loop w) (\<lambda>w.
     case et_callback t of Some cb \<Rightarrow> u_threadInit U cb loop w | None \<Rightarrow> Inr w)"

text \<open>The loop is over: the pointer is cleared and the loop on the stack destroyed.\<close>

definition threadFunc_end ::
    "kernel \<Rightarrow> loop_id \<Rightarrow> EventLoopThread \<Rightarrow> 'z lworld_scheme \<Rightarrow> (EventLoopThread \<times> 'z lworld_scheme) res" where
  "threadFunc_end K loop t w =
     bindE (EventLoop_dtor K loop w) (\<lambda>w. Inr (t\<lparr>et_loop := None\<rparr>, w))"

definition EventLoopThread_startLoop ::
    "kernel \<Rightarrow> 'z pworld_scheme user \<Rightarrow> loop_id \<Rightarrow> EventLoopThread \<Rightarrow> 'z pworld_scheme
     \<Rightarrow> (loop_id \<times> EventLoopThread \<times> 'z pworld_scheme) res" where
  "EventLoopThread_startLoop K U loop t w =
     (let (th, w) = Thread_start K (et_thread t) w; t = t\<lparr>et_thread := th\<rparr>
      in bindE (run_in (th_tid th) (threadFunc_begin K U loop t) w) (\<lambda>w.
         Inr (loop, t\<lparr>et_loop := Some loop\<rparr>, w)))"

text \<open>The destructor: the loop is asked to quit and its thread joined; then \<open>Thread\<close> is destroyed.\<close>

definition EventLoopThread_dtor ::
    "kernel \<Rightarrow> (int \<Rightarrow> 'z lworld_scheme \<Rightarrow> 'z lworld_scheme res) \<Rightarrow> EventLoopThread \<Rightarrow> 'z lworld_scheme
     \<Rightarrow> (EventLoopThread \<times> 'z lworld_scheme) res" where
  "EventLoopThread_dtor K rest t w =
     (let t = t\<lparr>et_exiting := True\<rparr>
      in case et_loop t of
        None \<Rightarrow> Inr (t\<lparr>et_thread := Thread_dtor (et_thread t)\<rparr>, w)
      | Some l \<Rightarrow>
          (let w = EventLoop_quit K l w
           in bindE (Thread_join K rest (et_thread t) w) (\<lambda>(r, th, w).
                Inr (t\<lparr>et_thread := Thread_dtor th\<rparr>, w))))"

section \<open>EventLoopThreadPool\<close>

record EventLoopThreadPool =
  tp_baseLoop :: loop_id
  tp_name :: string
  tp_started :: bool
  tp_numThreads :: int
  tp_next :: int
  tp_threads :: "EventLoopThread list"
  tp_loops :: "loop_id list"

definition EventLoopThreadPool_ctor :: "loop_id \<Rightarrow> string \<Rightarrow> EventLoopThreadPool" where
  "EventLoopThreadPool_ctor baseLoop nameArg =
     \<lparr>tp_baseLoop = baseLoop, tp_name = nameArg, tp_started = False, tp_numThreads = 0, tp_next = 0,
      tp_threads = [], tp_loops = []\<rparr>"

definition setThreadNum :: "int \<Rightarrow> EventLoopThreadPool \<Rightarrow> EventLoopThreadPool" where
  "setThreadNum n p = p\<lparr>tp_numThreads := n\<rparr>"

definition thread_name :: "EventLoopThreadPool \<Rightarrow> int \<Rightarrow> string" where
  "thread_name p i = snprintf (length (tp_name p) + 32) ''%s%d'' [AStr (c_str (tp_name p)), AInt i]"

text \<open>One round of the loop of \<open>start\<close>: the new loop's name is one more than the number of pool loops.\<close>

definition start_one ::
    "kernel \<Rightarrow> 'z pworld_scheme user \<Rightarrow> user_fun option \<Rightarrow> nat \<Rightarrow> EventLoopThreadPool \<times> 'z pworld_scheme
     \<Rightarrow> (EventLoopThreadPool \<times> 'z pworld_scheme) res" where
  "start_one K U cb i s =
     (let (p, w) = s;
          (t, w) = EventLoopThread_ctor cb (thread_name p (int i)) w
      in bindE (EventLoopThread_startLoop K U (length (tp_loops p) + 1) t w) (\<lambda>(l, t, w).
           Inr (p\<lparr>tp_threads := tp_threads p @ [t], tp_loops := tp_loops p @ [l]\<rparr>, w)))"

definition EventLoopThreadPool_start ::
    "kernel \<Rightarrow> 'z pworld_scheme user \<Rightarrow> user_fun option \<Rightarrow> EventLoopThreadPool \<Rightarrow> 'z pworld_scheme
     \<Rightarrow> (EventLoopThreadPool \<times> 'z pworld_scheme) res" where
  "EventLoopThreadPool_start K U cb p w =
     (let p = p\<lparr>tp_started := True\<rparr>
      in bindE (foldE (start_one K U cb) [0..<nat (tp_numThreads p)] (p, w)) (\<lambda>(p, w).
         if tp_numThreads p = 0
         then (case cb of Some u \<Rightarrow> bindE (u_threadInit U u (tp_baseLoop p) w) (\<lambda>w. Inr (p, w)) | None \<Rightarrow> Inr (p, w))
         else Inr (p, w)))"

text \<open>The index is an \<^verbatim>\<open>int\<close>; a negative one would not be an element.\<close>

definition getNextLoop :: "EventLoopThreadPool \<Rightarrow> (loop_id \<times> EventLoopThreadPool) res" where
  "getNextLoop p =
     (if tp_loops p = [] then Inr (tp_baseLoop p, p)
      else if 0 \<le> tp_next p \<and> nat (tp_next p) < length (tp_loops p)
      then (let loop = tp_loops p ! nat (tp_next p)
            in bindE (incr_int (tp_next p)) (\<lambda>n.
               Inr (loop, p\<lparr>tp_next := if int (length (tp_loops p)) \<le> n then 0 else n\<rparr>)))
      else Inl Out_of_bounds)"

definition getAllLoops :: "EventLoopThreadPool \<Rightarrow> loop_id list" where
  "getAllLoops p = (if tp_loops p = [] then [tp_baseLoop p] else tp_loops p)"

text \<open>The destructor of the pool: its vector of owners, each of which ends its thread.\<close>

definition EventLoopThreadPool_dtor ::
    "kernel \<Rightarrow> (int \<Rightarrow> 'z lworld_scheme \<Rightarrow> 'z lworld_scheme res) \<Rightarrow> EventLoopThreadPool \<Rightarrow> 'z lworld_scheme
     \<Rightarrow> 'z lworld_scheme res" where
  "EventLoopThreadPool_dtor K rest p w =
     foldE (\<lambda>t w. bindE (EventLoopThread_dtor K rest t w) (\<lambda>(t, w). Inr w)) (tp_threads p) w"

section \<open>Round robin\<close>

text \<open>\<open>k\<close> calls of \<open>getNextLoop\<close> in a row.\<close>

fun next_loops :: "nat \<Rightarrow> EventLoopThreadPool \<Rightarrow> (loop_id list \<times> EventLoopThreadPool) res" where
  "next_loops 0 p = Inr ([], p)"
| "next_loops (Suc k) p = bindE (getNextLoop p) (\<lambda>(l, p). bindE (next_loops k p) (\<lambda>(ls, p). Inr (l # ls, p)))"

definition pool_inv :: "EventLoopThreadPool \<Rightarrow> bool" where
  "pool_inv p \<longleftrightarrow> (if tp_loops p = [] then tp_next p = 0
     else 0 \<le> tp_next p \<and> tp_next p < int (length (tp_loops p))) \<and> int (length (tp_loops p)) \<le> INT_MAX"

lemma getNextLoop_spec:
  assumes "pool_inv p" "tp_loops p \<noteq> []"
  shows "getNextLoop p = Inr (tp_loops p ! nat (tp_next p),
      p\<lparr>tp_next := (tp_next p + 1) mod int (length (tp_loops p))\<rparr>)"
    and "pool_inv (p\<lparr>tp_next := (tp_next p + 1) mod int (length (tp_loops p))\<rparr>)"
proof -
  let ?n = "int (length (tp_loops p))"
  have b: "0 \<le> tp_next p" "tp_next p < ?n" "?n \<le> INT_MAX" "0 < ?n" using assms by (auto simp: pool_inv_def)
  have "(tp_next p + 1) mod ?n = (if ?n \<le> tp_next p + 1 then 0 else tp_next p + 1)"
  proof (cases "tp_next p + 1 = ?n")
    case True
    then show ?thesis by simp
  next
    case False
    then show ?thesis using b by simp
  qed
  then show "getNextLoop p = Inr (tp_loops p ! nat (tp_next p),
      p\<lparr>tp_next := (tp_next p + 1) mod int (length (tp_loops p))\<rparr>)"
    using b assms(2) by (simp add: getNextLoop_def incr_int_def)
  show "pool_inv (p\<lparr>tp_next := (tp_next p + 1) mod int (length (tp_loops p))\<rparr>)"
    using b assms(2) by (simp add: pool_inv_def)
qed

lemma next_loops_spec:
  assumes "pool_inv p" "tp_loops p \<noteq> []"
  shows "next_loops k p = Inr (map (\<lambda>j. tp_loops p ! ((nat (tp_next p) + j) mod length (tp_loops p))) [0..<k],
      p\<lparr>tp_next := (tp_next p + int k) mod int (length (tp_loops p))\<rparr>)"
  using assms
proof (induction k arbitrary: p)
  case 0
  then show ?case by (simp add: pool_inv_def)
next
  case (Suc k)
  let ?n = "length (tp_loops p)"
  let ?q = "p\<lparr>tp_next := (tp_next p + 1) mod int ?n\<rparr>"
  note g = getNextLoop_spec [OF Suc.prems]
  have b: "0 \<le> tp_next p" "tp_next p < int ?n" using Suc.prems by (auto simp: pool_inv_def)
  have nx: "nat ((tp_next p + 1) mod int ?n) = Suc (nat (tp_next p)) mod ?n"
    using b by (simp add: nat_mod_distrib Suc_nat_eq_nat_zadd1 add.commute)
  have shift: "map (\<lambda>j. tp_loops p ! ((nat ((tp_next p + 1) mod int ?n) + j) mod ?n)) [0..<k]
      = map (\<lambda>j. tp_loops p ! ((nat (tp_next p) + Suc j) mod ?n)) [0..<k]"
    unfolding nx by (simp add: mod_add_left_eq)
  have "next_loops k ?q = Inr (map (\<lambda>j. tp_loops p ! ((nat (tp_next p) + Suc j) mod ?n)) [0..<k],
      p\<lparr>tp_next := ((tp_next p + 1) mod int ?n + int k) mod int ?n\<rparr>)"
    using Suc.IH [OF g(2)] Suc.prems(2) shift by simp
  moreover have "((tp_next p + 1) mod int ?n + int k) mod int ?n = (tp_next p + int (Suc k)) mod int ?n"
    by (simp add: mod_add_left_eq add.assoc)
  moreover have "[0..<Suc k] = 0 # map Suc [0..<k]" by (simp add: map_Suc_upt upt_conv_Cons del: upt_Suc)
  moreover have "nat (tp_next p) mod ?n = nat (tp_next p)" using b by (simp add: nat_less_iff)
  ultimately show ?case using g(1) by (simp add: o_def)
qed

lemma next_loops_base:
  assumes "pool_inv p" "tp_loops p = []"
  shows "next_loops k p = Inr (replicate k (tp_baseLoop p), p)"
  using assms(2) by (induction k) (simp_all add: getNextLoop_def)

lemma mset_turn: "mset (map (\<lambda>j. xs ! ((i + j) mod length xs)) [0..<length xs]) = mset xs"
proof -
  have "map (\<lambda>j. xs ! ((i + j) mod length xs)) [0..<length xs] = rotate i xs"
    by (rule nth_equalityI) (auto simp: nth_rotate)
  then show ?thesis
    by (metis append_take_drop_id mset_append rotate_drop_take union_commute)
qed

section \<open>Properties\<close>

text \<open>
  C33: a pool hands out its loops round robin, starting at the next one: \<open>k\<close> calls give the loops at the
  \<open>k\<close> following positions modulo their number, and as many calls as there are loops give every loop
  exactly once; a pool without threads always gives the base loop.
\<close>

theorem getNextLoop_round_robin:
  assumes "pool_inv p"
  shows "(\<exists>q. next_loops k p = Inr (map (\<lambda>j. getAllLoops p ! ((nat (tp_next p) + j) mod length (getAllLoops p))) [0..<k], q)
      \<and> pool_inv q \<and> getAllLoops q = getAllLoops p)
    \<and> (\<exists>ls q. next_loops (length (getAllLoops p)) p = Inr (ls, q) \<and> mset ls = mset (getAllLoops p))"
proof (cases "tp_loops p = []")
  case True
  then have "getAllLoops p = [tp_baseLoop p]" by (simp add: getAllLoops_def)
  moreover have "map (\<lambda>j. [tp_baseLoop p] ! ((nat (tp_next p) + j) mod Suc 0)) [0..<k] = replicate k (tp_baseLoop p)"
    by (simp add: map_replicate_const)
  ultimately show ?thesis using assms next_loops_base [OF assms True] by simp
next
  case False
  let ?n = "length (tp_loops p)"
  have all: "getAllLoops q = tp_loops p" if "tp_loops q = tp_loops p" for q
    using False that by (simp add: getAllLoops_def)
  have "pool_inv (p\<lparr>tp_next := (tp_next p + int m) mod int ?n\<rparr>)" for m
    using assms False by (simp add: pool_inv_def)
  then show ?thesis
    using next_loops_spec [OF assms False] mset_turn [of "tp_loops p" "nat (tp_next p)"] by (simp add: all)
qed

text \<open>A pool of three loops that has given out its second one.\<close>

definition demo_pool :: EventLoopThreadPool where
  "demo_pool = (EventLoopThreadPool_ctor 0 ''pool'')\<lparr>tp_loops := [1, 2, 3], tp_next := 2\<rparr>"

theorem getNextLoop_round_robin_witness:
  "\<exists>q. next_loops 4 demo_pool = Inr ([3, 1, 2, 3], q)"
proof -
  have "pool_inv demo_pool" by (simp add: demo_pool_def EventLoopThreadPool_ctor_def pool_inv_def INT_MAX_def)
  moreover have "[0..<4] = [0, 1, 2, 3::nat]" by (simp add: eval_nat_numeral)
  moreover have "getAllLoops demo_pool = [1, 2, 3]" "tp_next demo_pool = 2"
    by (simp_all add: getAllLoops_def demo_pool_def EventLoopThreadPool_ctor_def)
  ultimately show ?thesis using getNextLoop_round_robin [of demo_pool 4] by auto
qed

section \<open>Starting the pool\<close>

lemma length_sprintf_name:
  "sprintf ''%s%d'' [AStr s, AInt i] = s @ show_int i" "sprintf ''-%s#%d'' [AStr s, AInt i] = CHR ''-'' # s @ CHR ''#'' # show_int i"
  by simp_all

lemma length_show_int:
  assumes "0 \<le> i" "i \<le> INT_MAX"
  shows "length (show_int i) \<le> 10"
proof -
  have "nat i < 10 ^ 10" using assms by (simp add: INT_MAX_def)
  then show ?thesis using assms length_show_nat [of "nat i" 10] by (simp add: show_int_def)
qed

text \<open>The buffer of a thread's name holds the whole name.\<close>

lemma thread_name_eq:
  assumes "0 \<le> i" "i \<le> INT_MAX" "CHR 0x00 \<notin> set (tp_name p)"
  shows "thread_name p i = tp_name p @ show_int i"
proof -
  have "c_str (tp_name p) = tp_name p" using assms(3) by (auto simp: c_str_def takeWhile_eq_all_conv)
  then show ?thesis
    using length_show_int [OF assms(1,2)] unfolding thread_name_def length_sprintf_name
    by (subst snprintf_fits) (simp_all add: length_sprintf_name del: sprintf_simps)
qed

text \<open>What an initialisation callback may do: anything but registering a channel that is not.\<close>

definition init_law :: "'z pworld_scheme user \<Rightarrow> user_fun option \<Rightarrow> bool" where
  "init_law U cb \<longleftrightarrow> (\<forall>u. cb = Some u \<longrightarrow> (\<forall>l v. \<exists>v'. u_threadInit U u l v = Inr v' \<and> (\<forall>k. loop_frame k v v')
     \<and> (\<forall>ch. ch_loop (chans v' ch) = ch_loop (chans v ch)
         \<and> (ch_index (chans v ch) = kNew \<longrightarrow> ch_index (chans v' ch) = kNew))))"

text \<open>The loops from \<open>n\<close> on have no registered channel yet.\<close>

definition unused_from :: "nat \<Rightarrow> 'z lworld_scheme \<Rightarrow> bool" where
  "unused_from n w \<longleftrightarrow> (\<forall>ch. n \<le> ch_loop (chans w ch) \<longrightarrow> ch_index (chans w ch) = kNew)"

definition threads_known :: "int \<Rightarrow> 'z lworld_scheme \<Rightarrow> bool" where
  "threads_known m w \<longleftrightarrow> dom (loopInThread w) \<subseteq> insert m (cloned (ktrace w))"

lemma cloned_append: "cloned (a @ b) = cloned a \<union> cloned b"
  by (auto simp: cloned_def)

lemma sys_clone_facts:
  assumes "sys_clone K w = (t, w')"
  shows "w' = record_event (EvClone t) w" "t = k_clone K (ktrace w)"
  using assms by (auto simp: sys_clone_def Let_def)

lemma EventLoop_ctor_new:
  assumes law: "epoll_ctl_law K" "opens_law K" and free: "loopInThread w (cur_tid w) = None" and un: "unused_from l w"
  shows "\<exists>w'. EventLoop_ctor K l w = Inr w' \<and> el_threadId (loops w' l) = cur_tid w
    \<and> (\<forall>k. k \<noteq> l \<longrightarrow> loops w' k = loops w k) \<and> loopInThread w' = (loopInThread w)(cur_tid w \<mapsto> l)
    \<and> cur_tid w' = cur_tid w \<and> cloned (ktrace w) \<subseteq> cloned (ktrace w') \<and> unused_from (Suc l) w'
    \<and> lworld.more w' = lworld.more w"
proof -
  obtain ep where ep: "k_epoll_create K (ktrace w) = Ok ep" using law(2) by (auto simp: opens_law_def)
  obtain f where f: "k_eventfd K (ktrace w @ [EvEpollCreate (Ok ep)]) = Ok f" using law(2) unfolding opens_law_def by meson
  have poll: "\<not> k_getenv_poll K" using law(2) by (simp add: opens_law_def)
  have "\<forall>ch. ch_loop (chans w ch) = l \<longrightarrow> ch_index (chans w ch) = kNew" using un by (simp add: unused_from_def)
  from EventLoop_ctor_total [OF law(1) poll ep f free this]
  obtain p w' where r: "EventLoop_ctor K l w = Inr w'" "serves l (WakeupChan l) p w'"
    "channel_op read_on (WakeupChan l) (new_loop_world l ep f w) w'" by blast
  let ?n = "new_loop_world l ep f w"
  have at: "ch_loop (chans ?n (WakeupChan l)) = l" by (simp add: new_loop_world_fields Channel_ctor_def)
  then obtain q where lo: "loops w' = (loops ?n)(l := (loops ?n l)\<lparr>el_poller := q\<rparr>)"
    using r(3) by (auto simp: channel_op_def)
  obtain tr where tr: "ktrace w' = ktrace ?n @ tr" using r(3) by (auto simp: channel_op_def)
  have ch: "chans w' ch = chans w ch" if "ch \<noteq> WakeupChan l" for ch
    using channel_opD(6) [OF r(3), of ch] that by (simp add: new_loop_world_fields)
  have "unused_from (Suc l) w'"
  proof -
    have "ch_index (chans w' ch) = kNew" if "Suc l \<le> ch_loop (chans w' ch)" for ch
      using that un ch [of ch] serves_loop [OF r(2)] by (cases "ch = WakeupChan l") (simp_all add: unused_from_def)
    then show ?thesis by (simp add: unused_from_def)
  qed
  moreover have "lworld.more w' = lworld.more w" "cur_tid w' = cur_tid w"
    "loopInThread w' = (loopInThread w)(cur_tid w \<mapsto> l)"
    using channel_opD(4,5,8) [OF r(3)] by (simp_all add: new_loop_world_fields)
  ultimately show ?thesis
    using r(1) lo tr by (auto simp: new_loop_world_fields cloned_append)
qed


lemma startLoop_new:
  assumes law: "epoll_ctl_law K" "opens_law K" "clone_law K m" "init_law U (et_callback t)"
    and w: "threads_known m w" "unused_from l w"
  shows "\<exists>t' w'. EventLoopThread_startLoop K U l t w = Inr (l, t', w')
    \<and> th_name (et_thread t') = th_name (et_thread t) \<and> et_loop t' = Some l \<and> th_thread (et_thread t') = Some (th_tid (et_thread t'))
    \<and> th_tid (et_thread t') \<notin> insert m (cloned (ktrace w)) \<and> th_tid (et_thread t') \<in> cloned (ktrace w')
    \<and> el_threadId (loops w' l) = th_tid (et_thread t') \<and> loopInThread w' = (loopInThread w)(th_tid (et_thread t') \<mapsto> l)
    \<and> (\<forall>k. k \<noteq> l \<longrightarrow> el_threadId (loops w' k) = el_threadId (loops w k))
    \<and> cur_tid w' = cur_tid w \<and> cloned (ktrace w) \<subseteq> cloned (ktrace w') \<and> threads_known m w' \<and> unused_from (Suc l) w'"
proof -
  let ?i = "k_clone K (ktrace w)"
  let ?th = "(et_thread t)\<lparr>th_started := True, th_thread := Some ?i, th_tid := ?i\<rparr>"
  let ?t = "t\<lparr>et_thread := ?th\<rparr>"
  let ?c = "record_event (EvClone ?i) w"
  let ?v = "?c\<lparr>cur_tid := ?i\<rparr>"
  have i: "?i \<notin> insert m (cloned (ktrace w))" using law(3) by (simp add: clone_law_def)
  have free: "loopInThread ?v (cur_tid ?v) = None"
  proof -
    have "?i \<notin> dom (loopInThread w)" using i w(1) by (auto simp: threads_known_def)
    then show ?thesis by (simp add: domIff record_event_def)
  qed
  have un: "unused_from l ?v" using w(2) by (simp add: unused_from_def record_event_def)
  from EventLoop_ctor_new [OF law(1,2) free un] obtain x where x: "EventLoop_ctor K l ?v = Inr x"
    "el_threadId (loops x l) = ?i" "\<forall>k. k \<noteq> l \<longrightarrow> loops x k = loops w k"
    "loopInThread x = (loopInThread w)(?i \<mapsto> l)" "cur_tid x = ?i"
    "cloned (ktrace ?c) \<subseteq> cloned (ktrace x)" "unused_from (Suc l) x"
    by (auto simp: record_event_def)
  obtain y where y: "(case et_callback t of Some cb \<Rightarrow> u_threadInit U cb l x | None \<Rightarrow> Inr x) = Inr y"
    "\<forall>k. loop_frame k x y" "\<forall>ch. ch_loop (chans y ch) = ch_loop (chans x ch)
         \<and> (ch_index (chans x ch) = kNew \<longrightarrow> ch_index (chans y ch) = kNew)"
  proof (cases "et_callback t")
    case None
    then show thesis using that [of x] by simp
  next
    case (Some u)
    then show thesis using that law(4) unfolding init_law_def by (simp del: split_paired_Ex) meson
  qed
  have fr: "el_threadId (loops y k) = el_threadId (loops x k)" "cur_tid y = cur_tid x" "loopInThread y = loopInThread x" for k
    using y(2) by (simp_all add: loop_frame_def)
  have "\<exists>tr. ktrace y = ktrace x @ tr" using y(2) by (auto simp: loop_frame_def)
  then have cl: "cloned (ktrace x) \<subseteq> cloned (ktrace y)" by (auto simp: cloned_append)
  have cc: "cloned (ktrace ?c) = insert ?i (cloned (ktrace w))" by (auto simp: cloned_def record_event_def)
  let ?w = "y\<lparr>cur_tid := cur_tid w\<rparr>"
  have r: "EventLoopThread_startLoop K U l t w = Inr (l, ?t\<lparr>et_loop := Some l\<rparr>, ?w)"
    using x(1) y(1)
    by (simp add: EventLoopThread_startLoop_def Thread_start_def sys_clone_def run_in_def threadFunc_begin_def Let_def record_event_def)
  moreover have "unused_from (Suc l) ?w" using x(7) y(3) by (simp add: unused_from_def)
  moreover have "threads_known m ?w"
  proof -
    have d: "dom (loopInThread ?w) = insert ?i (dom (loopInThread w))" using x(4) fr(3) by simp
    have i: "?i \<in> cloned (ktrace y)" and sub: "cloned (ktrace w) \<subseteq> cloned (ktrace y)" using x(6) cl cc by auto
    have "dom (loopInThread w) \<subseteq> insert m (cloned (ktrace w))" using w(1) by (simp add: threads_known_def)
    also have "\<dots> \<subseteq> insert m (cloned (ktrace y))" using sub by (rule insert_mono)
    finally show ?thesis using i unfolding threads_known_def d by simp
  qed
  ultimately show ?thesis
    using i x fr cl cc by (intro exI [of _ "?t\<lparr>et_loop := Some l\<rparr>"] exI [of _ ?w]) auto
qed


text \<open>The pool after \<open>n\<close> rounds of \<open>start\<close>: its loops are 1 to \<open>n\<close>, each living in a thread of its own.\<close>

definition pool_started :: "nat \<Rightarrow> EventLoopThreadPool \<Rightarrow> EventLoopThreadPool \<Rightarrow> 'z pworld_scheme \<Rightarrow> bool" where
  "pool_started n p0 p w \<longleftrightarrow> p = p0\<lparr>tp_threads := tp_threads p, tp_loops := [1..<Suc n]\<rparr>
     \<and> map (\<lambda>t. th_name (et_thread t)) (tp_threads p) = map (\<lambda>i. thread_name p0 (int i)) [0..<n]
     \<and> distinct (map (\<lambda>t. th_tid (et_thread t)) (tp_threads p))
     \<and> (\<forall>i < n. et_loop (tp_threads p ! i) = Some (Suc i) \<and> th_thread (et_thread (tp_threads p ! i)) = Some (th_tid (et_thread (tp_threads p ! i)))
         \<and> th_tid (et_thread (tp_threads p ! i)) \<in> cloned (ktrace w)
         \<and> el_threadId (loops w (Suc i)) = th_tid (et_thread (tp_threads p ! i))
         \<and> loopInThread w (th_tid (et_thread (tp_threads p ! i))) = Some (Suc i))"

lemma Thread_ctor_named: "name \<noteq> [] \<Longrightarrow> th_name (fst (Thread_ctor name w)) = name"
  by (simp add: Thread_ctor_def setDefaultName_def Let_def)

lemma Thread_ctor_world: "\<exists>n. snd (Thread_ctor name w) = w\<lparr>numCreated := n\<rparr>"
  by (auto simp: Thread_ctor_def setDefaultName_def Let_def)

lemma thread_name_nonempty: "0 \<le> i \<Longrightarrow> thread_name p i \<noteq> []"
  unfolding thread_name_def length_sprintf_name snprintf_def by (auto simp: show_int_def)

lemma start_one_round:
  assumes law: "epoll_ctl_law K" "opens_law K" "clone_law K m" "init_law U cb"
    and st: "pool_started n p0 p w" "threads_known m w" "unused_from (Suc n) w"
  shows "\<exists>p' w'. start_one K U cb n (p, w) = Inr (p', w') \<and> pool_started (Suc n) p0 p' w'
    \<and> threads_known m w' \<and> unused_from (Suc (Suc n)) w' \<and> cur_tid w' = cur_tid w \<and> el_threadId (loops w' 0) = el_threadId (loops w 0)"
proof -
  have p: "p = p0\<lparr>tp_threads := tp_threads p, tp_loops := [1..<Suc n]\<rparr>"
    and names: "map (\<lambda>t. th_name (et_thread t)) (tp_threads p) = map (\<lambda>i. thread_name p0 (int i)) [0..<n]"
    using st(1) unfolding pool_started_def by blast+
  have lo: "tp_loops p = [1..<Suc n]" and nm: "tp_name p = tp_name p0" by (subst p, simp)+
  have name: "thread_name p i = thread_name p0 i" for i by (simp add: thread_name_def nm)
  have len: "length (tp_threads p) = n" using arg_cong [OF names, of length] by simp
  obtain th v where c: "Thread_ctor (thread_name p0 (int n)) w = (th, v)" by force
  let ?t = "\<lparr>et_loop = None, et_exiting = False, et_thread = th, et_callback = cb\<rparr>"
  have th: "th_name th = thread_name p0 (int n)"
    using Thread_ctor_named [OF thread_name_nonempty, of "int n" p0 w] c by simp
  obtain k where v: "v = w\<lparr>numCreated := k\<rparr>" using Thread_ctor_world [of "thread_name p0 (int n)" w] c by auto
  have w: "threads_known m v" "unused_from (Suc n) v" using st(2,3) by (simp_all add: v threads_known_def unused_from_def)
  have cb: "init_law U (et_callback ?t)" using law(4) by simp
  from startLoop_new [OF law(1-3) cb w] obtain t' w' where s: "EventLoopThread_startLoop K U (Suc n) ?t v = Inr (Suc n, t', w')"
    "th_name (et_thread t') = thread_name p0 (int n)" "et_loop t' = Some (Suc n)" "th_thread (et_thread t') = Some (th_tid (et_thread t'))"
    "th_tid (et_thread t') \<notin> insert m (cloned (ktrace v))" "th_tid (et_thread t') \<in> cloned (ktrace w')"
    "el_threadId (loops w' (Suc n)) = th_tid (et_thread t')" "loopInThread w' = (loopInThread v)(th_tid (et_thread t') \<mapsto> Suc n)"
    "\<forall>k. k \<noteq> Suc n \<longrightarrow> el_threadId (loops w' k) = el_threadId (loops v k)" "cur_tid w' = cur_tid v"
    "cloned (ktrace v) \<subseteq> cloned (ktrace w')" "threads_known m w'" "unused_from (Suc (Suc n)) w'"
    using th by auto
  let ?p = "p\<lparr>tp_threads := tp_threads p @ [t'], tp_loops := tp_loops p @ [Suc n]\<rparr>"
  have one: "start_one K U cb n (p, w) = Inr (?p, w')"
  proof -
    have "length (tp_loops p) + 1 = Suc n" unfolding lo by simp
    then show ?thesis using c s(1) by (simp add: start_one_def EventLoopThread_ctor_def name)
  qed
  have old: "th_tid (et_thread t) \<in> cloned (ktrace v)" if t: "t \<in> set (tp_threads p)" for t
  proof -
    from t obtain i where "i < n" "t = tp_threads p ! i" using len by (auto simp: in_set_conv_nth)
    then show ?thesis using st(1) by (simp add: pool_started_def v)
  qed
  have "pool_started (Suc n) p0 ?p w'"
    unfolding pool_started_def
  proof (intro conjI allI impI)
    show "?p = p0\<lparr>tp_threads := tp_threads ?p, tp_loops := [1..<Suc (Suc n)]\<rparr>"
      using st(1) lo unfolding pool_started_def by (cases p; cases p0; simp)
    show "map (\<lambda>t. th_name (et_thread t)) (tp_threads ?p) = map (\<lambda>i. thread_name p0 (int i)) [0..<Suc n]"
      using st(1) s(2) by (simp add: pool_started_def)
    show "distinct (map (\<lambda>t. th_tid (et_thread t)) (tp_threads ?p))"
      using st(1) s(5) old by (auto simp: pool_started_def)
    fix i assume i: "i < Suc n"
    have "et_loop (tp_threads ?p ! i) = Some (Suc i) \<and> th_thread (et_thread (tp_threads ?p ! i)) = Some (th_tid (et_thread (tp_threads ?p ! i)))
         \<and> th_tid (et_thread (tp_threads ?p ! i)) \<in> cloned (ktrace w')
         \<and> el_threadId (loops w' (Suc i)) = th_tid (et_thread (tp_threads ?p ! i))
         \<and> loopInThread w' (th_tid (et_thread (tp_threads ?p ! i))) = Some (Suc i)"
    proof (cases "i = n")
      case True
      then show ?thesis using s len by (simp add: nth_append)
    next
      case False
      then have i: "i < n" using i by simp
      then have t: "tp_threads ?p ! i = tp_threads p ! i" using len by (simp add: nth_append)
      have mem: "tp_threads p ! i \<in> set (tp_threads p)" using i len by simp
      note o = old [OF mem]
      then have "th_tid (et_thread (tp_threads p ! i)) \<noteq> th_tid (et_thread t')" using s(5) by auto
      then show ?thesis
        using st(1) i s(8,9,11) o unfolding t pool_started_def by (auto simp: v)
    qed
    then show "et_loop (tp_threads ?p ! i) = Some (Suc i)" "th_thread (et_thread (tp_threads ?p ! i)) = Some (th_tid (et_thread (tp_threads ?p ! i)))"
      "th_tid (et_thread (tp_threads ?p ! i)) \<in> cloned (ktrace w')"
      "el_threadId (loops w' (Suc i)) = th_tid (et_thread (tp_threads ?p ! i))"
      "loopInThread w' (th_tid (et_thread (tp_threads ?p ! i))) = Some (Suc i)" by auto
  qed
  with one s(9,10,12,13) v show ?thesis by auto
qed




text \<open>A process at its start, as far as the pool.\<close>

definition no_conn :: TcpConnection where
  "no_conn = \<lparr>tc_loop = 0, tc_name = [], tc_state = kDisconnected, tc_reading = False, tc_socket = 0,
     tc_localAddr = InetAddress_default, tc_peerAddr = InetAddress_default, tc_connectionCallback = None,
     tc_messageCallback = None, tc_writeCompeleteCallback = None, tc_closeCallback = None,
     tc_highWaterMarkCallback = None, tc_highWaterMark = 0,
     tc_inputBuffer = Buffer_default, tc_outputBuffer = Buffer_default\<rparr>"

definition start_pworld :: pworld where
  "start_pworld = \<lparr>ktrace = [], logger_of = Logger_initial, cur_tid = 1, chans = chans start_world,
     loops = loops start_world, loopInThread = Map.empty, conns = (\<lambda>c. no_conn), live = {}, strings = Map.empty,
     next_string = 0, numCreated = 0\<rparr>"

lemma start_pworld_facts [simp]:
  "ktrace start_pworld = []" "cur_tid start_pworld = 1" "loopInThread start_pworld = Map.empty"
  "chans start_pworld = chans start_world" "loops start_pworld = loops start_world" "live start_pworld = {}"
  "strings start_pworld = Map.empty" "numCreated start_pworld = 0" "conns start_pworld = (\<lambda>c. no_conn)"
  by (simp_all add: start_pworld_def)

lemma start_pworld_unused [simp]: "unused_from n start_pworld" "threads_known 1 start_pworld"
  by (simp_all add: unused_from_def threads_known_def)


end
