(* ===== verification/TcpServer.thy ===== *)
theory TcpServer
  imports ThreadPool
begin

text \<open>
  \<^verbatim>\<open>TcpServer.h\<close>, \<^verbatim>\<open>TcpServer.cc\<close>, and the dispatch of every bound function of the program: \<open>run_functor\<close>
  for the queues, \<open>run_cb\<close> for the channels.  The world holds one server.  A connection object is named
  by the order of construction (\<open>next_conn\<close>) and is referenced by \<open>sv_connections\<close> and by the functors
  bound to a \<^verbatim>\<open>TcpConnectionPtr\<close>; \<open>release\<close> destroys the connections whose last reference was in a
  finished batch.
\<close>

section \<open>State\<close>

datatype ReuseOption = kNoReusePort | kReusePort

record TcpServer =
  sv_loop :: loop_id
  sv_ipPort :: string
  sv_name :: string
  sv_acceptor :: Acceptor
  sv_threadPool :: EventLoopThreadPool
  sv_connectionCallback :: "user_fun option"
  sv_messageCallback :: "user_fun option"
  sv_writeCompeleteCallback :: "user_fun option"
  sv_threadInitCallback :: "user_fun option"
  sv_started :: int
  sv_nextConnId :: int
  sv_connections :: "(string \<times> conn_id) list"

record sworld = pworld +
  server :: TcpServer
  next_conn :: conn_id

definition map_server :: "(TcpServer \<Rightarrow> TcpServer) \<Rightarrow> 'z sworld_scheme \<Rightarrow> 'z sworld_scheme" where
  "map_server f w = w\<lparr>server := f (server w)\<rparr>"

definition server_setThreadInitCallback :: "user_fun \<Rightarrow> TcpServer \<Rightarrow> TcpServer" where
  "server_setThreadInitCallback cb s = s\<lparr>sv_threadInitCallback := Some cb\<rparr>"

definition server_setConnectionCallback :: "user_fun \<Rightarrow> TcpServer \<Rightarrow> TcpServer" where
  "server_setConnectionCallback cb s = s\<lparr>sv_connectionCallback := Some cb\<rparr>"

definition server_setMessageCallback :: "user_fun \<Rightarrow> TcpServer \<Rightarrow> TcpServer" where
  "server_setMessageCallback cb s = s\<lparr>sv_messageCallback := Some cb\<rparr>"

definition server_setWriteCompleteCallback :: "user_fun \<Rightarrow> TcpServer \<Rightarrow> TcpServer" where
  "server_setWriteCompleteCallback cb s = s\<lparr>sv_writeCompeleteCallback := Some cb\<rparr>"

definition TcpServer_setThreadNum :: "int \<Rightarrow> TcpServer \<Rightarrow> TcpServer" where
  "TcpServer_setThreadNum n s = s\<lparr>sv_threadPool := setThreadNum n (sv_threadPool s)\<rparr>"

text \<open>The check is a static function of its own in this file.\<close>

definition server_CheckLoopNotNull :: "loop_id option \<Rightarrow> loop_id res" where
  "server_CheckLoopNotNull loop = (case loop of
     None \<Rightarrow> LOG_FATAL ''%s:%s:%d mainLoop is null \<newline>'' | Some l \<Rightarrow> Inr l)"

definition TcpServer_ctor ::
    "kernel \<Rightarrow> loop_id option \<Rightarrow> InetAddress \<Rightarrow> string \<Rightarrow> ReuseOption \<Rightarrow> 'z sworld_scheme \<Rightarrow> 'z sworld_scheme res" where
  "TcpServer_ctor K loop listenAddr nameArg option w =
     bindE (server_CheckLoopNotNull loop) (\<lambda>l.
     bindE (InetAddress_toIpPort listenAddr) (\<lambda>ipPort.
     bindE (Acceptor_ctor K l listenAddr (option = kReusePort) w) (\<lambda>(a, w).
     Inr (w\<lparr>server := \<lparr>sv_loop = l, sv_ipPort = ipPort, sv_name = nameArg,
       sv_acceptor = Acceptor_setNewConnectionCallback Bind_TcpServer_newConnection a,
       sv_threadPool = EventLoopThreadPool_ctor l nameArg,
       sv_connectionCallback = None, sv_messageCallback = None, sv_writeCompeleteCallback = None,
       sv_threadInitCallback = None, sv_started = 0, sv_nextConnId = 1, sv_connections = []\<rparr>\<rparr>))))"

section \<open>Functors\<close>

text \<open>\<open>listen\<close> of the server's acceptor, and the second half of the removal of a connection.\<close>

definition server_listen :: "kernel \<Rightarrow> 'z sworld_scheme \<Rightarrow> 'z sworld_scheme res" where
  "server_listen K w =
     bindE (Acceptor_listen K (sv_acceptor (server w)) w) (\<lambda>(a, w).
       Inr (map_server (\<lambda>s. s\<lparr>sv_acceptor := a\<rparr>) w))"

definition erase :: "string \<Rightarrow> (string \<times> conn_id) list \<Rightarrow> (string \<times> conn_id) list" where
  "erase k m = filter (\<lambda>(k', c). k' \<noteq> k) m"

definition removeConnectionInLoop :: "kernel \<Rightarrow> conn_id \<Rightarrow> 'z sworld_scheme \<Rightarrow> 'z sworld_scheme" where
  "removeConnectionInLoop K c w =
     (let w = LOG K INFO ''TcpServer::removeConnectionInLoop [%s] - connection %s \<newline>''
                [AStr (c_str (sv_name (server w))), AStr (c_str (tc_name (conns w c)))] w;
          w = map_server (\<lambda>s. s\<lparr>sv_connections := erase (tc_name (conns w c)) (sv_connections s)\<rparr>) w
      in queueInLoop K (tc_loop (conns w c)) (Bind_connectDestroyed c) w)"

fun run_functor :: "kernel \<Rightarrow> 'z sworld_scheme user \<Rightarrow> Functor \<Rightarrow> 'z sworld_scheme \<Rightarrow> 'z sworld_scheme res" where
  "run_functor K U (Bind_connectEstablished c) w = connectEstablished K U c w"
| "run_functor K U (Bind_connectDestroyed c) w = connectDestroyed K U c w"
| "run_functor K U (Bind_sendInLoop c p n) w = run_raw K (Bind_sendInLoop c p n) w"
| "run_functor K U (Bind_shutdownInLoop c) w = run_raw K (Bind_shutdownInLoop c) w"
| "run_functor K U (Bind_writeComplete u c) w = u_writeComplete U u c w"
| "run_functor K U (Bind_highWaterMark u c n) w = u_highWaterMark U u c n w"
| "run_functor K U (Bind_removeConnectionInLoop c) w = Inr (removeConnectionInLoop K c w)"
| "run_functor K U Bind_Acceptor_listen w = server_listen K w"
| "run_functor K U (User_functor u) w = u_functor U u w"

section \<open>The server\<close>

text \<open>\<^verbatim>\<open>started_++\<close> on an atomic integer.\<close>

definition TcpServer_start :: "kernel \<Rightarrow> 'z sworld_scheme user \<Rightarrow> 'z sworld_scheme \<Rightarrow> 'z sworld_scheme res" where
  "TcpServer_start K U w =
     (let was = sv_started (server w);
          w = map_server (\<lambda>s. s\<lparr>sv_started := atomic_incr was\<rparr>) w
      in if was = 0
         then bindE (EventLoopThreadPool_start K U (sv_threadInitCallback (server w)) (sv_threadPool (server w)) w) (\<lambda>(p, w).
              runInLoop K (run_functor K U) (sv_loop (server w)) Bind_Acceptor_listen
                (map_server (\<lambda>s. s\<lparr>sv_threadPool := p\<rparr>) w))
         else Inr w)"

definition connection_name :: "TcpServer \<Rightarrow> string" where
  "connection_name s = sv_name s @ snprintf 64 ''-%s#%d'' [AStr (c_str (sv_ipPort s)), AInt (sv_nextConnId s)]"

text \<open>\<^verbatim>\<open>connections_[connName] = conn\<close>.\<close>

definition insert_connection :: "string \<Rightarrow> conn_id \<Rightarrow> (string \<times> conn_id) list \<Rightarrow> (string \<times> conn_id) list" where
  "insert_connection k c m = (k, c) # erase k m"

text \<open>The local address: what \<^verbatim>\<open>getsockname\<close> says, or zeros.\<close>

definition local_address :: "kernel \<Rightarrow> fd \<Rightarrow> 'z kworld_scheme \<Rightarrow> InetAddress \<times> 'z kworld_scheme" where
  "local_address K sockfd w =
     (let (r, w) = sys_getsockname K sockfd w
      in case r of
        Ok a \<Rightarrow> (InetAddress_of_sockaddr a, w)
      | Fail e \<Rightarrow> (InetAddress_of_sockaddr sockaddr_zero, LOG K ERROR ''sockets::getLocalAddr'' [] w))"

definition newConnection ::
    "kernel \<Rightarrow> 'z sworld_scheme user \<Rightarrow> fd \<Rightarrow> InetAddress \<Rightarrow> 'z sworld_scheme \<Rightarrow> 'z sworld_scheme res" where
  "newConnection K U sockfd peerAddr w =
     bindE (getNextLoop (sv_threadPool (server w))) (\<lambda>(ioLoop, p).
     let connName = connection_name (server w)
     in bindE (incr_int (sv_nextConnId (server w))) (\<lambda>n.
        let w = map_server (\<lambda>s. s\<lparr>sv_threadPool := p, sv_nextConnId := n\<rparr>) w
        in bindE (InetAddress_toIpPort peerAddr) (\<lambda>peer.
           let w = LOG K INFO ''TcpServer::newConnection [%s] - new connection [%s] from %s''
                     [AStr (c_str (sv_name (server w))), AStr (c_str connName), AStr peer] w;
               (localAddr, w) = local_address K sockfd w;
               c = next_conn w;
               w = w\<lparr>next_conn := c + 1\<rparr>
           in bindE (TcpConnection_ctor K c (Some ioLoop) connName sockfd localAddr peerAddr w) (\<lambda>w.
              let w = map_server (\<lambda>s. s\<lparr>sv_connections := insert_connection connName c (sv_connections s)\<rparr>) w;
                  w = map_conn c (setConnectionCallback (sv_connectionCallback (server w))) w;
                  w = map_conn c (setMessageCallback (sv_messageCallback (server w))) w;
                  w = map_conn c (setWriteCompleteCallback (sv_writeCompeleteCallback (server w))) w;
                  w = map_conn c (setCloseCallback (Some Bind_TcpServer_removeConnection)) w
              in runInLoop K (run_functor K U) ioLoop (Bind_connectEstablished c) w))))"

definition removeConnection :: "kernel \<Rightarrow> 'z sworld_scheme user \<Rightarrow> conn_id \<Rightarrow> 'z sworld_scheme \<Rightarrow> 'z sworld_scheme res" where
  "removeConnection K U c w = runInLoop K (run_functor K U) (sv_loop (server w)) (Bind_removeConnectionInLoop c) w"

fun run_close :: "kernel \<Rightarrow> 'z sworld_scheme user \<Rightarrow> CloseCallback \<Rightarrow> conn_id \<Rightarrow> 'z sworld_scheme \<Rightarrow> 'z sworld_scheme res" where
  "run_close K U Bind_TcpServer_removeConnection c w = removeConnection K U c w"

fun run_accept :: "kernel \<Rightarrow> 'z sworld_scheme user \<Rightarrow> NewConnectionCallback \<Rightarrow> fd \<Rightarrow> InetAddress
    \<Rightarrow> 'z sworld_scheme \<Rightarrow> 'z sworld_scheme res" where
  "run_accept K U Bind_TcpServer_newConnection f a w = newConnection K U f a w"

section \<open>Channel callbacks\<close>

fun run_cb :: "kernel \<Rightarrow> 'z sworld_scheme user \<Rightarrow> channel_cb \<Rightarrow> timestamp \<Rightarrow> 'z sworld_scheme \<Rightarrow> 'z sworld_scheme res" where
  "run_cb K U (Bind_EventLoop_handleRead l) t w = Inr (EventLoop_handleRead K l w)"
| "run_cb K U Bind_Acceptor_handleRead t w = Acceptor_handleRead K (run_accept K U) (sv_acceptor (server w)) w"
| "run_cb K U (Bind_TcpConnection_handleRead c) t w = handleRead K U (run_close K U) c t w"
| "run_cb K U (Bind_TcpConnection_handleWrite c) t w = handleWrite K c w"
| "run_cb K U (Bind_TcpConnection_handleClose c) t w = handleClose K U (run_close K U) c w"
| "run_cb K U (Bind_TcpConnection_handleError c) t w = Inr (handleError K c w)"

section \<open>References\<close>

definition server_loops :: "'z sworld_scheme \<Rightarrow> loop_id list" where
  "server_loops w = sv_loop (server w) # tp_loops (sv_threadPool (server w))"

text \<open>A shared pointer to \<open>c\<close> is held by the server or by a functor of one of its loops.\<close>

definition held_by :: "conn_id \<Rightarrow> EventLoop \<Rightarrow> bool" where
  "held_by c e \<longleftrightarrow> Some c \<in> functor_owner ` set (el_pendingFunctors e @ el_functors e)"

definition referenced :: "conn_id \<Rightarrow> 'z sworld_scheme \<Rightarrow> bool" where
  "referenced c w \<longleftrightarrow> c \<in> snd ` set (sv_connections (server w)) \<or> (\<exists>l \<in> set (server_loops w). held_by c (loops w l))"

definition release_one :: "kernel \<Rightarrow> conn_id \<Rightarrow> 'z sworld_scheme \<Rightarrow> 'z sworld_scheme" where
  "release_one K c w = (if c \<in> live w \<and> \<not> referenced c w then TcpConnection_dtor K c w else w)"

definition release :: "kernel \<Rightarrow> Functor list \<Rightarrow> 'z sworld_scheme \<Rightarrow> 'z sworld_scheme res" where
  "release K fs w = Inr (fold (release_one K) (List.map_filter functor_owner fs) w)"

text \<open>
  The destructor: its connections, in the order of the hash table (\<open>order\<close>), then the members: the
  table, the pool, whose threads run to their end (\<open>rest\<close>), and the acceptor.
\<close>

definition destroy_one :: "kernel \<Rightarrow> 'z sworld_scheme user \<Rightarrow> string \<times> conn_id \<Rightarrow> 'z sworld_scheme \<Rightarrow> 'z sworld_scheme res" where
  "destroy_one K U item w =
     (let (k, c) = item;
          w = map_server (\<lambda>s. s\<lparr>sv_connections := erase k (sv_connections s)\<rparr>) w
      in bindE (runInLoop K (run_functor K U) (tc_loop (conns w c)) (Bind_connectDestroyed c) w) (\<lambda>w.
         Inr (release_one K c w)))"

definition TcpServer_dtor ::
    "kernel \<Rightarrow> 'z sworld_scheme user \<Rightarrow> (int \<Rightarrow> 'z sworld_scheme \<Rightarrow> 'z sworld_scheme res)
     \<Rightarrow> ((string \<times> conn_id) list \<Rightarrow> (string \<times> conn_id) list) \<Rightarrow> 'z sworld_scheme \<Rightarrow> 'z sworld_scheme res" where
  "TcpServer_dtor K U rest order w =
     bindE (foldE (destroy_one K U) (order (sv_connections (server w))) w) (\<lambda>w.
     bindE (EventLoopThreadPool_dtor K rest (sv_threadPool (server w)) w) (\<lambda>w.
     Acceptor_dtor K (sv_acceptor (server w)) w))"

section \<open>Frames\<close>

lemma sworld_more:
  assumes "tworld.more w' = tworld.more w"
  shows "numCreated w' = numCreated w" "server w' = server w" "next_conn w' = next_conn w" "sworld.more w' = sworld.more w"
  using assms by (cases w; cases w'; simp)+

lemma map_server_simps [simp]:
  "server (map_server f w) = f (server w)" "next_conn (map_server f w) = next_conn w" "loops (map_server f w) = loops w"
  "chans (map_server f w) = chans w" "conns (map_server f w) = conns w" "ktrace (map_server f w) = ktrace w"
  "cur_tid (map_server f w) = cur_tid w" "loopInThread (map_server f w) = loopInThread w" "live (map_server f w) = live w"
  "strings (map_server f w) = strings w" "numCreated (map_server f w) = numCreated w" "next_string (map_server f w) = next_string w"
  by (simp_all add: map_server_def)

lemma isInLoopThread_server [simp]: "isInLoopThread l (map_server f w) = isInLoopThread l w"
  by (simp add: isInLoopThread_def)

lemma server_same [simp]:
  "server (LOG K lv fmt args w) = server w" "server (record_event e w) = server w" "server (map_conn c f w) = server w"
  "server (map_chan ch h w) = server w" "server (map_loop l g w) = server w" "server (queueInLoop K l cb w) = server w"
  "next_conn (LOG K lv fmt args w) = next_conn w" "next_conn (record_event e w) = next_conn w" "next_conn (map_conn c f w) = next_conn w"
  "next_conn (map_chan ch h w) = next_conn w" "next_conn (map_loop l g w) = next_conn w" "next_conn (queueInLoop K l cb w) = next_conn w"
  using sworld_more(2,3) [OF queueInLoop_tworld(5)]
  by (simp_all add: LOG_def record_event_def map_conn_def map_chan_def map_loop_def)

text \<open>The user's code cannot reach the private members of the server.\<close>

lemma tworld_more_channel_op: "channel_op f ch w w' \<Longrightarrow> tworld.more w' = tworld.more w"
  using tworld_more(5) channel_opD(5) by blast

lemma sendInLoop_more: "sendInLoop K c data w = Inr w' \<Longrightarrow> tworld.more w' = tworld.more w"
  by (auto simp: sendInLoop_def write_now_def buffer_rest_def mark_high_water_def sys_write_def Let_def
      split: if_splits sysret.splits option.splits dest!: channel_ops tworld_more_channel_op)

lemma api_step_more:
  assumes "api_step K w w'"
  shows "tworld.more w' = tworld.more w"
  using assms
proof cases
  case (api_send c p)
  then show ?thesis
    by (auto simp: TcpConnection_send_def runInLoop_def split: option.splits if_splits dest: sendInLoop_more)
next
  case (api_shutdown c)
  then show ?thesis
    by (auto simp: TcpConnection_shutdown_def runInLoop_def shutdownInLoop_def Socket_shutdownWrite_def sys_shutdown_def
        Let_def split: if_splits sysret.splits)
next
  case (api_quit l)
  then show ?thesis using tworld_more(5) quit_spec(5) by blast
qed (simp_all add: new_string_def delete_string_def)

lemma api_run_more: "api_run K w w' \<Longrightarrow> tworld.more w' = tworld.more w"
  by (induction rule: api_run.induct) (auto dest: api_step_more)

lemma user_more:
  assumes "user_law K U"
  shows "u_connection U u c w = Inr w' \<Longrightarrow> tworld.more w' = tworld.more w"
    "u_message U u c t w = Inr w' \<Longrightarrow> tworld.more w' = tworld.more w"
    "u_threadInit U u l w = Inr w' \<Longrightarrow> tworld.more w' = tworld.more w"
  using assms by (auto simp: user_law_def intro!: api_run_more [of K])


section \<open>Names\<close>

text \<open>The name of the connection with number \<open>i\<close>.\<close>

definition name_of :: "TcpServer \<Rightarrow> int \<Rightarrow> string" where
  "name_of s i = sv_name s @ CHR ''-'' # sv_ipPort s @ CHR ''#'' # show_int i"

definition server_ok :: "TcpServer \<Rightarrow> bool" where
  "server_ok s \<longleftrightarrow> CHR 0x00 \<notin> set (sv_ipPort s) \<and> length (sv_ipPort s) \<le> 21 \<and> pool_inv (sv_threadPool s)
     \<and> 1 \<le> sv_nextConnId s \<and> sv_nextConnId s \<le> INT_MAX \<and> distinct (map fst (sv_connections s))
     \<and> (\<forall>x \<in> set (sv_connections s). \<exists>i. 1 \<le> i \<and> i < sv_nextConnId s \<and> fst x = name_of s i)"

lemma connection_name_eq:
  assumes "server_ok s"
  shows "connection_name s = name_of s (sv_nextConnId s)"
proof -
  have s: "CHR 0x00 \<notin> set (sv_ipPort s)" "length (sv_ipPort s) \<le> 21" "0 \<le> sv_nextConnId s" "sv_nextConnId s \<le> INT_MAX"
    using assms by (auto simp: server_ok_def)
  have "c_str (sv_ipPort s) = sv_ipPort s" using s(1) by (auto simp: c_str_def takeWhile_eq_all_conv)
  then show ?thesis
    using length_show_int [OF s(3,4)] s(2) unfolding connection_name_def name_of_def
    by (subst snprintf_fits) (simp_all add: length_sprintf_name del: sprintf_simps)
qed

lemma name_of_inj:
  assumes "0 \<le> i" "0 \<le> j"
  shows "name_of s i = name_of s j \<longleftrightarrow> i = j"
  using assms by (simp add: name_of_def)

lemma name_fresh:
  assumes "server_ok s"
  shows "name_of s (sv_nextConnId s) \<notin> fst ` set (sv_connections s)"
proof
  assume "name_of s (sv_nextConnId s) \<in> fst ` set (sv_connections s)"
  then obtain x where x: "x \<in> set (sv_connections s)" "fst x = name_of s (sv_nextConnId s)" by auto
  then obtain i where "1 \<le> i" "i < sv_nextConnId s" "fst x = name_of s i" using assms unfolding server_ok_def by blast
  with x(2) name_of_inj [of i "sv_nextConnId s" s] show False by simp
qed

lemma erase_absent: "k \<notin> fst ` set m \<Longrightarrow> erase k m = m"
  unfolding erase_def by (rule filter_True) force

lemma erase_set: "set (erase k m) = {x \<in> set m. fst x \<noteq> k}"
  by (auto simp: erase_def)

lemma erase_distinct: "distinct (map fst m) \<Longrightarrow> distinct (map fst (erase k m))"
  unfolding erase_def by (rule distinct_map_filter)

text \<open>A new entry under the next name, and the removal of an entry.\<close>

lemma server_ok_insert:
  assumes "server_ok s" "sv_nextConnId s < INT_MAX" "pool_inv p"
  shows "server_ok (s\<lparr>sv_threadPool := p, sv_nextConnId := sv_nextConnId s + 1,
    sv_connections := (name_of s (sv_nextConnId s), c) # sv_connections s\<rparr>)" (is "server_ok ?t")
proof -
  have nm: "name_of ?t i = name_of s i" for i by (simp add: name_of_def)
  have "\<exists>i. 1 \<le> i \<and> i < sv_nextConnId ?t \<and> fst x = name_of ?t i" if x: "x \<in> set (sv_connections ?t)" for x
  proof (cases "x \<in> set (sv_connections s)")
    case True
    then obtain i where "1 \<le> i" "i < sv_nextConnId s" "fst x = name_of s i" using assms(1) unfolding server_ok_def by blast
    then show ?thesis unfolding nm by (intro exI [of _ i]) simp
  next
    case False
    with x have "fst x = name_of ?t (sv_nextConnId s)" by (simp add: nm)
    then show ?thesis using assms(1) by (intro exI [of _ "sv_nextConnId s"]) (simp add: server_ok_def)
  qed
  moreover have "distinct (map fst (sv_connections ?t))"
    using assms(1) name_fresh [OF assms(1)] by (simp add: server_ok_def)
  ultimately show ?thesis using assms unfolding server_ok_def by simp
qed

lemma server_ok_erase:
  assumes "server_ok s"
  shows "server_ok (s\<lparr>sv_connections := erase k (sv_connections s)\<rparr>)"
proof -
  have "name_of (s\<lparr>sv_connections := m\<rparr>) i = name_of s i" for m i by (simp add: name_of_def)
  then show ?thesis
    using assms erase_distinct unfolding server_ok_def by (simp add: erase_set)
qed

section \<open>A new connection\<close>

lemma getNextLoop_total:
  assumes "pool_inv p"
  shows "\<exists>l q. getNextLoop p = Inr (l, q) \<and> l \<in> set (getAllLoops p) \<and> pool_inv q
    \<and> q = p\<lparr>tp_next := tp_next q\<rparr>"
proof (cases "tp_loops p = []")
  case True
  then show ?thesis using assms by (simp add: getNextLoop_def getAllLoops_def)
next
  case False
  have "nat (tp_next p) < length (tp_loops p)" using assms False by (auto simp: pool_inv_def)
  then show ?thesis using getNextLoop_spec [OF assms False] False by (simp add: getAllLoops_def)
qed

lemma toIpPort_total:
  "\<exists>s. InetAddress_toIpPort a = Inr s \<and> length s \<le> 21 \<and> CHR 0x00 \<notin> set s"
proof -
  have digits: "CHR 0x00 \<notin> set (show_nat n)" for n
    using show_nat_digits [of "CHR 0x00" n] by (auto simp: is_digit_def)
  have ip: "CHR 0x00 \<notin> set (inet_ntop b)" for b
    by (cases b) (auto simp: inet_ntop_def digits)
  show ?thesis
    using length_inet_ntop [of "sin_addr (addr a)"] length_port_text [of "ntohs (sin_port (addr a))"]
      ip [of "sin_addr (addr a)"] digits
    by (auto simp: InetAddress_toIpPort_def Let_def show_int_def dest: in_set_takeD)
qed

lemma local_address_frame:
  assumes "local_address K f w = (a, v)"
  shows "\<exists>r. ktrace v = ktrace w @ [EvGetsockname f r]" "server v = server w" "next_conn v = next_conn w"
    "loops v = loops w" "chans v = chans w" "conns v = conns w" "cur_tid v = cur_tid w" "live v = live w"
  using assms by (auto simp: local_address_def sys_getsockname_def Let_def split: sysret.splits)


lemma TcpConnection_ctor_world:
  "\<exists>v. TcpConnection_ctor K c (Some l) k f la pa w = Inr v
    \<and> conns v = (conns w)(c := \<lparr>tc_loop = l, tc_name = k, tc_state = kConnecting, tc_reading = True,
               tc_socket = f, tc_localAddr = la, tc_peerAddr = pa,
               tc_connectionCallback = None, tc_messageCallback = None, tc_writeCompeleteCallback = None,
               tc_closeCallback = None, tc_highWaterMarkCallback = None,
               tc_highWaterMark = 64 * 1024 * 1024,
               tc_inputBuffer = Buffer_default, tc_outputBuffer = Buffer_default\<rparr>)
    \<and> chans v = (chans w)(ConnChan c := (Channel_ctor l f)
               \<lparr>ch_readCallback := Some (Bind_TcpConnection_handleRead c),
                ch_writeCallback := Some (Bind_TcpConnection_handleWrite c),
                ch_closeCallback := Some (Bind_TcpConnection_handleClose c),
                ch_errorCallback := Some (Bind_TcpConnection_handleError c)\<rparr>)
    \<and> live v = insert c (live w) \<and> ktrace v = ktrace w @ [EvSetsockopt f SO_KEEPALIVE 1]
    \<and> loops v = loops w \<and> loopInThread v = loopInThread w \<and> cur_tid v = cur_tid w
    \<and> strings v = strings w \<and> next_string v = next_string w \<and> tworld.more v = tworld.more w"
  by (simp add: TcpConnection_ctor_def CheckLoopNotNull_def Socket_setKeepAlive_def sys_setsockopt_def record_event_def
      optval_def map_conn_def map_chan_def Let_def LOG_def)

text \<open>The world in which a new connection is handed to its loop.\<close>

definition registered_conn :: "loop_id \<Rightarrow> fd \<Rightarrow> 'z sworld_scheme \<Rightarrow> 'z sworld_scheme \<Rightarrow> bool" where
  "registered_conn l f w x \<longleftrightarrow>
     (let c = next_conn w; s = server w; k = name_of s (sv_nextConnId s) in
       (\<exists>q. getNextLoop (sv_threadPool s) = Inr (l, q) \<and> server x = s\<lparr>sv_threadPool := q, sv_nextConnId := sv_nextConnId s + 1,
          sv_connections := (k, c) # sv_connections s\<rparr>)
     \<and> next_conn x = c + 1 \<and> live x = insert c (live w) \<and> loops x = loops w \<and> cur_tid x = cur_tid w
     \<and> loopInThread x = loopInThread w \<and> strings x = strings w
     \<and> (\<exists>r. ktrace x = ktrace w @ [EvGetsockname f r, EvSetsockopt f SO_KEEPALIVE 1])
     \<and> (\<exists>la pa. conns x = (conns w)(c := \<lparr>tc_loop = l, tc_name = k, tc_state = kConnecting, tc_reading = True,
               tc_socket = f, tc_localAddr = la, tc_peerAddr = pa,
               tc_connectionCallback = sv_connectionCallback s, tc_messageCallback = sv_messageCallback s,
               tc_writeCompeleteCallback = sv_writeCompeleteCallback s,
               tc_closeCallback = Some Bind_TcpServer_removeConnection, tc_highWaterMarkCallback = None,
               tc_highWaterMark = 64 * 1024 * 1024,
               tc_inputBuffer = Buffer_default, tc_outputBuffer = Buffer_default\<rparr>))
     \<and> chans x = (chans w)(ConnChan c := (Channel_ctor l f)
               \<lparr>ch_readCallback := Some (Bind_TcpConnection_handleRead c),
                ch_writeCallback := Some (Bind_TcpConnection_handleWrite c),
                ch_closeCallback := Some (Bind_TcpConnection_handleClose c),
                ch_errorCallback := Some (Bind_TcpConnection_handleError c)\<rparr>))"

lemma newConnection_runs:
  assumes ok: "server_ok (server w)" "sv_nextConnId (server w) < INT_MAX"
  shows "\<exists>l x. l \<in> set (getAllLoops (sv_threadPool (server w))) \<and> registered_conn l f w x
    \<and> newConnection K U f peer w = runInLoop K (run_functor K U) l (Bind_connectEstablished (next_conn w)) x"
proof -
  let ?s = "server w" and ?c = "next_conn w"
  let ?k = "name_of ?s (sv_nextConnId ?s)"
  have pool: "pool_inv (sv_threadPool ?s)" using ok(1) by (simp add: server_ok_def)
  obtain l q where g: "getNextLoop (sv_threadPool ?s) = Inr (l, q)" "l \<in> set (getAllLoops (sv_threadPool ?s))"
    using getNextLoop_total [OF pool] by blast
  obtain ps where ps: "InetAddress_toIpPort peer = Inr ps" using toIpPort_total by blast
  let ?w1 = "map_server (\<lambda>s. s\<lparr>sv_threadPool := q, sv_nextConnId := sv_nextConnId ?s + 1\<rparr>) w"
  let ?w2 = "LOG K INFO ''TcpServer::newConnection [%s] - new connection [%s] from %s''
                     [AStr (c_str (sv_name (server ?w1))), AStr (c_str ?k), AStr ps] ?w1"
  obtain la v where la: "local_address K f ?w2 = (la, v)" by force
  note lf = local_address_frame [OF la]
  have more: "loopInThread v = loopInThread w" "strings v = strings w"
    using la by (auto simp: local_address_def sys_getsockname_def Let_def split: sysret.splits)
  let ?v = "v\<lparr>next_conn := ?c + 1\<rparr>"
  obtain y where y: "TcpConnection_ctor K ?c (Some l) ?k f la peer ?v = Inr y"
    "conns y = (conns w)(?c := \<lparr>tc_loop = l, tc_name = ?k, tc_state = kConnecting, tc_reading = True,
               tc_socket = f, tc_localAddr = la, tc_peerAddr = peer,
               tc_connectionCallback = None, tc_messageCallback = None, tc_writeCompeleteCallback = None,
               tc_closeCallback = None, tc_highWaterMarkCallback = None,
               tc_highWaterMark = 64 * 1024 * 1024,
               tc_inputBuffer = Buffer_default, tc_outputBuffer = Buffer_default\<rparr>)"
    "chans y = (chans w)(ConnChan ?c := (Channel_ctor l f)
               \<lparr>ch_readCallback := Some (Bind_TcpConnection_handleRead ?c),
                ch_writeCallback := Some (Bind_TcpConnection_handleWrite ?c),
                ch_closeCallback := Some (Bind_TcpConnection_handleClose ?c),
                ch_errorCallback := Some (Bind_TcpConnection_handleError ?c)\<rparr>)"
    "live y = insert ?c (live w)" "ktrace y = ktrace v @ [EvSetsockopt f SO_KEEPALIVE 1]"
    "loops y = loops w" "loopInThread y = loopInThread w" "cur_tid y = cur_tid w" "strings y = strings w"
    "tworld.more y = tworld.more ?v"
    using TcpConnection_ctor_world [of K ?c l ?k f la peer ?v] lf more by (auto simp: )
  have sy: "server y = server ?w1" "next_conn y = ?c + 1"
    using sworld_more(2,3) [OF y(10)] lf(2) by simp_all
  have fresh: "erase ?k (sv_connections ?s) = sv_connections ?s" by (rule erase_absent [OF name_fresh [OF ok(1)]])
  let ?x = "map_conn ?c (setCloseCallback (Some Bind_TcpServer_removeConnection))
      (map_conn ?c (setWriteCompleteCallback (sv_writeCompeleteCallback ?s))
      (map_conn ?c (setMessageCallback (sv_messageCallback ?s))
      (map_conn ?c (setConnectionCallback (sv_connectionCallback ?s))
      (map_server (\<lambda>s. s\<lparr>sv_connections := insert_connection ?k ?c (sv_connections s)\<rparr>) y))))"
  have "newConnection K U f peer w = runInLoop K (run_functor K U) l (Bind_connectEstablished ?c) ?x"
    using g(1) ok(2) ps la y(1) sy lf(3) unfolding newConnection_def connection_name_eq [OF ok(1)]
    by (simp add: incr_int_def Let_def del: fun_upd_apply)
  moreover have "registered_conn l f w ?x"
    using y lf(1) g(1) fresh sy
    by (auto simp: registered_conn_def insert_connection_def map_conn_def setConnectionCallback_def setMessageCallback_def
        setWriteCompleteCallback_def setCloseCallback_def Let_def)
  ultimately show ?thesis using g(2) by blast
qed


section \<open>Properties\<close>


text \<open>A process with a server on loop 0, before any connection.\<close>

definition demo_server :: TcpServer where
  "demo_server = \<lparr>sv_loop = 0, sv_ipPort = ''127.0.0.1:8000'', sv_name = ''Echo'',
     sv_acceptor = \<lparr>ac_loop = 0, ac_acceptSocket = 5, ac_newConnectionCallback = Some Bind_TcpServer_newConnection, ac_listening = True\<rparr>,
     sv_threadPool = EventLoopThreadPool_ctor 0 ''Echo'', sv_connectionCallback = Some 1, sv_messageCallback = Some 2,
     sv_writeCompeleteCallback = None, sv_threadInitCallback = None, sv_started = 1, sv_nextConnId = 1, sv_connections = []\<rparr>"

definition start_sworld :: sworld where
  "start_sworld = \<lparr>ktrace = [], logger_of = Logger_initial, cur_tid = 1, chans = chans start_world,
     loops = loops start_world, loopInThread = Map.empty, conns = (\<lambda>c. no_conn), live = {}, strings = Map.empty,
     next_string = 0, numCreated = 0, server = demo_server, next_conn = 0\<rparr>"

lemma start_sworld_facts [simp]:
  "ktrace start_sworld = []" "cur_tid start_sworld = 1" "chans start_sworld = chans start_world"
  "loops start_sworld = loops start_world" "live start_sworld = {}" "conns start_sworld = (\<lambda>c. no_conn)"
  "server start_sworld = demo_server" "next_conn start_sworld = 0" "loopInThread start_sworld = Map.empty"
  "strings start_sworld = Map.empty"
  by (simp_all add: start_sworld_def)

lemma demo_server_ok [simp]: "server_ok demo_server" "sv_nextConnId demo_server < INT_MAX"
  by (simp_all add: server_ok_def demo_server_def EventLoopThreadPool_ctor_def pool_inv_def INT_MAX_def)



lemma removeConnectionInLoop_spec:
  shows "server (removeConnectionInLoop K c w) = (server w)\<lparr>sv_connections := erase (tc_name (conns w c)) (sv_connections (server w))\<rparr>"
    and "loops (removeConnectionInLoop K c w) = (loops w)(tc_loop (conns w c) := (loops w (tc_loop (conns w c)))
        \<lparr>el_pendingFunctors := el_pendingFunctors (loops w (tc_loop (conns w c))) @ [Bind_connectDestroyed c]\<rparr>)"
    and "conns (removeConnectionInLoop K c w) = conns w" "chans (removeConnectionInLoop K c w) = chans w"
    and "live (removeConnectionInLoop K c w) = live w" "next_conn (removeConnectionInLoop K c w) = next_conn w"
    and "cur_tid (removeConnectionInLoop K c w) = cur_tid w"
  by (simp_all add: removeConnectionInLoop_def queueInLoop_spec(1) Let_def)

text \<open>
  C35: removing a connection from the server: asked from another thread, it only queues the removal for
  the server's loop; the removal takes exactly this connection out of the table, leaves the object and
  its channel alone, and queues its destruction for the connection's own loop, once per removal.
\<close>

theorem removeConnection_correct:
  assumes "server_ok (server w)" "(tc_name (conns w c), c) \<in> set (sv_connections (server w))"
  shows "removeConnection K U c w = (if isInLoopThread (sv_loop (server w)) w then Inr (removeConnectionInLoop K c w)
      else Inr (queueInLoop K (sv_loop (server w)) (Bind_removeConnectionInLoop c) w))
    \<and> run_functor K U (Bind_removeConnectionInLoop c) w = Inr (removeConnectionInLoop K c w)
    \<and> set (sv_connections (server (removeConnectionInLoop K c w)))
        = set (sv_connections (server w)) - {(tc_name (conns w c), c)}
    \<and> server_ok (server (removeConnectionInLoop K c w))
    \<and> conns (removeConnectionInLoop K c w) = conns w \<and> chans (removeConnectionInLoop K c w) = chans w
    \<and> live (removeConnectionInLoop K c w) = live w
    \<and> (\<forall>l. el_pendingFunctors (loops (removeConnectionInLoop K c w) l)
        = el_pendingFunctors (loops w l) @ (if l = tc_loop (conns w c) then [Bind_connectDestroyed c] else []))"
proof -
  have "distinct (map fst (sv_connections (server w)))" using assms(1) by (simp add: server_ok_def)
  then have "x = (tc_name (conns w c), c)" if "x \<in> set (sv_connections (server w))" "fst x = tc_name (conns w c)" for x
    using assms(2) that by (metis eq_key_imp_eq_value prod.collapse)
  then have "{x \<in> set (sv_connections (server w)). fst x \<noteq> tc_name (conns w c)}
      = set (sv_connections (server w)) - {(tc_name (conns w c), c)}"
    by fastforce
  then show ?thesis
    by (simp add: removeConnection_def runInLoop_def removeConnectionInLoop_spec erase_set server_ok_erase [OF assms(1)])
qed

text \<open>The demo process with one connection, number 0, in its table.\<close>

definition one_conn_world :: sworld where
  "one_conn_world = map_server (\<lambda>s. s\<lparr>sv_nextConnId := 2, sv_connections := [(name_of s 1, 0)]\<rparr>)
     (map_conn 0 (\<lambda>t. t\<lparr>tc_name := name_of demo_server 1\<rparr>) start_sworld)"

lemma one_conn_ok: "server_ok (server one_conn_world)" "sv_connections (server one_conn_world) = [(tc_name (conns one_conn_world 0), 0)]"
proof -
  have "name_of (demo_server\<lparr>sv_nextConnId := n, sv_connections := m\<rparr>) i = name_of demo_server i" for n m i
    by (simp add: name_of_def)
  then show "server_ok (server one_conn_world)"
    using demo_server_ok(1) unfolding server_ok_def by (auto simp: one_conn_world_def INT_MAX_def)
  show "sv_connections (server one_conn_world) = [(tc_name (conns one_conn_world 0), 0)]"
    by (simp add: one_conn_world_def)
qed

theorem removeConnection_correct_witness:
  "sv_connections (server (removeConnectionInLoop (plain_kernel 4 []) 0 one_conn_world)) = []
    \<and> el_pendingFunctors (loops (removeConnectionInLoop (plain_kernel 4 []) 0 one_conn_world) 0) = [Bind_connectDestroyed 0]"
proof -
  have "tc_loop (conns one_conn_world 0) = 0" "el_pendingFunctors (loops one_conn_world 0) = []"
    by (simp_all add: one_conn_world_def no_conn_def start_world_def)
  then show ?thesis
    using removeConnection_correct [OF one_conn_ok(1), of 0 "plain_kernel 4 []" idle_user] by (simp add: one_conn_ok(2))
qed

section \<open>The end of a connection\<close>

lemma referenced_loops:
  assumes "server w' = server w" "\<And>l. el_pendingFunctors (loops w' l) = el_pendingFunctors (loops w l)"
    and "\<And>l. el_functors (loops w' l) = el_functors (loops w l)"
  shows "referenced c w' = referenced c w"
  using assms by (simp add: referenced_def server_loops_def held_by_def)

lemma referenced_channel_op:
  assumes "channel_op f ch w w'"
  shows "referenced c w' = referenced c w"
proof (rule referenced_loops)
  show "server w' = server w" using sworld_more(2) tworld_more_channel_op [OF assms] by blast
  obtain p where "loops w' = (loops w)(ch_loop (chans w ch) := (loops w (ch_loop (chans w ch)))\<lparr>el_poller := p\<rparr>)"
    using assms by (auto simp: channel_op_def)
  then show "el_pendingFunctors (loops w' l) = el_pendingFunctors (loops w l)" "el_functors (loops w' l) = el_functors (loops w l)" for l
    by simp_all
qed

text \<open>
  C36: the end of a closed connection: its destruction takes its channel out of the poller, and the end of
  the batch that held its last reference destroys the object, which closes the connection's descriptor
  and no other; while the server or a queued functor still refers to it, nothing is destroyed.
\<close>

theorem connection_end:
  assumes sv: "serves l (ConnChan c) p w" and law: "epoll_ctl_law K"
    and c: "tc_state (conns w c) \<noteq> kConnected" "c \<in> live w" "tc_socket (conns w c) = conn_fd c w"
  shows "\<exists>w1 w2 p2. run_functor K U (Bind_connectDestroyed c) w = Inr w1
    \<and> release K [Bind_connectDestroyed c] w1 = Inr w2
    \<and> el_poller (loops w2 l) = Some p2 \<and> \<not> hasChannel (ConnChan c) p2 w2
    \<and> interest (pl_epollfd p) (ktrace w2) (conn_fd c w) = None
    \<and> (if referenced c w then w2 = w1 \<and> open_fds (ktrace w2) = open_fds (ktrace w)
       else c \<notin> live w2 \<and> open_fds (ktrace w2) = open_fds (ktrace w) - {conn_fd c w})"
proof -
  obtain p1 w1 where r: "Channel_remove K (ConnChan c) w = Inr w1" "serves l (ConnChan c) p1 w1"
    "\<not> hasChannel (ConnChan c) p1 w1" "pl_epollfd p1 = pl_epollfd p" "chans w1 (ConnChan c) = set_index kNew (chans w (ConnChan c))"
    using Channel_remove_total [OF sv law] by blast
  note op = Channel_remove_op [OF r(1)]
  have run: "run_functor K U (Bind_connectDestroyed c) w = Inr w1" using c(1) r(1) by (simp add: connectDestroyed_def)
  have same: "conns w1 = conns w" "live w1 = live w" "open_fds (ktrace w1) = open_fds (ktrace w)"
    using tworld_more(1,2) [OF channel_opD(5) [OF op]] channel_opD(1) [OF op] by simp_all
  have fd: "ch_fd (chans w1 (ConnChan c)) = conn_fd c w" by (simp add: r(5) conn_fd_def set_index_def)
  have "pl_channels p1 (conn_fd c w) = None"
    using r(2,3) fd by (auto simp: serves_def attachable_def hasChannel_def)
  moreover have "interest (pl_epollfd p1) (ktrace w1) = expected_interest p1 w1"
    using r(2) by (simp add: serves_def poller_inv_def)
  ultimately have off: "interest (pl_epollfd p) (ktrace w1) (conn_fd c w) = None"
    using r(4) by (simp add: expected_interest_def)
  have el: "el_poller (loops w1 l) = Some p1" using r(2) by (simp add: serves_def)
  have rel: "release K [Bind_connectDestroyed c] w1 = Inr (release_one K c w1)" by (simp add: release_def map_filter_simps)
  show ?thesis
  proof (cases "referenced c w")
    case True
    then have "release_one K c w1 = w1" using referenced_channel_op [OF op] by (simp add: release_one_def)
    then show ?thesis using True run rel el r(3) off same(3) by (intro exI [of _ w1] exI [of _ p1]) simp
  next
    case False
    then have d: "release_one K c w1 = TcpConnection_dtor K c w1"
      using referenced_channel_op [OF op] c(2) same(2) by (simp add: release_one_def)
    have t: "ktrace (TcpConnection_dtor K c w1) = ktrace w1 @ [EvClose (conn_fd c w)]" "loops (TcpConnection_dtor K c w1) = loops w1"
      "c \<notin> live (TcpConnection_dtor K c w1)" "chans (TcpConnection_dtor K c w1) = chans w1"
      using c(3) same(1) by (simp_all add: TcpConnection_dtor_def Socket_dtor_def sys_close_def Let_def)
    then have "\<not> hasChannel (ConnChan c) p1 (TcpConnection_dtor K c w1)" using r(3) by (simp add: hasChannel_def)
    with t False run rel el off same(3) show ?thesis
      by (intro exI [of _ w1] exI [of _ "TcpConnection_dtor K c w1"] exI [of _ p1]) (simp add: d)
  qed
qed


text \<open>The example connection in the demo process, in no table and no queue.\<close>

lemma serves_view:
  fixes w :: "'a lworld_scheme" and v :: "'b lworld_scheme"
  assumes "loops v = loops w" "chans v = chans w" "ktrace v = ktrace w"
  shows "serves l ch p v = serves l ch p w"
proof -
  have "expected_interest p v = expected_interest p w" by (rule ext) (simp add: expected_interest_def assms split: option.split)
  then show ?thesis by (simp add: serves_def poller_inv_def attachable_def assms)
qed

definition demo_sworld :: "StateE \<Rightarrow> bytes \<Rightarrow> sworld" where
  "demo_sworld st out = (let w = demo_tworld st out in \<lparr>ktrace = ktrace w, logger_of = logger_of w, cur_tid = cur_tid w,
     chans = chans w, loops = loops w, loopInThread = loopInThread w, conns = conns w, live = live w,
     strings = strings w, next_string = next_string w, numCreated = 0, server = demo_server, next_conn = 1\<rparr>)"

lemma demo_sworld_facts [simp]:
  "ktrace (demo_sworld st out) = ktrace (demo_tworld st out)" "cur_tid (demo_sworld st out) = cur_tid (demo_tworld st out)"
  "chans (demo_sworld st out) = chans (demo_tworld st out)" "loops (demo_sworld st out) = loops (demo_tworld st out)"
  "conns (demo_sworld st out) = conns (demo_tworld st out)" "live (demo_sworld st out) = {0}"
  "server (demo_sworld st out) = demo_server" "next_conn (demo_sworld st out) = 1" "strings (demo_sworld st out) = Map.empty"
  by (simp_all add: demo_sworld_def Let_def)

lemma demo_sworld_serves [simp]: "serves 0 (ConnChan 0) demo_conn_poller (demo_sworld st out)"
  using demo_serves [of st out] by (subst serves_view [where w = "demo_tworld st out"]) simp_all

theorem connection_end_witness:
  "\<exists>w1 w2. run_functor (plain_kernel 4 []) idle_user (Bind_connectDestroyed 0) (demo_sworld kDisconnected []) = Inr w1
    \<and> release (plain_kernel 4 []) [Bind_connectDestroyed 0] w1 = Inr w2 \<and> 0 \<notin> live w2 \<and> open_fds (ktrace w2) = {3, 4}"
proof -
  let ?w = "demo_sworld kDisconnected []"
  have "\<not> referenced 0 ?w"
    by (simp add: referenced_def server_loops_def held_by_def demo_server_def EventLoopThreadPool_ctor_def)
      (simp add: demo_tworld_def)
  moreover have "conn_fd 0 ?w = 7" "tc_socket (conns ?w 0) = 7"
    by (simp_all add: conn_fd_def) (simp add: demo_conn_def)
  moreover have "open_fds (ktrace ?w) = {3, 4, 7}" by (auto simp: demo_tworld_def open_fds_def)
  ultimately show ?thesis
    using connection_end [OF demo_sworld_serves, of "plain_kernel 4 []" kDisconnected "[]" idle_user] by auto
qed

section \<open>Starting once\<close>

lemma threadInit_server:
  assumes "user_law K U" "threadFunc_begin K U l t w = Inr w'"
  shows "tworld.more w' = tworld.more w"
proof -
  obtain x where x: "EventLoop_ctor K l w = Inr x" "(case et_callback t of Some cb \<Rightarrow> u_threadInit U cb l x | None \<Rightarrow> Inr x) = Inr w'"
    using assms(2) by (auto simp: threadFunc_begin_def)
  have "tworld.more x = tworld.more w"
    using x(1)
    by (auto simp: EventLoop_ctor_def newDefaultPoller_def EPollPoller_ctor_def sys_epoll_create_def createEventfd_def
        sys_eventfd_def LOG_FATAL_def enableReading_def Let_def map_loop_def split: if_splits sysret.splits option.splits
        dest!: Channel_update_op [where f = id, simplified] tworld_more_channel_op)
  moreover have "tworld.more w' = tworld.more x"
    using x(2) user_more(3) [OF assms(1)] by (auto split: option.splits)
  ultimately show ?thesis by simp
qed


lemma startLoop_server:
  assumes "user_law K U" "EventLoopThread_startLoop K U l t w = Inr (r, t', w')"
  shows "tworld.more w' = tworld.more w"
proof -
  obtain th v where v: "Thread_start K (et_thread t) w = (th, v)" by force
  then have m: "tworld.more v = tworld.more w" by (auto simp: Thread_start_def sys_clone_def Let_def)
  obtain x where x: "threadFunc_begin K U l (t\<lparr>et_thread := th\<rparr>) (v\<lparr>cur_tid := th_tid th\<rparr>) = Inr x"
    "w' = x\<lparr>cur_tid := cur_tid v\<rparr>"
    using assms(2) v by (auto simp: EventLoopThread_startLoop_def run_in_def Let_def)
  from threadInit_server [OF assms(1) x(1)] x(2) m show ?thesis by simp
qed

lemma start_one_server:
  assumes "user_law K U" "start_one K U cb i s = Inr s'"
  shows "server (snd s') = server (snd s) \<and> tp_numThreads (fst s') = tp_numThreads (fst s) \<and> tp_baseLoop (fst s') = tp_baseLoop (fst s)"
proof -
  obtain p w where s: "s = (p, w)" by (cases s)
  obtain th v where th: "Thread_ctor (thread_name p (int i)) w = (th, v)" by force
  then obtain n where v: "v = w\<lparr>numCreated := n\<rparr>" using Thread_ctor_world [of "thread_name p (int i)" w] by auto
  obtain l t x where x: "EventLoopThread_startLoop K U (length (tp_loops p) + 1)
      \<lparr>et_loop = None, et_exiting = False, et_thread = th, et_callback = cb\<rparr> v = Inr (l, t, x)"
    "s' = (p\<lparr>tp_threads := tp_threads p @ [t], tp_loops := tp_loops p @ [l]\<rparr>, x)"
    using assms(2) th by (auto simp: start_one_def s EventLoopThread_ctor_def)
  have "server x = server w" using sworld_more(2) [OF startLoop_server [OF assms(1) x(1)]] by (simp add: v)
  then show ?thesis by (simp add: x(2) s)
qed

lemma pool_start_server:
  assumes "user_law K U" "EventLoopThreadPool_start K U cb p w = Inr (p', w')"
  shows "server w' = server w"
proof -
  obtain q v where q: "foldE (start_one K U cb) [0..<nat (tp_numThreads p)] (p\<lparr>tp_started := True\<rparr>, w) = Inr (q, v)"
    and r: "(if tp_numThreads q = 0
         then (case cb of Some u \<Rightarrow> bindE (u_threadInit U u (tp_baseLoop q) v) (\<lambda>w. Inr (q, w)) | None \<Rightarrow> Inr (q, v))
         else Inr (q, v)) = Inr (p', w')"
    using assms(2) by (auto simp: EventLoopThreadPool_start_def)
  have "server (snd (q, v)) = server w"
    by (rule foldE_inv [OF q, where P = "\<lambda>s. server (snd s) = server w"])
      (use start_one_server [OF assms(1)] in force)+
  moreover have "server w' = server v"
  proof (cases "tp_numThreads q = 0 \<and> cb \<noteq> None")
    case True
    then obtain u where "u_threadInit U u (tp_baseLoop q) v = Inr w'" using r by auto
    then show ?thesis by (rule sworld_more(2) [OF user_more(3) [OF assms(1)]])
  next
    case False
    then show ?thesis using r by (auto split: if_splits)
  qed
  ultimately show ?thesis by simp
qed

lemma server_listen_started: "server_listen K w = Inr w' \<Longrightarrow> sv_started (server w') = sv_started (server w)"
proof -
  assume "server_listen K w = Inr w'"
  then obtain a v where v: "Acceptor_listen K (sv_acceptor (server w)) w = Inr (a, v)"
    "w' = map_server (\<lambda>s. s\<lparr>sv_acceptor := a\<rparr>) v" by (auto simp: server_listen_def)
  have "tworld.more v = tworld.more w"
    using v(1) by (auto simp: Acceptor_listen_def Socket_listen_def sys_listen_def LOG_FATAL_def Let_def split: sysret.splits
        dest!: channel_ops(1) tworld_more_channel_op)
  then show ?thesis using sworld_more(2) [of v w] by (simp add: v(2))
qed

text \<open>
  A server starts once: when the first call of \<open>start\<close> has returned, another one changes nothing but
  the counter: no thread is started, and the acceptor is not put to listening again.
\<close>

theorem TcpServer_start_once:
  assumes "user_law K U" "sv_started (server w) = 0" "TcpServer_start K U w = Inr w1"
  shows "TcpServer_start K U w1 = Inr (map_server (\<lambda>s. s\<lparr>sv_started := 2\<rparr>) w1)"
proof -
  let ?w = "map_server (\<lambda>s. s\<lparr>sv_started := atomic_incr 0\<rparr>) w"
  obtain p v where v: "EventLoopThreadPool_start K U (sv_threadInitCallback (server ?w)) (sv_threadPool (server ?w)) ?w = Inr (p, v)"
    "runInLoop K (run_functor K U) (sv_loop (server v)) Bind_Acceptor_listen (map_server (\<lambda>s. s\<lparr>sv_threadPool := p\<rparr>) v) = Inr w1"
    using assms(2,3) by (auto simp: TcpServer_start_def)
  have "sv_started (server v) = atomic_incr 0" using pool_start_server [OF assms(1) v(1)] by simp
  then have "sv_started (server w1) = atomic_incr 0"
    using v(2) server_listen_started by (fastforce simp: runInLoop_def split: if_splits)
  moreover have "atomic_incr 0 = 1" "atomic_incr 1 = 2" by (simp_all add: atomic_incr_def)
  ultimately show ?thesis by (simp add: TcpServer_start_def)
qed

definition ready_sworld :: sworld where
  "ready_sworld = map_server (\<lambda>s. s\<lparr>sv_started := 0\<rparr>) start_sworld"

theorem TcpServer_start_once_witness:
  "\<exists>w1. TcpServer_start (plain_kernel 4 []) idle_user ready_sworld = Inr w1 \<and> el_pendingFunctors (loops w1 0) = [Bind_Acceptor_listen]
    \<and> TcpServer_start (plain_kernel 4 []) idle_user w1 = Inr (map_server (\<lambda>s. s\<lparr>sv_started := 2\<rparr>) w1)"
proof -
  have "sv_started (server ready_sworld) = 0" by (simp add: ready_sworld_def)
  moreover obtain w1 where "TcpServer_start (plain_kernel 4 []) idle_user ready_sworld = Inr w1"
    "el_pendingFunctors (loops w1 0) = [Bind_Acceptor_listen]"
    by (simp add: TcpServer_start_def ready_sworld_def demo_server_def EventLoopThreadPool_ctor_def EventLoopThreadPool_start_def
        runInLoop_def isInLoopThread_def start_world_def queueInLoop_spec(1) Let_def)
  ultimately show ?thesis using TcpServer_start_once [OF idle_user_law] by blast
qed

end
