(* ===== verification/Reactor.thy ===== *)
theory Reactor
  imports TcpServer
begin

text \<open>
  The loop of the program: \<open>EventLoop_loop\<close> with the dispatch of its own channel callbacks and functors.
  Every functor of the library and of lawful user code keeps \<open>loop_frame\<close>, so the interface
  \<open>functor_runner\<close> of a loop's queue is interpreted on \<open>run_functor\<close> and \<open>release\<close>.
\<close>

section \<open>Every functor keeps the loops\<close>

lemma loop_frame_after:
  "channel_op f ch v w \<Longrightarrow> loop_frame l u v \<Longrightarrow> loop_frame l u w"
  using loop_frame_trans loop_frame_channel_op by blast

lemma loop_frame_steps [simp]:
  "loop_frame l u w \<Longrightarrow> loop_frame l u (LOG K lv fmt args w)"
  "loop_frame l u w \<Longrightarrow> loop_frame l u (record_event e w)"
  "loop_frame l u w \<Longrightarrow> loop_frame l u (map_chan ch f w)"
  "loop_frame l u w \<Longrightarrow> loop_frame l u (queueInLoop K k cb w)"
  by (auto intro: loop_frame_trans)

lemma loop_frame_conn_step [simp]: "loop_frame l u w \<Longrightarrow> loop_frame l u (map_conn c g w)"
  by (auto intro: loop_frame_trans)

lemma loop_frame_server_step [simp]: "loop_frame l u w \<Longrightarrow> loop_frame l u (map_server h w)"
  by (rule loop_frame_trans, assumption, rule loop_frame_same) auto

lemma sendInLoop_loop_frame:
  assumes "sendInLoop K c data w = Inr w'"
  shows "loop_frame l w w'"
  using assms
  by (auto simp: sendInLoop_def write_now_def buffer_rest_def mark_high_water_def sys_write_def Let_def
      split: if_splits sysret.splits option.splits dest!: channel_ops(3) elim!: loop_frame_after)

lemma shutdownInLoop_loop_frame [simp]: "loop_frame l u w \<Longrightarrow> loop_frame l u (shutdownInLoop K c w)"
  by (simp add: shutdownInLoop_def Socket_shutdownWrite_def sys_shutdown_def Let_def split: sysret.split)

lemma api_step_loop_frame:
  assumes "api_step K w w'"
  shows "loop_frame l w w'"
  using assms
proof cases
  case (api_send c p)
  then show ?thesis
    by (auto simp: TcpConnection_send_def runInLoop_def split: option.splits if_splits dest: sendInLoop_loop_frame)
next
  case (api_shutdown c)
  then show ?thesis
    by (auto simp: TcpConnection_shutdown_def runInLoop_def Let_def split: if_splits)
next
  case (api_new s)
  then show ?thesis by (intro loop_frame_same) (simp_all add: new_string_def)
next
  case (api_delete p)
  then show ?thesis by (intro loop_frame_same) (simp_all add: delete_string_def)
qed simp_all

lemma api_run_loop_frame: "api_run K w w' \<Longrightarrow> loop_frame l w w'"
  by (induction rule: api_run.induct) (auto intro: loop_frame_trans dest: api_step_loop_frame)

lemma user_loop_frame:
  assumes "user_law K U"
  shows "u_connection U u c w = Inr w' \<Longrightarrow> loop_frame l w w'" "u_message U u c t w = Inr w' \<Longrightarrow> loop_frame l w w'"
    "u_writeComplete U u c w = Inr w' \<Longrightarrow> loop_frame l w w'" "u_highWaterMark U u c n w = Inr w' \<Longrightarrow> loop_frame l w w'"
    "u_functor U u w = Inr w' \<Longrightarrow> loop_frame l w w'"
  using assms by (auto simp: user_law_def intro!: api_run_loop_frame [of K])

lemma call_connection_loop_frame:
  "user_law K U \<Longrightarrow> call_connection U c w = Inr w' \<Longrightarrow> loop_frame l w w'"
  by (auto simp: call_connection_def split: option.splits dest: user_loop_frame(1))

lemma connectEstablished_loop_frame:
  assumes "user_law K U" "connectEstablished K U c w = Inr w'"
  shows "loop_frame l w w'"
proof -
  obtain x where "enableReading K (ConnChan c) (map_chan (ConnChan c) (Channel_tie c) (map_conn c (setState kConnected) w)) = Inr x"
    "call_connection U c x = Inr w'" using assms(2) by (auto simp: connectEstablished_def Let_def)
  moreover have "loop_frame l w x" using calculation(1) by (auto dest!: channel_ops(1) elim!: loop_frame_after)
  ultimately show ?thesis using call_connection_loop_frame [OF assms(1)] loop_frame_trans by blast
qed

lemma connectDestroyed_loop_frame:
  assumes "user_law K U" "connectDestroyed K U c w = Inr w'"
  shows "loop_frame l w w'"
proof (cases "tc_state (conns w c) = kConnected")
  case False
  with assms(2) show ?thesis
    by (auto simp: connectDestroyed_def dest!: Channel_remove_op elim!: loop_frame_after)
next
  case True
  then obtain x y where x: "disableAll K (ConnChan c) (map_conn c (setState kDisconnected) w) = Inr x"
    "call_connection U c x = Inr y" "Channel_remove K (ConnChan c) y = Inr w'"
    using assms(2) by (auto simp: connectDestroyed_def)
  have "loop_frame l w x" using x(1) by (auto dest!: channel_ops(5) elim!: loop_frame_after)
  moreover have "loop_frame l x y" using call_connection_loop_frame [OF assms(1) x(2)] .
  moreover have "loop_frame l y w'" using x(3) by (auto dest!: Channel_remove_op elim!: loop_frame_after)
  ultimately show ?thesis using loop_frame_trans by blast
qed

lemma server_listen_loop_frame: "server_listen K w = Inr w' \<Longrightarrow> loop_frame l w w'"
  by (auto simp: server_listen_def Acceptor_listen_def Socket_listen_def sys_listen_def LOG_FATAL_def Let_def
      split: sysret.splits dest!: channel_ops(1) intro!: loop_frame_server_step elim!: loop_frame_after)

lemma removeConnectionInLoop_loop_frame [simp]: "loop_frame l w (removeConnectionInLoop K c w)"
  by (simp add: removeConnectionInLoop_def Let_def)

lemma run_functor_loop_frame:
  assumes "user_law K U" "run_functor K U f w = Inr w'"
  shows "loop_frame l w w'"
  using assms
  by (cases f) (auto dest: user_loop_frame connectEstablished_loop_frame connectDestroyed_loop_frame
      server_listen_loop_frame sendInLoop_loop_frame split: if_splits option.splits)

lemma release_one_frame:
  "loops (release_one K c w) = loops w" "\<exists>tr. ktrace (release_one K c w) = ktrace w @ tr"
  "cur_tid (release_one K c w) = cur_tid w"
  by (auto simp: release_one_def TcpConnection_dtor_def Socket_dtor_def sys_close_def Let_def)

lemma release_frame:
  assumes "release K fs w = Inr w'"
  shows "loops w' = loops w \<and> (\<exists>tr. ktrace w' = ktrace w @ tr) \<and> cur_tid w' = cur_tid w"
proof -
  have "loops (fold (release_one K) cs v) = loops v \<and> (\<exists>tr. ktrace (fold (release_one K) cs v) = ktrace v @ tr)
      \<and> cur_tid (fold (release_one K) cs v) = cur_tid v" for cs v
  proof (induction cs arbitrary: v)
    case Nil
    then show ?case by simp
  next
    case (Cons c cs)
    obtain tr where "ktrace (release_one K c v) = ktrace v @ tr" using release_one_frame(2) by blast
    with Cons [of "release_one K c v"] show ?case by (auto simp: release_one_frame(1,3))
  qed
  from this [of "List.map_filter functor_owner fs" w] assms show ?thesis by (auto simp: release_def)
qed

interpretation fr: functor_runner "run_functor K U" "release K" "user_law K U" for K U
  by unfold_locales (blast dest: run_functor_loop_frame release_frame)+

section \<open>Properties\<close>

text \<open>
  No functor is stranded: a batch runs exactly the functors that were queued when it began, in their
  order; whatever is queued in the meantime, by them or by their callbacks, is the queue afterwards, and
  if there is any, the loop's eventfd has been written, so that its next poll returns.
\<close>

theorem no_stranded_functor:
  assumes "user_law K U" "doPendingFunctors (run_functor K U) (release K) l w = Inr w'"
  shows "\<exists>v tr. foldE (run_functor K U) (el_pendingFunctors (loops w l)) (take_batch l w) = Inr v
    \<and> release K (el_pendingFunctors (loops w l)) (end_batch l v) = Inr w'
    \<and> el_pendingFunctors (loops w' l) = el_pendingFunctors (loops v l)
    \<and> ktrace w' = ktrace w @ tr \<and> (el_pendingFunctors (loops w' l) \<noteq> [] \<longrightarrow> wakes l w tr)
    \<and> \<not> el_callingPendingFunctors (loops w' l) \<and> el_functors (loops w' l) = []
    \<and> (el_quit (loops v l) \<longrightarrow> el_quit (loops w' l))"
proof -
  have "\<exists>v. foldE (run_functor K U) (el_pendingFunctors (loops w l)) (take_batch l w) = Inr v
      \<and> release K (el_pendingFunctors (loops w l)) (end_batch l v) = Inr w'"
    using assms(2) by (auto simp: doPendingFunctors_def Let_def take_batch_def)
  then obtain v where v: "foldE (run_functor K U) (el_pendingFunctors (loops w l)) (take_batch l w) = Inr v"
    "release K (el_pendingFunctors (loops w l)) (end_batch l v) = Inr w'" by blast
  from fr.batch_result [OF assms] v(1) obtain tr where
    "ktrace w' = ktrace w @ tr \<and> (el_pendingFunctors (loops w' l) \<noteq> [] \<longrightarrow> wakes l w tr)"
    "el_pendingFunctors (loops w' l) = el_pendingFunctors (loops v l)"
    "\<not> el_callingPendingFunctors (loops w' l)" "el_functors (loops w' l) = []"
    "el_quit (loops v l) \<longrightarrow> el_quit (loops w' l)" by auto
  with v show ?thesis by (intro exI [of _ v] exI [of _ tr]) simp
qed

theorem no_stranded_functor_witness:
  "\<exists>w'. doPendingFunctors (run_functor (plain_kernel 4 []) idle_user) (release (plain_kernel 4 [])) 0 (demo_sworld kConnected []) = Inr w'
    \<and> \<not> el_callingPendingFunctors (loops w' 0)"
proof -
  have "el_pendingFunctors (loops (demo_sworld kConnected []) 0) = []" by (simp add: demo_tworld_def)
  then obtain w' where "doPendingFunctors (run_functor (plain_kernel 4 []) idle_user) (release (plain_kernel 4 [])) 0
      (demo_sworld kConnected []) = Inr w'"
    by (simp add: doPendingFunctors_def take_batch_def release_def map_filter_simps Let_def)
  with no_stranded_functor [OF idle_user_law this] show ?thesis by blast
qed

section \<open>Every channel callback keeps the loops\<close>

lemma loop_frame_more:
  assumes "lworld.more w' = lworld.more w" "loops w' = loops w" "cur_tid w' = cur_tid w" "loopInThread w' = loopInThread w"
    and "\<exists>tr. ktrace w' = ktrace w @ tr"
  shows "loop_frame l w w'"
  using assms by (intro loop_frame_same) auto

lemma runInLoop_loop_frame:
  assumes "user_law K U" "runInLoop K (run_functor K U) k f w = Inr w'"
  shows "loop_frame l w w'"
  using assms(2) run_functor_loop_frame [OF assms(1)] by (auto simp: runInLoop_def split: if_splits)

lemma TcpConnection_ctor_loop_frame:
  assumes "TcpConnection_ctor K c (Some k) name f la pa w = Inr v"
  shows "loop_frame l w v"
  using TcpConnection_ctor_world [of K c k name f la pa w] assms by (intro loop_frame_same) auto

lemma newConnection_loop_frame:
  assumes "user_law K U" "newConnection K U f peer w = Inr w'"
  shows "loop_frame l w w'"
proof -
  obtain k p n ps where g: "getNextLoop (sv_threadPool (server w)) = Inr (k, p)" "incr_int (sv_nextConnId (server w)) = Inr n"
    "InetAddress_toIpPort peer = Inr ps"
    using assms(2) by (auto simp: newConnection_def Let_def)
  let ?w1 = "map_server (\<lambda>s. s\<lparr>sv_threadPool := p, sv_nextConnId := n\<rparr>) w"
  let ?w2 = "LOG K INFO ''TcpServer::newConnection [%s] - new connection [%s] from %s''
                     [AStr (c_str (sv_name (server ?w1))), AStr (c_str (connection_name (server w))), AStr ps] ?w1"
  obtain la v where la: "local_address K f ?w2 = (la, v)" by force
  obtain y where y: "TcpConnection_ctor K (next_conn v) (Some k) (connection_name (server w)) f la peer (v\<lparr>next_conn := next_conn v + 1\<rparr>) = Inr y"
    using TcpConnection_ctor_world [of K "next_conn v" k "connection_name (server w)" f la peer "v\<lparr>next_conn := next_conn v + 1\<rparr>"] by blast
  let ?z = "map_conn (next_conn v) (setCloseCallback (Some Bind_TcpServer_removeConnection))
      (map_conn (next_conn v) (setWriteCompleteCallback (sv_writeCompeleteCallback (server y)))
      (map_conn (next_conn v) (setMessageCallback (sv_messageCallback (server y)))
      (map_conn (next_conn v) (setConnectionCallback (sv_connectionCallback (server y)))
      (map_server (\<lambda>s. s\<lparr>sv_connections := insert_connection (connection_name (server w)) (next_conn v) (sv_connections s)\<rparr>) y))))"
  have z: "loop_frame l y ?z" "runInLoop K (run_functor K U) k (Bind_connectEstablished (next_conn v)) ?z = Inr w'"
    using assms(2) g la y by (simp_all add: newConnection_def Let_def)
  have "loop_frame l w ?w2" by simp
  moreover have "loop_frame l ?w2 v"
    using la by (auto simp: local_address_def sys_getsockname_def Let_def split: sysret.splits)
  moreover have "loop_frame l v (v\<lparr>next_conn := next_conn v + 1\<rparr>)" by (rule loop_frame_same) simp_all
  moreover have "loop_frame l (v\<lparr>next_conn := next_conn v + 1\<rparr>) y" by (rule TcpConnection_ctor_loop_frame [OF y])
  ultimately show ?thesis
    using z(1) runInLoop_loop_frame [OF assms(1) z(2)] by (meson loop_frame_trans)
qed

lemma run_close_loop_frame:
  assumes "user_law K U" "run_close K U cb c w = Inr w'"
  shows "loop_frame l w w'"
  using assms by (cases cb) (auto simp: removeConnection_def dest: runInLoop_loop_frame)

lemma handleClose_loop_frame:
  assumes "user_law K U" "handleClose K U (run_close K U) c w = Inr w'"
  shows "loop_frame l w w'"
proof -
  obtain x y cb where x: "disableAll K (ConnChan c) (map_conn c (setState kDisconnected) (LOG K INFO ''fd=%d state=%d \<newline>''
      [AInt (ch_fd (chans w (ConnChan c))), AInt (StateE_num (tc_state (conns w c)))] w)) = Inr x"
    "call_connection U c x = Inr y" "run_close K U cb c y = Inr w'"
    using assms(2) by (auto simp: handleClose_def Let_def split: option.splits)
  have "loop_frame l w x" using x(1) by (auto dest!: channel_ops(5) elim!: loop_frame_after)
  moreover have "loop_frame l x y" by (rule call_connection_loop_frame [OF assms(1) x(2)])
  moreover have "loop_frame l y w'" by (rule run_close_loop_frame [OF assms(1) x(3)])
  ultimately show ?thesis by (meson loop_frame_trans)
qed

lemma readFd_world: "readFd K f b w = Inr (n, e, b', v) \<Longrightarrow> \<exists>r. v = record_event (EvReadv f (readFd_iov b) r) w"
  by (auto simp: readFd_def sys_readv_def Let_def split: sysret.splits if_splits)

lemma handleError_loop_frame [simp]: "loop_frame l u w \<Longrightarrow> loop_frame l u (handleError K c w)"
  by (simp add: handleError_def sys_getsockopt_def Let_def)

lemma handleRead_loop_frame:
  assumes "user_law K U" "handleRead K U (run_close K U) c t w = Inr w'"
  shows "loop_frame l w w'"
proof -
  obtain n e b v where rd: "readFd K (ch_fd (chans w (ConnChan c))) (tc_inputBuffer (conns w c)) w = Inr (n, e, b, v)"
    using assms(2) by (auto simp: handleRead_def)
  let ?x = "map_conn c (\<lambda>t. t\<lparr>tc_inputBuffer := b\<rparr>) v"
  have x: "loop_frame l w ?x" using readFd_world [OF rd] by auto
  have r: "(if 0 < n
        then (case tc_messageCallback (conns ?x c) of
                None \<Rightarrow> Inl Bad_function_call | Some u \<Rightarrow> u_message U u c t ?x)
        else if n = 0 then handleClose K U (run_close K U) c ?x
        else Inr (handleError K c (LOG K ERROR ''TcpConnection::handleRead'' [] ?x))) = Inr w'"
    using assms(2) rd by (simp add: handleRead_def Let_def)
  consider u where "u_message U u c t ?x = Inr w'" | "handleClose K U (run_close K U) c ?x = Inr w'"
    | "w' = handleError K c (LOG K ERROR ''TcpConnection::handleRead'' [] ?x)"
    using r by (cases "0 < n"; cases "n = 0"; cases "tc_messageCallback (conns ?x c)") simp_all
  then have "loop_frame l ?x w'"
    by cases (auto dest: user_loop_frame(2) [OF assms(1)] handleClose_loop_frame [OF assms(1)])
  with x show ?thesis by (rule loop_frame_trans)
qed

lemma writeFd_world: "writeFd K f b w = Inr (r, v) \<Longrightarrow> \<exists>d. v = record_event (EvWrite f d r) w"
  by (auto simp: writeFd_def sys_write_def Let_def)

lemma handleWrite_loop_frame:
  assumes "handleWrite K c w = Inr w'"
  shows "loop_frame l w w'"
proof (cases "isWriting (chans w (ConnChan c))")
  case False
  then show ?thesis using assms by (auto simp: handleWrite_def)
next
  case writing: True
  obtain r v where v: "writeFd K (ch_fd (chans w (ConnChan c))) (tc_outputBuffer (conns w c)) w = Inr (r, v)"
    using assms writing by (auto simp: handleWrite_def)
  then have 1: "loop_frame l w v" using writeFd_world by fastforce
  let ?x = "\<lambda>n. map_conn c (\<lambda>t. t\<lparr>tc_outputBuffer := retrieve n (tc_outputBuffer t)\<rparr>) v"
  have "loop_frame l v w'"
  proof (cases r)
    case (Fail e)
    then show ?thesis using assms writing v by (simp add: handleWrite_def)
  next
    case (Ok n)
    show ?thesis
    proof (cases "0 < n \<and> readableBytes (tc_outputBuffer (conns (?x n) c)) = 0")
      case False
      then have "w' = v \<or> w' = LOG K ERROR ''TcpConnection::handleWrite'' [] (?x n)"
        using assms writing v Ok by (cases "0 < n") (auto simp: handleWrite_def Let_def)
      then show ?thesis by auto
    next
      case True
      then obtain y where y: "disableWriting K (ConnChan c) (?x n) = Inr y"
        "w' = (let w = (case tc_writeCompeleteCallback (conns y c) of
                              Some u \<Rightarrow> queueInLoop K (tc_loop (conns y c)) (Bind_writeComplete u c) y
                            | None \<Rightarrow> y)
                   in if tc_state (conns w c) = kDisconnecting then shutdownInLoop K c w else w)"
        using assms writing v Ok by (auto simp: handleWrite_def Let_def)
      have "loop_frame l v y" using y(1) by (auto dest!: channel_ops(4) elim!: loop_frame_after)
      then show ?thesis by (simp add: y(2) Let_def split: option.split)
    qed
  qed
  with 1 show ?thesis by (rule loop_frame_trans)
qed

lemma Acceptor_handleRead_loop_frame:
  assumes "user_law K U" "Acceptor_handleRead K (run_accept K U) a w = Inr w'"
  shows "loop_frame l w w'"
proof (cases "k_accept K (ktrace w) (ac_acceptSocket a)")
  case (Fail e)
  then show ?thesis using assms(2)
    by (auto simp: Acceptor_handleRead_def Socket_accept_def sys_accept_def Let_def)
next
  case (Ok r)
  obtain f sa where r: "r = (f, sa)" by (cases r)
  let ?v = "record_event (EvAccept (ac_acceptSocket a) (Ok (f, sa))) w"
  have v: "loop_frame l w ?v" by simp
  have "loop_frame l ?v w'"
  proof (cases "ac_newConnectionCallback a")
    case None
    then show ?thesis using assms(2) Ok
      by (auto simp: Acceptor_handleRead_def Socket_accept_def sys_accept_def sys_close_def r Let_def)
  next
    case (Some cb)
    then obtain peer where "newConnection K U f peer ?v = Inr w'"
      using assms(2) Ok by (cases cb) (auto simp: Acceptor_handleRead_def Socket_accept_def sys_accept_def r Let_def)
    then show ?thesis by (rule newConnection_loop_frame [OF assms(1)])
  qed
  with v show ?thesis by (rule loop_frame_trans)
qed

lemma run_cb_loop_frame:
  assumes "user_law K U" "run_cb K U cb t w = Inr w'"
  shows "loop_frame l w w'"
  using assms
  by (cases cb) (auto dest: Acceptor_handleRead_loop_frame handleRead_loop_frame handleWrite_loop_frame handleClose_loop_frame)

text \<open>So does the dispatch of a channel's event, and the polling before it.\<close>

lemma call_opt_loop_frame:
  assumes "user_law K U" "call_opt (run_cb K U) cb t w = Inr w'"
  shows "loop_frame l w w'"
  using assms by (auto simp: call_opt_def split: option.splits dest: run_cb_loop_frame)

lemma handleEvent_loop_frame:
  assumes law: "user_law K U" and r: "handleEvent K al (run_cb K U) t ch w = Inr w'"
  shows "loop_frame l w w'"
proof -
  have step: "loop_frame l u v" if "(if b then call_opt (run_cb K U) cb t u else Inr u) = Inr v" for b cb u v
    using that call_opt_loop_frame [OF law] by (auto split: if_splits)
  have "loop_frame l w w'" if g: "handleEventWithGuard K (run_cb K U) t ch w = Inr w'"
  proof -
    let ?u = "LOG K INFO ''Channel handleEvent revents : %d\<newline>'' [AInt (sint (ch_revents (chans w ch)))] w"
    obtain a b c where abc:
      "(if has_bits (ch_revents (chans ?u ch)) EPOLLHUP \<and> \<not> has_bits (ch_revents (chans ?u ch)) EPOLLIN
        then call_opt (run_cb K U) (ch_closeCallback (chans ?u ch)) t ?u else Inr ?u) = Inr a"
      "(if has_bits (ch_revents (chans a ch)) EPOLLERR
        then call_opt (run_cb K U) (ch_errorCallback (chans a ch)) t a else Inr a) = Inr b"
      "(if has_bits (ch_revents (chans b ch)) (EPOLLIN OR EPOLLPRI)
        then call_opt (run_cb K U) (ch_readCallback (chans b ch)) t b else Inr b) = Inr c"
      "(if has_bits (ch_revents (chans c ch)) EPOLLOUT
        then call_opt (run_cb K U) (ch_writeCallback (chans c ch)) t c else Inr c) = Inr w'"
      using g unfolding handleEventWithGuard_def Let_def bindE_eq_Inr by (elim exE conjE)
    have "loop_frame l w ?u" by simp
    from loop_frame_trans [OF loop_frame_trans [OF loop_frame_trans [OF loop_frame_trans [OF this step [OF abc(1)]]
      step [OF abc(2)]] step [OF abc(3)]] step [OF abc(4)]]
    show ?thesis .
  qed
  then show ?thesis using r by (auto simp: handleEvent_def split: if_splits option.splits)
qed

lemma poll_loop_frame:
  assumes "EPollPoller_poll K n p w = Inr (t, active, p', w')"
  shows "loop_frame l w w'" "loops w' = loops w"
proof -
  have r: "reports w w'" by (rule poll_reports [OF assms])
  then show "loops w' = loops w" using lworld_more(1) by (auto simp: reports_def)
  then show "loop_frame l w w'"
    using r lworld_more(2) [of w' w] by (intro loop_frame_same) (auto simp: reports_def)
qed

text \<open>The loop of the program.\<close>

definition alive :: "conn_id \<Rightarrow> 'z sworld_scheme \<Rightarrow> bool" where
  "alive c w \<longleftrightarrow> c \<in> live w"

definition body :: "kernel \<Rightarrow> 'z sworld_scheme user \<Rightarrow> loop_id \<Rightarrow> 'z sworld_scheme \<Rightarrow> 'z sworld_scheme res" where
  "body K U = loop_body K alive (run_cb K U) (run_functor K U) (release K)"

text \<open>One pass is a poll, the dispatch, and a batch.\<close>

lemma body_parts:
  assumes "user_law K U" "body K U l w = Inr x"
  shows "\<exists>v. (\<exists>new. el_pendingFunctors (loops v l) = el_pendingFunctors (loops w l) @ new)
    \<and> (el_quit (loops w l) \<longrightarrow> el_quit (loops v l)) \<and> cur_tid v = cur_tid w
    \<and> doPendingFunctors (run_functor K U) (release K) l v = Inr x"
proof -
  let ?u = "map_loop l (\<lambda>e. e\<lparr>el_activeChannels := []\<rparr>) w"
  obtain p where p: "el_poller (loops ?u l) = Some p" using assms(2) by (auto simp: body_def loop_body_def Let_def split: option.splits)
  obtain t active p' z where z: "EPollPoller_poll K kPollTimeMs p ?u = Inr (t, active, p', z)"
    using assms(2) p by (auto simp: body_def loop_body_def Let_def)
  let ?z = "map_loop l (\<lambda>e. e\<lparr>el_poller := Some p', el_pollReturnTime := t, el_activeChannels := active\<rparr>) z"
  obtain v where v: "foldE (\<lambda>ch w. handleEvent K alive (run_cb K U) (el_pollReturnTime (loops w l)) ch w) active ?z = Inr v"
    "doPendingFunctors (run_functor K U) (release K) l v = Inr x"
    using assms(2) p z by (auto simp: body_def loop_body_def Let_def)
  have "loop_frame l ?z v"
    by (rule foldE_rel [OF v(1)]) (auto intro: loop_frame_trans handleEvent_loop_frame [OF assms(1)])
  moreover have "el_pendingFunctors (loops ?z l) = el_pendingFunctors (loops w l)" "el_quit (loops ?z l) = el_quit (loops w l)"
    "cur_tid ?z = cur_tid w"
    using poll_loop_frame(1) [OF z, of l] poll_loop_frame(2) [OF z] by (simp_all add: loop_frame_def)
  ultimately show ?thesis using v(2) by (intro exI [of _ v]) (auto simp: loop_frame_def)
qed

text \<open>
  C38: a functor that asks its loop to quit ends it: if it is in the queue when \<open>loop\<close> is called and the first pass
  completes, \<open>loop\<close> returns after that pass, whatever the events and the other functors of the pass do.
\<close>

theorem quit_ends_loop:
  assumes law: "user_law K U"
    and f: "User_functor u \<in> set (el_pendingFunctors (loops w l))" "\<And>a b. u_functor U u a = Inr b \<Longrightarrow> el_quit (loops b l)"
    and pass: "body K U l (loop_entry K l w) = Inr x"
  shows "EventLoop_loop K alive (run_cb K U) (run_functor K U) (release K) l w = Some (Inr (loop_exit K l x))"
proof -
  obtain v new where v: "el_pendingFunctors (loops v l) = el_pendingFunctors (loops (loop_entry K l w) l) @ new"
    "doPendingFunctors (run_functor K U) (release K) l v = Inr x"
    using body_parts [OF law pass] by blast
  obtain y where y: "foldE (run_functor K U) (el_pendingFunctors (loops v l)) (take_batch l v) = Inr y"
    "el_quit (loops y l) \<longrightarrow> el_quit (loops x l)"
    using fr.batch_result [OF law v(2)] by blast
  have "User_functor u \<in> set (el_pendingFunctors (loops v l))" using f(1) v(1) by (simp add: loop_entry_def)
  then have "el_quit (loops y l)" using f(2) by (intro fr.quit_in_batch [OF law y(1)]) auto
  then have "el_quit (loops x l)" using y(2) by simp
  then have "loop_while (body K U l) (\<lambda>w. el_quit (loops w l)) (loop_entry K l w) = Some (Inr x)"
    using pass by (subst loop_while_step) (simp_all add: loop_while_quit, simp add: loop_entry_def)
  then show ?thesis by (simp add: EventLoop_loop_alt body_def)
qed

text \<open>A user whose functors ask loop 0 to quit, and such a functor in the queue.\<close>

definition quitting_user :: "kernel \<Rightarrow> 'z tworld_scheme user" where
  "quitting_user K = idle_user\<lparr>u_functor := (\<lambda>u w. Inr (EventLoop_quit K 0 w))\<rparr>"

lemma quitting_user_law: "user_law K (quitting_user K)"
  using api_more [OF api_done api_quit] by (auto simp: user_law_def quitting_user_def idle_user_def api_done)

definition quitting_sworld :: sworld where
  "quitting_sworld = map_loop 0 (\<lambda>e. e\<lparr>el_pendingFunctors := [User_functor 1]\<rparr>) (demo_sworld kConnected [])"

lemma quitting_pass: "\<exists>x. body (plain_kernel 4 []) (quitting_user (plain_kernel 4 [])) 0
    (loop_entry (plain_kernel 4 []) 0 quitting_sworld) = Inr x"
proof -
  let ?K = "plain_kernel 4 []"
  let ?w = "map_loop 0 (\<lambda>e. e\<lparr>el_activeChannels := []\<rparr>) (loop_entry ?K 0 quitting_sworld)"
  have p: "el_poller (loops ?w 0) = Some demo_conn_poller" and f: "el_pendingFunctors (loops ?w 0) = [User_functor 1]"
    by (simp_all add: loop_entry_def quitting_sworld_def) (simp add: demo_tworld_def)
  obtain now v where v: "EPollPoller_poll ?K kPollTimeMs demo_conn_poller ?w = Inr (now, [], demo_conn_poller, v)"
    using poll_nothing [of ?K ?w demo_conn_poller kPollTimeMs] by (auto simp: plain_kernel_def)
  have "el_pendingFunctors (loops v 0) = [User_functor 1]" using poll_loop_frame(2) [OF v] f by simp
  with v p show ?thesis
    by (simp add: body_def loop_body_def doPendingFunctors_def take_batch_def release_def map_filter_simps quitting_user_def Let_def)
qed

theorem quit_ends_loop_witness:
  "\<exists>w'. EventLoop_loop (plain_kernel 4 []) alive (run_cb (plain_kernel 4 []) (quitting_user (plain_kernel 4 [])))
     (run_functor (plain_kernel 4 []) (quitting_user (plain_kernel 4 []))) (release (plain_kernel 4 [])) 0 quitting_sworld = Some (Inr w')"
proof -
  let ?K = "plain_kernel 4 []"
  obtain x where x: "body ?K (quitting_user ?K) 0 (loop_entry ?K 0 quitting_sworld) = Inr x" using quitting_pass by blast
  have f: "User_functor 1 \<in> set (el_pendingFunctors (loops quitting_sworld 0))" by (simp add: quitting_sworld_def)
  have q: "el_quit (loops b 0)" if "u_functor (quitting_user ?K) 1 a = Inr b" for a b :: sworld
    using that quit_spec(1) [of ?K 0 a] by (auto simp: quitting_user_def)
  show ?thesis by (rule exI, rule quit_ends_loop [OF quitting_user_law f _ x]) (rule q)
qed

end
