(* ===== verification/Steps.thy ===== *)
theory Steps
  imports Reactor
begin

text \<open>
  Every handler of the program as a sequence of elementary steps (\<open>code_step\<close>), each with the facts of
  the state that allow it: which bytes of the state it may change, in which connection state, and what
  it may put into which queue.  Invariants are then proved once per elementary step.  \<open>A\<close> is the set
  of connections the running code has been called for, and \<open>rm\<close> says whether it may take their channels
  off the poller; user code runs with the empty set.
\<close>

section \<open>Elementary steps\<close>

text \<open>A system call that opens, closes and registers nothing.\<close>

fun neutral :: "kevent \<Rightarrow> bool" where
  "neutral (EvRead f n r) = True"
| "neutral (EvReadv f iov r) = True"
| "neutral (EvWrite f d r) = True"
| "neutral (EvListen f n r) = True"
| "neutral (EvShutdown f r) = True"
| "neutral (EvSetsockopt f opt v) = True"
| "neutral (EvGetsockopt f r) = True"
| "neutral (EvGetsockname f r) = True"
| "neutral (EvAccept f r) = (case r of Ok x \<Rightarrow> False | Fail e \<Rightarrow> True)"
| "neutral _ = False"

lemma neutral_open: "neutral e \<Longrightarrow> open_after e s = s"
  by (cases e) (auto split: sysret.splits)

lemma neutral_interest: "neutral e \<Longrightarrow> interest_after ep e m = m"
  by (cases e) (auto split: sysret.splits)

text \<open>The program reads with \<^verbatim>\<open>read\<close> from the eventfds only, and only to handle their events.\<close>

fun is_read :: "kevent \<Rightarrow> bool" where
  "is_read (EvRead f n r) = True"
| "is_read _ = False"

fun may_state :: "bool \<Rightarrow> StateE \<Rightarrow> StateE \<Rightarrow> bool" where
  "may_state priv s s' \<longleftrightarrow> s' = s \<or> s = kConnected \<and> s' = kDisconnecting
     \<or> priv \<and> s \<noteq> kConnecting \<and> s' = kDisconnected"

definition keeps_role :: "TcpConnection \<Rightarrow> TcpConnection \<Rightarrow> bool" where
  "keeps_role t t' \<longleftrightarrow> tc_loop t' = tc_loop t \<and> tc_name t' = tc_name t \<and> tc_socket t' = tc_socket t
     \<and> tc_closeCallback t' = tc_closeCallback t \<and> tc_connectionCallback t' = tc_connectionCallback t
     \<and> tc_messageCallback t' = tc_messageCallback t"

lemma keeps_role_refl [simp]: "keeps_role t t"
  by (simp add: keeps_role_def)

lemma keeps_role_trans: "keeps_role a b \<Longrightarrow> keeps_role b c \<Longrightarrow> keeps_role a c"
  by (simp add: keeps_role_def)

text \<open>What may be queued where.\<close>

fun may_queue :: "conn_id set \<Rightarrow> 'z sworld_scheme \<Rightarrow> loop_id \<Rightarrow> Functor \<Rightarrow> bool" where
  "may_queue A w l (User_functor u) \<longleftrightarrow> True"
| "may_queue A w l (Bind_sendInLoop c p n) \<longleftrightarrow> c \<in> live w \<and> l = tc_loop (conns w c) \<and> tc_state (conns w c) \<noteq> kConnecting"
| "may_queue A w l (Bind_shutdownInLoop c) \<longleftrightarrow> c \<in> live w \<and> l = tc_loop (conns w c) \<and> tc_state (conns w c) \<noteq> kConnecting"
| "may_queue A w l (Bind_writeComplete u c) \<longleftrightarrow> c \<in> live w \<and> l = tc_loop (conns w c)"
| "may_queue A w l (Bind_highWaterMark u c n) \<longleftrightarrow> c \<in> live w \<and> l = tc_loop (conns w c)"
| "may_queue A w l (Bind_connectEstablished c) \<longleftrightarrow> False"
| "may_queue A w l (Bind_connectDestroyed c) \<longleftrightarrow> False"
| "may_queue A w l (Bind_removeConnectionInLoop c) \<longleftrightarrow> c \<in> A \<and> c \<in> live w \<and> l = sv_loop (server w) \<and> tc_state (conns w c) = kDisconnected"
| "may_queue A w l Bind_Acceptor_listen \<longleftrightarrow> False"

text \<open>The channels that exist: of the constructed loops, of the acceptor, of the live connections.\<close>

fun present :: "'z sworld_scheme \<Rightarrow> chan_id \<Rightarrow> bool" where
  "present w (WakeupChan l) \<longleftrightarrow> el_poller (loops w l) \<noteq> None"
| "present w AcceptChan \<longleftrightarrow> True"
| "present w (ConnChan c) \<longleftrightarrow> c \<in> live w"

text \<open>An open descriptor that nothing uses yet.\<close>

definition spare_fd :: "fd \<Rightarrow> 'z sworld_scheme \<Rightarrow> bool" where
  "spare_fd f w \<longleftrightarrow> 2 < f \<and> f \<in> open_fds (ktrace w) \<and> (\<forall>ch. present w ch \<longrightarrow> ch_fd (chans w ch) \<noteq> f)
     \<and> (\<forall>l. el_wakeupFd (loops w l) \<noteq> f) \<and> (\<forall>l p. el_poller (loops w l) = Some p \<longrightarrow> pl_epollfd p \<noteq> f)"

inductive code_step :: "kernel \<Rightarrow> bool \<Rightarrow> conn_id set \<Rightarrow> 'z sworld_scheme \<Rightarrow> 'z sworld_scheme \<Rightarrow> bool" for K rm A where
  cs_log: "code_step K rm A w (LOG K lv fmt args w)"
| cs_event: "neutral e \<Longrightarrow> \<not> is_read e \<Longrightarrow> code_step K rm A w (record_event e w)"
| cs_conn: "c \<in> live w \<Longrightarrow> keeps_role (conns w c) (f (conns w c)) \<Longrightarrow>
    may_state (c \<in> A) (tc_state (conns w c)) (tc_state (f (conns w c))) \<Longrightarrow> code_step K rm A w (map_conn c f w)"
| cs_establish: "c \<in> A \<Longrightarrow> c \<in> live w \<Longrightarrow> tc_state (conns w c) = kConnecting \<Longrightarrow>
    code_step K rm A w (map_chan (ConnChan c) (Channel_tie c) (map_conn c (setState kConnected) w))"
| cs_writing: "c \<in> live w \<Longrightarrow> tc_state (conns w c) \<noteq> kConnecting \<Longrightarrow> tc_state (conns w c) \<noteq> kDisconnected \<Longrightarrow>
    enablewriting K (ConnChan c) w = Inr w' \<Longrightarrow> code_step K rm A w w'"
| cs_drained: "c \<in> A \<Longrightarrow> c \<in> live w \<Longrightarrow> ch_index (chans w (ConnChan c)) \<noteq> kNew \<Longrightarrow>
    disableWriting K (ConnChan c) w = Inr w' \<Longrightarrow> code_step K rm A w w'"
| cs_reading: "c \<in> A \<Longrightarrow> c \<in> live w \<Longrightarrow> tc_state (conns w c) = kConnected \<Longrightarrow>
    enableReading K (ConnChan c) w = Inr w' \<Longrightarrow> code_step K rm A w w'"
| cs_off: "c \<in> A \<Longrightarrow> c \<in> live w \<Longrightarrow> tc_state (conns w c) = kDisconnected \<Longrightarrow> ch_index (chans w (ConnChan c)) \<noteq> kNew \<Longrightarrow>
    disableAll K (ConnChan c) w = Inr w' \<Longrightarrow> code_step K rm A w w'"
| cs_remove: "rm \<Longrightarrow> c \<in> A \<Longrightarrow> c \<in> live w \<Longrightarrow> tc_state (conns w c) = kDisconnected \<Longrightarrow>
    Channel_remove K (ConnChan c) w = Inr w' \<Longrightarrow> code_step K rm A w w'"
| cs_listen: "enableReading K AcceptChan w = Inr w' \<Longrightarrow> code_step K rm A w w'"
| cs_queue: "may_queue A w l f \<Longrightarrow> code_step K rm A w (queueInLoop K l f w)"
| cs_quit: "code_step K rm A w (EventLoop_quit K l w)"
| cs_acceptor: "code_step K rm A w (map_server (\<lambda>s. s\<lparr>sv_acceptor := (sv_acceptor s)\<lparr>ac_listening := True\<rparr>\<rparr>) w)"
| cs_erase: "c \<in> A \<Longrightarrow> c \<in> live w \<Longrightarrow> tc_state (conns w c) = kDisconnected \<Longrightarrow>
    code_step K rm A w (queueInLoop K (tc_loop (conns w c)) (Bind_connectDestroyed c)
      (map_server (\<lambda>s. s\<lparr>sv_connections := erase (tc_name (conns w c)) (sv_connections s)\<rparr>) w))"
| cs_strings: "code_step K rm A w (w\<lparr>strings := m, next_string := n\<rparr>)"
| cs_accept: "f \<notin> open_fds (ktrace w) \<Longrightarrow> 2 < f \<Longrightarrow> code_step K rm A w (record_event (EvAccept s (Ok (f, a))) w)"
| cs_refuse: "spare_fd f w \<Longrightarrow> code_step K rm A w (sys_close f w)"
| cs_new: "spare_fd f w \<Longrightarrow> next_conn w \<in> A \<Longrightarrow> l \<in> set (server_loops w) \<Longrightarrow> registered_conn l f w w' \<Longrightarrow>
    server_ok (server w') \<Longrightarrow> code_step K rm A w w'"
| cs_new_queued: "spare_fd f w \<Longrightarrow> next_conn w \<notin> A \<Longrightarrow> l \<in> set (server_loops w) \<Longrightarrow> registered_conn l f w v \<Longrightarrow>
    server_ok (server v) \<Longrightarrow> code_step K rm A w (queueInLoop K l (Bind_connectEstablished (next_conn w)) v)"

inductive code_run :: "kernel \<Rightarrow> bool \<Rightarrow> conn_id set \<Rightarrow> 'z sworld_scheme \<Rightarrow> 'z sworld_scheme \<Rightarrow> bool" for K rm A where
  cr_done [intro, simp]: "code_run K rm A w w"
| cr_more: "code_run K rm A u v \<Longrightarrow> code_step K rm A v w \<Longrightarrow> code_run K rm A u w"

lemma code_run_step: "code_step K rm A u v \<Longrightarrow> code_run K rm A u v"
  using cr_more [OF cr_done] .

lemma code_run_trans: "code_run K rm A v w \<Longrightarrow> code_run K rm A u v \<Longrightarrow> code_run K rm A u w"
  by (induction rule: code_run.induct) (auto intro: cr_more)

text \<open>A relation that is reflexive and transitive and holds of every step holds of every run.\<close>

lemma code_run_rel:
  assumes "code_run K rm A u w" "I u"
    and "\<And>w. R w w" "\<And>u v w. R u v \<Longrightarrow> R v w \<Longrightarrow> R u w"
    and "\<And>v w. I v \<Longrightarrow> code_step K rm A v w \<Longrightarrow> I w \<and> R v w"
  shows "I w \<and> R u w"
  using assms(1,2)
proof (induction rule: code_run.induct)
  case (cr_done w)
  then show ?case using assms(3) by blast
next
  case (cr_more u v w)
  then show ?case using assms(4,5) by blast
qed

section \<open>The invariant of the world\<close>

text \<open>Descriptors: every existing channel has an open one of its own.\<close>

definition fds_ok :: "'z sworld_scheme \<Rightarrow> bool" where
  "fds_ok w \<longleftrightarrow>
     (\<forall>ch. present w ch \<longrightarrow> ch_fd (chans w ch) \<in> open_fds (ktrace w) \<and> 2 < ch_fd (chans w ch))
   \<and> (\<forall>ch ch'. present w ch \<longrightarrow> present w ch' \<longrightarrow> ch_fd (chans w ch) = ch_fd (chans w ch') \<longrightarrow> ch = ch')
   \<and> (\<forall>ch. ch_index (chans w ch) \<noteq> kNew \<longrightarrow> present w ch)
   \<and> (\<forall>l. if el_poller (loops w l) = None then el_wakeupFd (loops w l) \<le> 2
          else ch_fd (chans w (WakeupChan l)) = el_wakeupFd (loops w l))
   \<and> (\<forall>l p. el_poller (loops w l) = Some p \<longrightarrow> pl_epollfd p \<in> open_fds (ktrace w)
          \<and> (\<forall>ch. present w ch \<longrightarrow> ch_fd (chans w ch) \<noteq> pl_epollfd p)
          \<and> (\<forall>l' p'. el_poller (loops w l') = Some p' \<longrightarrow> pl_epollfd p' = pl_epollfd p \<longrightarrow> l' = l))"

text \<open>Registration: the poller of every loop agrees with its channels and with the kernel.\<close>

definition regs :: "'z sworld_scheme \<Rightarrow> bool" where
  "regs w \<longleftrightarrow> (\<forall>l p. el_poller (loops w l) = Some p \<longrightarrow> pl_owner p = l \<and> poller_inv p w)
     \<and> (\<forall>ch. present w ch \<longrightarrow> el_poller (loops w (ch_loop (chans w ch))) \<noteq> None)
     \<and> (\<forall>l \<in> set (server_loops w). el_poller (loops w l) \<noteq> None)"

text \<open>Callbacks: the channels call what they were constructed with.\<close>

fun bound_ok :: "chan_id \<Rightarrow> Channel \<Rightarrow> bool" where
  "bound_ok (WakeupChan l) ch \<longleftrightarrow> ch_loop ch = l \<and> ch_readCallback ch = Some (Bind_EventLoop_handleRead l) \<and> ch_writeCallback ch = None
     \<and> ch_closeCallback ch = None \<and> ch_errorCallback ch = None \<and> \<not> ch_tied ch"
| "bound_ok AcceptChan ch \<longleftrightarrow> ch_readCallback ch = Some Bind_Acceptor_handleRead \<and> ch_writeCallback ch = None
     \<and> ch_closeCallback ch = None \<and> ch_errorCallback ch = None \<and> \<not> ch_tied ch"
| "bound_ok (ConnChan c) ch \<longleftrightarrow> ch_readCallback ch = Some (Bind_TcpConnection_handleRead c)
     \<and> ch_writeCallback ch = Some (Bind_TcpConnection_handleWrite c)
     \<and> ch_closeCallback ch = Some (Bind_TcpConnection_handleClose c)
     \<and> ch_errorCallback ch = Some (Bind_TcpConnection_handleError c) \<and> (ch_tied ch \<longrightarrow> ch_tie ch = Some c)"

text \<open>A live connection and its channel.\<close>

definition conn_ok :: "conn_id \<Rightarrow> 'z sworld_scheme \<Rightarrow> bool" where
  "conn_ok c w \<longleftrightarrow> c < next_conn w \<and> ch_loop (chans w (ConnChan c)) = tc_loop (conns w c)
     \<and> ch_fd (chans w (ConnChan c)) = tc_socket (conns w c) \<and> tc_loop (conns w c) \<in> set (server_loops w)
     \<and> tc_closeCallback (conns w c) = Some Bind_TcpServer_removeConnection
     \<and> (if tc_state (conns w c) = kConnecting then ch_index (chans w (ConnChan c)) = kNew
        else ch_tied (chans w (ConnChan c)))"

definition conns_ok :: "'z sworld_scheme \<Rightarrow> bool" where
  "conns_ok w \<longleftrightarrow> (\<forall>c \<in> live w. conn_ok c w) \<and> (\<forall>ch. present w ch \<longrightarrow> bound_ok ch (chans w ch))"

text \<open>The table of the server, and the names of the live connections, in the table or not.\<close>

definition table_ok :: "'z sworld_scheme \<Rightarrow> bool" where
  "table_ok w \<longleftrightarrow> server_ok (server w) \<and> tp_baseLoop (sv_threadPool (server w)) = sv_loop (server w)
     \<and> (\<forall>c \<in> live w. \<exists>i. 1 \<le> i \<and> i < sv_nextConnId (server w) \<and> tc_name (conns w c) = name_of (server w) i)
     \<and> (\<forall>c \<in> live w. \<forall>d \<in> live w. tc_name (conns w c) = tc_name (conns w d) \<longrightarrow> c = d)
     \<and> (\<forall>x \<in> set (sv_connections (server w)). snd x \<in> live w \<and> tc_name (conns w (snd x)) = fst x)"

text \<open>The queues: what a functor refers to is there.\<close>

definition functor_conn :: "Functor \<Rightarrow> conn_id option" where
  "functor_conn f = (case functor_owner f of Some c \<Rightarrow> Some c | None \<Rightarrow> functor_raw f)"

fun functor_loop :: "Functor \<Rightarrow> 'z sworld_scheme \<Rightarrow> loop_id option" where
  "functor_loop (Bind_removeConnectionInLoop c) w = Some (sv_loop (server w))"
| "functor_loop (Bind_connectEstablished c) w = Some (tc_loop (conns w c))"
| "functor_loop (Bind_connectDestroyed c) w = Some (tc_loop (conns w c))"
| "functor_loop (Bind_writeComplete u c) w = Some (tc_loop (conns w c))"
| "functor_loop (Bind_highWaterMark u c n) w = Some (tc_loop (conns w c))"
| "functor_loop _ w = None"

definition functor_ok :: "loop_id \<Rightarrow> Functor \<Rightarrow> 'z sworld_scheme \<Rightarrow> bool" where
  "functor_ok l f w \<longleftrightarrow> (\<forall>c. functor_owner f = Some c \<longrightarrow> c \<in> live w) \<and> (\<forall>c. functor_raw f = Some c \<longrightarrow> c < next_conn w)
     \<and> (\<forall>k. functor_loop f w = Some k \<longrightarrow> l = k)"

definition queues_ok :: "'z sworld_scheme \<Rightarrow> bool" where
  "queues_ok w \<longleftrightarrow> (\<forall>l. \<forall>f \<in> set (el_pendingFunctors (loops w l) @ el_functors (loops w l)). functor_ok l f w)"

definition sound :: "'z sworld_scheme \<Rightarrow> bool" where
  "sound w \<longleftrightarrow> fds_ok w \<and> regs w \<and> conns_ok w \<and> table_ok w \<and> queues_ok w"

section \<open>Steps that change neither channels nor connections\<close>

lemma present_cong:
  assumes "live w' = live w" "\<And>l. (el_poller (loops w' l) = None) = (el_poller (loops w l) = None)"
  shows "present w' ch = present w ch"
  using assms by (cases ch) simp_all

text \<open>Two channels that are registered alike.\<close>

definition alike :: "Channel \<Rightarrow> Channel \<Rightarrow> bool" where
  "alike c d \<longleftrightarrow> ch_fd d = ch_fd c \<and> ch_loop d = ch_loop c \<and> ch_index d = ch_index c \<and> ch_events d = ch_events c"

lemma alike_refl [simp]: "alike c c"
  by (simp add: alike_def)

lemma poller_inv_alike:
  assumes "poller_inv p w" "\<And>c. alike (chans w c) (chans w' c)"
    and "interest (pl_epollfd p) (ktrace w') = interest (pl_epollfd p) (ktrace w)"
  shows "poller_inv p w'"
proof -
  have "expected_interest p w' = expected_interest p w"
    by (rule ext) (use assms(2) in \<open>simp add: expected_interest_def alike_def split: option.split\<close>)
  with assms show ?thesis by (simp add: poller_inv_def alike_def)
qed

lemma still_sound:
  assumes sound: "sound w" and ch: "\<And>c. alike (chans w c) (chans w' c)"
    and bd: "\<And>c. present w c \<Longrightarrow> bound_ok c (chans w' c)" and co: "\<And>c. c \<in> live w \<Longrightarrow> conn_ok c w'"
    and tb: "table_ok w'" and q: "queues_ok w'" and lv: "live w' = live w" and sl: "server_loops w' = server_loops w"
    and lo: "\<And>l. el_poller (loops w' l) = el_poller (loops w l)" "\<And>l. el_wakeupFd (loops w' l) = el_wakeupFd (loops w l)"
    and int: "\<And>l p. el_poller (loops w l) = Some p \<Longrightarrow> interest (pl_epollfd p) (ktrace w') = interest (pl_epollfd p) (ktrace w)"
    and opn: "\<And>c. present w c \<Longrightarrow> ch_fd (chans w c) \<in> open_fds (ktrace w')"
      "\<And>l p. el_poller (loops w l) = Some p \<Longrightarrow> pl_epollfd p \<in> open_fds (ktrace w')"
  shows "sound w'"
proof -
  have pr: "present w' c = present w c" for c by (rule present_cong) (simp_all add: lv lo)
  have chD: "ch_fd (chans w' c) = ch_fd (chans w c)" "ch_loop (chans w' c) = ch_loop (chans w c)"
    "ch_index (chans w' c) = ch_index (chans w c)" for c using ch [of c] by (simp_all add: alike_def)
  have fds: "fds_ok w" and rg: "regs w" using sound by (auto simp: sound_def)
  have "fds_ok w'" using fds opn unfolding fds_ok_def pr chD lo by blast
  moreover have "regs w'"
    using rg poller_inv_alike [OF _ ch] int unfolding regs_def pr chD lo sl by blast
  moreover have "conns_ok w'" using bd co unfolding conns_ok_def pr lv by simp
  ultimately show ?thesis using tb q by (simp add: sound_def)
qed

lemma sound_open:
  assumes "sound w" "open_fds (ktrace w) \<subseteq> open_fds (ktrace w')"
  shows "present w c \<Longrightarrow> ch_fd (chans w c) \<in> open_fds (ktrace w')"
    and "el_poller (loops w l) = Some p \<Longrightarrow> pl_epollfd p \<in> open_fds (ktrace w')"
  using assms unfolding sound_def fds_ok_def by blast+

lemma functor_ok_mono:
  assumes "functor_ok l f w" "live w \<subseteq> live w'" "next_conn w \<le> next_conn w'" "sv_loop (server w') = sv_loop (server w)"
    and "\<And>c. c \<in> live w \<Longrightarrow> tc_loop (conns w' c) = tc_loop (conns w c)"
  shows "functor_ok l f w'"
  using assms unfolding functor_ok_def by (cases f) auto

lemma queues_ok_same:
  assumes "queues_ok w" "live w' = live w" "next_conn w' = next_conn w" "sv_loop (server w') = sv_loop (server w)"
    and "\<And>c. c \<in> live w \<Longrightarrow> tc_loop (conns w' c) = tc_loop (conns w c)"
    and "\<And>l. el_pendingFunctors (loops w' l) = el_pendingFunctors (loops w l)"
    and "\<And>l. el_functors (loops w' l) = el_functors (loops w l)"
  shows "queues_ok w'"
  using assms functor_ok_mono [of _ _ w w'] unfolding queues_ok_def by simp

lemma may_queue_ok:
  assumes "may_queue A w l f" "conns_ok w"
  shows "functor_ok l f w"
  using assms by (cases f) (auto simp: functor_ok_def conns_ok_def conn_ok_def)


section \<open>Steps that change a registration\<close>

definition ctl_trace :: "fd \<Rightarrow> ktrace \<Rightarrow> bool" where
  "ctl_trace ep tr \<longleftrightarrow> (\<forall>e \<in> set tr. \<exists>opn f ev r. e = EvEpollCtl ep opn f ev r)"

lemma interest_append: "interest ep (a @ b) = fold (interest_after ep) b (interest ep a)"
  by (simp add: interest_def)

lemma ctl_other: "ep' \<noteq> ep \<Longrightarrow> interest_after ep' (EvEpollCtl ep opn f ev r) m = m"
  by (cases opn; cases r) auto

lemma ctl_trace_interest:
  assumes "ctl_trace ep tr" "ep' \<noteq> ep"
  shows "interest ep' (a @ tr) = interest ep' a"
proof -
  have "fold (interest_after ep') tr m = m" for m
    using assms(1)
  proof (induction tr arbitrary: m)
    case (Cons e tr)
    then obtain opn f ev r where "e = EvEpollCtl ep opn f ev r" by (auto simp: ctl_trace_def)
    then have "interest_after ep' e m = m" using ctl_other [OF assms(2)] by simp
    with Cons show ?case by (simp add: ctl_trace_def)
  qed simp
  then show ?thesis by (simp add: interest_append)
qed

lemma EPollPoller_update_ctl:
  assumes "EPollPoller_update K opn ch p w = Inr w'"
  shows "\<exists>tr. ktrace w' = ktrace w @ tr \<and> ctl_trace (pl_epollfd p) tr"
  using assms
  by (auto simp: EPollPoller_update_def sys_epoll_ctl_def record_event_def LOG_FATAL_def ctl_trace_def Let_def
      split: sysret.splits if_splits)

lemma updateChannel_ctl:
  assumes "EPollPoller_updateChannel K ch p w = Inr (p', w')"
  shows "\<exists>tr. ktrace w' = ktrace w @ tr \<and> ctl_trace (pl_epollfd p) tr"
  using assms
  by (auto simp: EPollPoller_updateChannel_def Let_def split: if_splits dest!: EPollPoller_update_ctl)

lemma removeChannel_ctl:
  assumes "EPollPoller_removeChannel K ch p w = Inr (p', w')"
  shows "\<exists>tr. ktrace w' = ktrace w @ tr \<and> ctl_trace (pl_epollfd p) tr"
  using assms
  by (auto simp: EPollPoller_removeChannel_def ctl_trace_def Let_def split: if_splits dest!: EPollPoller_update_ctl)

lemma Channel_update_ctl:
  assumes "Channel_update K ch w = Inr w'" "el_poller (loops w (ch_loop (chans w ch))) = Some p"
  shows "\<exists>tr. ktrace w' = ktrace w @ tr \<and> ctl_trace (pl_epollfd p) tr"
  using assms by (auto simp: Channel_update_def EventLoop_updateChannel_def dest!: updateChannel_ctl)

lemma Channel_remove_ctl:
  assumes "Channel_remove K ch w = Inr w'" "el_poller (loops w (ch_loop (chans w ch))) = Some p"
  shows "\<exists>tr. ktrace w' = ktrace w @ tr \<and> ctl_trace (pl_epollfd p) tr"
  using assms by (auto simp: Channel_remove_def EventLoop_removeChannel_def dest!: removeChannel_ctl)

text \<open>A change of one channel leaves the pollers of the other loops alone.\<close>

lemma poller_inv_elsewhere:
  assumes "poller_inv p w" "\<And>c. c \<noteq> ch \<Longrightarrow> chans w' c = chans w c" "ch_loop (chans w' ch) = ch_loop (chans w ch)"
    and "ch_loop (chans w ch) \<noteq> pl_owner p" "interest (pl_epollfd p) (ktrace w') = interest (pl_epollfd p) (ktrace w)"
  shows "poller_inv p w'"
proof -
  have other: "c \<noteq> ch" if "pl_channels p f = Some c" for f c
    using poller_inv_slot(2) [OF assms(1) that] assms(4) by auto
  have "expected_interest p w' f = expected_interest p w f" for f
    using other assms(2) by (auto simp: expected_interest_def split: option.split)
  then have "interest (pl_epollfd p) (ktrace w') = expected_interest p w'"
    using assms(1,5) by (auto simp: poller_inv_def)
  moreover have "ch_fd (chans w' c) = f \<and> ch_loop (chans w' c) = pl_owner p
      \<and> (ch_index (chans w' c) = kAdded \<or> ch_index (chans w' c) = kDeleted)" if "pl_channels p f = Some c" for f c
    using poller_inv_slot [OF assms(1) that] assms(2) [OF other [OF that]] by simp
  moreover have "pl_channels p (ch_fd (chans w' c)) = Some c"
    if "ch_loop (chans w' c) = pl_owner p" "ch_index (chans w' c) \<noteq> kNew" for c
    using that poller_inv_back [OF assms(1), of c] assms(2) [of c] assms(3,4) by (cases "c = ch") auto
  moreover have "0 < length (pl_events p)" using assms(1) by (simp add: poller_inv_def)
  ultimately show ?thesis unfolding poller_inv_def by blast
qed

text \<open>An existing channel is one that its loop's poller accepts.\<close>

lemma present_serves:
  assumes "sound w" "present w ch"
  shows "\<exists>p. serves (ch_loop (chans w ch)) ch p w"
proof -
  have fds: "fds_ok w" and rg: "regs w" using assms(1) by (auto simp: sound_def)
  obtain p where p: "el_poller (loops w (ch_loop (chans w ch))) = Some p" using rg assms(2) by (auto simp: regs_def)
  then have inv: "pl_owner p = ch_loop (chans w ch)" "poller_inv p w" using rg by (auto simp: regs_def)
  have "pl_channels p (ch_fd (chans w ch)) = None \<or> pl_channels p (ch_fd (chans w ch)) = Some ch"
  proof (cases "pl_channels p (ch_fd (chans w ch))")
    case (Some c)
    note slot = poller_inv_slot [OF inv(2) Some]
    then have "present w c" using fds index_distinct unfolding fds_ok_def by metis
    then have "c = ch" using fds assms(2) slot(1) unfolding fds_ok_def by blast
    with Some show ?thesis by simp
  qed simp
  moreover have "ch_fd (chans w ch) \<in> open_fds (ktrace w)" using fds assms(2) by (simp add: fds_ok_def)
  ultimately show ?thesis using p inv by (auto simp: serves_def attachable_def)
qed


lemma channel_op_world:
  assumes "channel_op f ch w w'"
  shows "conns w' = conns w" "live w' = live w" "server w' = server w" "next_conn w' = next_conn w" "strings w' = strings w"
  using tworld_more(1-3) [OF channel_opD(5) [OF assms]] sworld_more(2,3) [OF tworld_more_channel_op [OF assms]] by simp_all

lemma registration_sound:
  assumes sound: "sound w" and pr: "present w ch" and op: "channel_op f ch w w'"
    and same: "\<And>i. same_chan (chans w ch) (set_index i (f (chans w ch)))"
    and sv: "serves (ch_loop (chans w ch)) ch p w" "serves (ch_loop (chans w ch)) ch p' w'" "pl_epollfd p' = pl_epollfd p"
    and tr: "\<exists>tr. ktrace w' = ktrace w @ tr \<and> ctl_trace (pl_epollfd p) tr"
    and st: "\<And>c. ch = ConnChan c \<Longrightarrow> tc_state (conns w c) \<noteq> kConnecting"
  shows "sound w'"
proof -
  let ?l = "ch_loop (chans w ch)"
  note world = channel_op_world [OF op]
  have fds: "fds_ok w" and rg: "regs w" and cs: "conns_ok w" and tb: "table_ok w" and q: "queues_ok w"
    using sound by (auto simp: sound_def)
  have pw: "el_poller (loops w ?l) = Some p" "el_poller (loops w' ?l) = Some p'" using sv by (auto simp: serves_def)
  obtain r where "loops w' = (loops w)(?l := (loops w ?l)\<lparr>el_poller := r\<rparr>)" using op by (auto simp: channel_op_def)
  then have lo: "loops w' = (loops w)(?l := (loops w ?l)\<lparr>el_poller := Some p'\<rparr>)" using pw(2) by auto
  have other: "chans w' c = chans w c" if "c \<noteq> ch" for c using channel_opD(6) [OF op] that by blast
  have ident: "same_chan (chans w c) (chans w' c)" for c
    using channel_opD(7) [OF op] same other [of c] by (cases "c = ch") auto
  note idD = same_chanD [OF ident]
  have pre: "present w' c = present w c" for c
    by (rule present_cong) (auto simp: world lo pw)
  have opn: "open_fds (ktrace w') = open_fds (ktrace w)" using channel_opD(1) [OF op] .
  have pol: "el_poller (loops w' k) = (if k = ?l then Some p' else el_poller (loops w k))"
    "el_wakeupFd (loops w' k) = el_wakeupFd (loops w k)" for k by (simp_all add: lo)
  have ep: "(\<exists>q. el_poller (loops w' k) = Some q \<and> pl_epollfd q = e) \<longleftrightarrow> (\<exists>q. el_poller (loops w k) = Some q \<and> pl_epollfd q = e)" for k e
    using sv(3) pw by (auto simp: pol)
  have "fds_ok w'"
    unfolding fds_ok_def pre
  proof (intro conjI allI impI)
    fix c assume "present w c"
    then show "ch_fd (chans w' c) \<in> open_fds (ktrace w')" "2 < ch_fd (chans w' c)"
      using fds by (simp_all add: fds_ok_def idD(1) opn)
  next
    fix c d assume "present w c" "present w d" "ch_fd (chans w' c) = ch_fd (chans w' d)"
    then show "c = d" using fds by (simp add: fds_ok_def idD(1))
  next
    fix c assume "ch_index (chans w' c) \<noteq> kNew"
    then show "present w c" using fds pr other [of c] by (cases "c = ch") (auto simp: fds_ok_def)
  next
    fix k show "if el_poller (loops w' k) = None then el_wakeupFd (loops w' k) \<le> 2
        else ch_fd (chans w' (WakeupChan k)) = el_wakeupFd (loops w' k)"
    proof -
      have "(el_poller (loops w' k) = None) = (el_poller (loops w k) = None)" using pw(1) by (simp add: pol(1))
      moreover have "if el_poller (loops w k) = None then el_wakeupFd (loops w k) \<le> 2
          else ch_fd (chans w (WakeupChan k)) = el_wakeupFd (loops w k)" using fds by (simp add: fds_ok_def)
      ultimately show ?thesis unfolding pol(2) idD(1) by simp
    qed
  next
    fix k r assume "el_poller (loops w' k) = Some r"
    then obtain r0 where r0: "el_poller (loops w k) = Some r0" "pl_epollfd r0 = pl_epollfd r" using ep by blast
    have "pl_epollfd r0 \<in> open_fds (ktrace w)" "\<forall>c. present w c \<longrightarrow> ch_fd (chans w c) \<noteq> pl_epollfd r0"
      using fds r0(1) unfolding fds_ok_def by blast+
    then show "pl_epollfd r \<in> open_fds (ktrace w')" "\<And>c. present w c \<Longrightarrow> ch_fd (chans w' c) \<noteq> pl_epollfd r"
      using r0(2) by (simp_all add: idD(1) opn)
    show "k' = k" if k': "el_poller (loops w' k') = Some r'" "pl_epollfd r' = pl_epollfd r" for k' r'
    proof -
      obtain r1 where "el_poller (loops w k') = Some r1" "pl_epollfd r1 = pl_epollfd r'" using ep k'(1) by blast
      then show ?thesis using fds r0 k'(2) unfolding fds_ok_def by metis
    qed
  qed
  moreover have "regs w'"
    unfolding regs_def pre
  proof (intro conjI allI impI)
    fix k r assume r: "el_poller (loops w' k) = Some r"
    show "pl_owner r = k" "poller_inv r w'"
    proof -
      have "pl_owner r = k \<and> poller_inv r w'"
      proof (cases "k = ?l")
        case True
        then show ?thesis using r sv(2) by (simp add: pol serves_def)
      next
        case False
        then have rw: "el_poller (loops w k) = Some r" using r by (simp add: pol)
        then have inv: "pl_owner r = k" "poller_inv r w" using rg by (auto simp: regs_def)
        have "pl_epollfd r \<noteq> pl_epollfd p" using fds rw pw(1) False unfolding fds_ok_def by metis
        then have "interest (pl_epollfd r) (ktrace w') = interest (pl_epollfd r) (ktrace w)"
          using tr ctl_trace_interest by fastforce
        then show ?thesis using poller_inv_elsewhere [OF inv(2) other] idD(2) inv(1) False by auto
      qed
      then show "pl_owner r = k" "poller_inv r w'" by auto
    qed
  next
    fix c assume "present w c"
    then show "el_poller (loops w' (ch_loop (chans w' c))) \<noteq> None" using rg by (simp add: regs_def idD(2) pol)
  next
    show "\<forall>k \<in> set (server_loops w'). el_poller (loops w' k) \<noteq> None"
      using rg by (simp add: regs_def server_loops_def world pol)
  qed
  moreover have "conns_ok w'"
    unfolding conns_ok_def pre world(2)
  proof (intro conjI ballI allI impI)
    fix c assume "c \<in> live w"
    then have "conn_ok c w" using cs by (simp add: conns_ok_def)
    moreover have "tc_state (conns w c) = kConnecting \<Longrightarrow> chans w' (ConnChan c) = chans w (ConnChan c)"
      using other [of "ConnChan c"] st [of c] by metis
    ultimately show "conn_ok c w'"
      unfolding conn_ok_def world server_loops_def idD(1,2,4) by auto
  next
    fix c assume "present w c"
    then have "bound_ok c (chans w c)" using cs by (simp add: conns_ok_def)
    then show "bound_ok c (chans w' c)" using idD(2-5) [of c] by (cases c) (auto simp: same_dispatch_def)
  qed
  moreover have "table_ok w'" using tb by (simp add: table_ok_def world)
  moreover have "queues_ok w'" by (rule queues_ok_same [OF q]) (simp_all add: world lo)
  ultimately show ?thesis by (simp add: sound_def)
qed

lemma pollers_kept:
  assumes "channel_op f ch w w'" "el_poller (loops w (ch_loop (chans w ch))) = Some p"
    and "el_poller (loops w' (ch_loop (chans w ch))) = Some p'"
  shows "(el_poller (loops w' l) = None) = (el_poller (loops w l) = None)"
proof -
  obtain q where "loops w' = (loops w)(ch_loop (chans w ch) := (loops w (ch_loop (chans w ch)))\<lparr>el_poller := q\<rparr>)"
    using assms(1) by (auto simp: channel_op_def)
  then show ?thesis using assms(2,3) by (cases "l = ch_loop (chans w ch)") auto
qed

lemma update_sound:
  assumes sound: "sound w" and pr: "present w ch" and law: "epoll_ctl_law K"
    and up: "Channel_update K ch (map_chan ch f w) = Inr w'" and f: "f (chans w ch) = set_events e (chans w ch)"
    and st: "\<And>c. ch = ConnChan c \<Longrightarrow> tc_state (conns w c) \<noteq> kConnecting"
  shows "sound w' \<and> ch_index (chans w' ch) \<noteq> kNew \<and> channel_op f ch w w'
    \<and> (\<forall>l. (el_poller (loops w' l) = None) = (el_poller (loops w l) = None))"
proof -
  obtain p where p: "serves (ch_loop (chans w ch)) ch p w" using present_serves [OF sound pr] by blast
  obtain p' w2 where t: "Channel_update K ch (map_chan ch f w) = Inr w2" "serves (ch_loop (chans w ch)) ch p' w2"
    "pl_epollfd p' = pl_epollfd p"
    "chans w2 ch = set_index (if ch_index (chans w ch) = kAdded \<and> e = kNoneEvent then kDeleted else kAdded) (f (chans w ch))"
    using Channel_update_total [OF p law, of f e] f by blast
  have w2: "w2 = w'" using t(1) up by simp
  have op: "channel_op f ch w w'" by (rule Channel_update_op [OF up]) (simp add: f)
  have el: "el_poller (loops (map_chan ch f w) (ch_loop (chans (map_chan ch f w) ch))) = Some p"
    using p by (simp add: serves_def f)
  have "sound w'"
    by (rule registration_sound [OF sound pr op _ p t(2) [unfolded w2] t(3) _ st])
      (use Channel_update_ctl [OF up el] f in \<open>auto simp: same_chan_def chan_ident_def set_index_def set_events_def\<close>)
  moreover have "ch_index (chans w' ch) \<noteq> kNew" using t(4) w2 by auto
  moreover have "(el_poller (loops w' l) = None) = (el_poller (loops w l) = None)" for l
    by (rule pollers_kept [OF op]) (use p t(2) w2 in \<open>auto simp: serves_def\<close>)
  ultimately show ?thesis using op by blast
qed

lemma remove_sound:
  assumes sound: "sound w" and pr: "present w ch" and law: "epoll_ctl_law K"
    and up: "Channel_remove K ch w = Inr w'"
    and st: "\<And>c. ch = ConnChan c \<Longrightarrow> tc_state (conns w c) \<noteq> kConnecting"
  shows "sound w' \<and> ch_index (chans w' ch) = kNew \<and> channel_op id ch w w'
    \<and> (\<forall>l. (el_poller (loops w' l) = None) = (el_poller (loops w l) = None))"
proof -
  obtain p where p: "serves (ch_loop (chans w ch)) ch p w" using present_serves [OF sound pr] by blast
  obtain p' w2 where t: "Channel_remove K ch w = Inr w2" "serves (ch_loop (chans w ch)) ch p' w2"
    "pl_epollfd p' = pl_epollfd p" "chans w2 ch = set_index kNew (chans w ch)"
    using Channel_remove_total [OF p law] by blast
  have w2: "w2 = w'" using t(1) up by simp
  have op: "channel_op id ch w w'" by (rule Channel_remove_op [OF up])
  have el: "el_poller (loops w (ch_loop (chans w ch))) = Some p" using p by (simp add: serves_def)
  have "sound w'"
    by (rule registration_sound [OF sound pr op _ p t(2) [unfolded w2] t(3) Channel_remove_ctl [OF up el] st]) auto
  moreover have "(el_poller (loops w' l) = None) = (el_poller (loops w l) = None)" for l
    by (rule pollers_kept [OF op el]) (use t(2) w2 in \<open>auto simp: serves_def\<close>)
  ultimately show ?thesis using op t(4) w2 by auto
qed


section \<open>Every step keeps the invariant\<close>

lemma soundD:
  assumes "sound w"
  shows "c \<in> live w \<Longrightarrow> conn_ok c w" "present w ch \<Longrightarrow> bound_ok ch (chans w ch)" "table_ok w" "queues_ok w" "conns_ok w"
  using assms by (auto simp: sound_def conns_ok_def)

text \<open>Nothing but the history, the queues and the flags of the loops, and the strings.\<close>

lemma queues_ok_loops:
  assumes "queues_ok w" "live w' = live w" "server w' = server w" "next_conn w' = next_conn w" "conns w' = conns w"
    and "\<And>l. set (el_pendingFunctors (loops w' l) @ el_functors (loops w' l)) \<subseteq> set (el_pendingFunctors (loops w l) @ el_functors (loops w l)) \<union> {f. functor_ok l f w}"
  shows "queues_ok w'"
proof -
  have "functor_ok l f w' = functor_ok l f w" for l f
    unfolding functor_ok_def by (cases f) (simp_all add: assms)
  then show ?thesis using assms(1,6) unfolding queues_ok_def by blast
qed

lemma sound_elsewhere:
  assumes sd: "sound w" and same: "chans w' = chans w" "conns w' = conns w" "live w' = live w" "server w' = server w" "next_conn w' = next_conn w"
    and lo: "\<And>l. el_poller (loops w' l) = el_poller (loops w l)" "\<And>l. el_wakeupFd (loops w' l) = el_wakeupFd (loops w l)"
    and tr: "\<And>ep. interest ep (ktrace w') = interest ep (ktrace w)" "open_fds (ktrace w) \<subseteq> open_fds (ktrace w')"
    and q: "\<And>l. set (el_pendingFunctors (loops w' l) @ el_functors (loops w' l)) \<subseteq> set (el_pendingFunctors (loops w l) @ el_functors (loops w l)) \<union> {f. functor_ok l f w}"
  shows "sound w'"
proof (rule still_sound [OF sd])
  show "conn_ok c w'" if "c \<in> live w" for c
    using soundD(1) [OF sd that] by (simp add: conn_ok_def same server_loops_def)
  show "table_ok w'" using soundD(3) [OF sd] by (simp add: table_ok_def same)
  show "queues_ok w'" by (rule queues_ok_loops [OF soundD(4) [OF sd] same(3-5,2) q])
qed (use soundD(2) [OF sd] sound_open [OF sd tr(2)] in \<open>simp_all add: same lo tr server_loops_def\<close>)

lemma sound_log: "sound w \<Longrightarrow> sound (LOG K lv fmt args w)"
  by (erule sound_elsewhere) simp_all

lemma sound_event: "sound w \<Longrightarrow> neutral e \<Longrightarrow> sound (record_event e w)"
  by (erule sound_elsewhere) (simp_all add: neutral_open neutral_interest)

lemma sound_strings: "sound w \<Longrightarrow> sound (w\<lparr>strings := m, next_string := n\<rparr>)"
  by (erule sound_elsewhere) simp_all

lemma sound_accept: "sound w \<Longrightarrow> sound (record_event (EvAccept s (Ok (f, a))) w)"
  by (erule sound_elsewhere) auto

lemma quit_world:
  "conns (EventLoop_quit K l w) = conns w" "live (EventLoop_quit K l w) = live w" "server (EventLoop_quit K l w) = server w"
  "next_conn (EventLoop_quit K l w) = next_conn w" "chans (EventLoop_quit K l w) = chans w"
  "el_poller (loops (EventLoop_quit K l w) k) = el_poller (loops w k)" "el_wakeupFd (loops (EventLoop_quit K l w) k) = el_wakeupFd (loops w k)"
  "el_pendingFunctors (loops (EventLoop_quit K l w) k) = el_pendingFunctors (loops w k)"
  "el_functors (loops (EventLoop_quit K l w) k) = el_functors (loops w k)"
  using tworld_more [OF quit_spec(5) [of K l w]] sworld_more(2,3) [of "EventLoop_quit K l w" w] by (simp_all add: quit_spec(1,2))

lemma quit_trace: "\<exists>tr. ktrace (EventLoop_quit K l w) = ktrace w @ tr \<and> (\<forall>e \<in> set tr. neutral e)"
  using quit_spec(6) [where K = K and l = l and w = w] by (auto split: if_splits)

lemma queue_trace: "\<exists>tr. ktrace (queueInLoop K l f w) = ktrace w @ tr \<and> (\<forall>e \<in> set tr. neutral e)"
  using queueInLoop_spec(6) [where K = K and l = l and w = w and cb = f] by (auto split: if_splits)

lemma neutral_trace:
  assumes "\<exists>tr. ktrace w' = ktrace w @ tr \<and> (\<forall>e \<in> set tr. neutral e)"
  shows "interest ep (ktrace w') = interest ep (ktrace w)" "open_fds (ktrace w') = open_fds (ktrace w)"
proof -
  obtain tr where tr: "ktrace w' = ktrace w @ tr" "\<forall>e \<in> set tr. neutral e" using assms by blast
  have "fold (interest_after ep) tr m = m \<and> fold open_after tr s = s" for m s
    using tr(2) by (induction tr arbitrary: m s) (simp_all add: neutral_open neutral_interest)
  then show "interest ep (ktrace w') = interest ep (ktrace w)" "open_fds (ktrace w') = open_fds (ktrace w)"
    by (simp_all add: tr(1) interest_append open_fds_append)
qed

lemma sound_quit: "sound w \<Longrightarrow> sound (EventLoop_quit K l w)"
  by (erule sound_elsewhere) (simp_all add: quit_world neutral_trace [OF quit_trace])

lemma sound_queue:
  assumes "sound w" "functor_ok l f w"
  shows "sound (queueInLoop K l f w)"
  by (rule sound_elsewhere [OF assms(1)])
    (use assms(2) in \<open>auto simp: queueInLoop_spec(1) neutral_trace [OF queue_trace] split: if_splits\<close>)


lemma sound_conn:
  assumes sd: "sound w" and c: "c \<in> live w" and role: "keeps_role (conns w c) (f (conns w c))"
    and st: "tc_state (f (conns w c)) = kConnecting \<longleftrightarrow> tc_state (conns w c) = kConnecting"
  shows "sound (map_conn c f w)"
proof -
  let ?v = "map_conn c f w"
  have keep: "keeps_role (conns w d) (conns ?v d) \<and> (tc_state (conns ?v d) = kConnecting \<longleftrightarrow> tc_state (conns w d) = kConnecting)" for d
    using role st by (cases "d = c") simp_all
  have tb: "table_ok ?v" using soundD(3) [OF sd] keep by (simp add: table_ok_def keeps_role_def)
  have q: "queues_ok ?v"
    by (rule queues_ok_same [OF soundD(4) [OF sd]]) (use keep in \<open>simp_all add: keeps_role_def\<close>)
  have co: "conn_ok d ?v" if "d \<in> live w" for d
    using soundD(1) [OF sd that] keep [of d] by (simp add: conn_ok_def server_loops_def keeps_role_def)
  show ?thesis
    by (rule still_sound [OF sd _ _ co tb q]) (use soundD(2) [OF sd] sound_open [OF sd order_refl] in \<open>auto simp: server_loops_def\<close>)
qed

lemma Channel_tie_fields [simp]:
  "ch_fd (Channel_tie c x) = ch_fd x" "ch_loop (Channel_tie c x) = ch_loop x" "ch_index (Channel_tie c x) = ch_index x"
  "ch_events (Channel_tie c x) = ch_events x" "ch_tied (Channel_tie c x)" "ch_tie (Channel_tie c x) = Some c"
  "same_dispatch x (Channel_tie c x)"
  by (simp_all add: Channel_tie_def same_dispatch_def)

lemma sound_establish:
  assumes sd: "sound w" and c: "c \<in> live w"
  shows "sound (map_chan (ConnChan c) (Channel_tie c) (map_conn c (setState kConnected) w))"
proof -
  let ?v = "map_chan (ConnChan c) (Channel_tie c) (map_conn c (setState kConnected) w)"
  have keep: "keeps_role (conns w d) (conns ?v d)" for d by (cases "d = c") (simp_all add: keeps_role_def setState_def)
  have ch: "chans ?v (ConnChan c) = Channel_tie c (chans w (ConnChan c))" "k \<noteq> ConnChan c \<Longrightarrow> chans ?v k = chans w k" for k by simp_all
  have al: "alike (chans w k) (chans ?v k)" for k
    using ch by (cases "k = ConnChan c") (simp_all add: alike_def)
  have bd: "bound_ok k (chans ?v k)" if "present w k" for k
  proof (cases "k = ConnChan c")
    case True
    then show ?thesis using soundD(2) [OF sd that] by (simp add: Channel_tie_def)
  next
    case False
    then show ?thesis using soundD(2) [OF sd that] ch by simp
  qed
  have co: "conn_ok d ?v" if "d \<in> live w" for d
    using soundD(1) [OF sd that] by (cases "d = c") (simp_all add: conn_ok_def server_loops_def setState_def)
  have tb: "table_ok ?v" using soundD(3) [OF sd] keep by (simp add: table_ok_def keeps_role_def)
  have q: "queues_ok ?v"
    by (rule queues_ok_same [OF soundD(4) [OF sd]]) (use keep in \<open>simp_all add: keeps_role_def\<close>)
  show ?thesis
    by (rule still_sound [OF sd al bd co tb q]) (use sound_open [OF sd order_refl] in \<open>auto simp: server_loops_def\<close>)
qed

lemma sound_server:
  assumes sd: "sound w" and loops: "sv_loop (f (server w)) = sv_loop (server w)"
    "sv_threadPool (f (server w)) = sv_threadPool (server w)"
    and ok: "server_ok (f (server w))" "set (sv_connections (f (server w))) \<subseteq> set (sv_connections (server w))"
    and nm: "sv_name (f (server w)) = sv_name (server w)" "sv_ipPort (f (server w)) = sv_ipPort (server w)"
      "sv_nextConnId (f (server w)) = sv_nextConnId (server w)"
  shows "sound (map_server f w)"
proof -
  let ?v = "map_server f w"
  have co: "conn_ok d ?v" if "d \<in> live w" for d
    using soundD(1) [OF sd that] by (simp add: conn_ok_def server_loops_def loops)
  have tb: "table_ok ?v" using soundD(3) [OF sd] ok by (auto simp: table_ok_def nm name_of_def loops)
  have q: "queues_ok ?v" by (rule queues_ok_same [OF soundD(4) [OF sd]]) (simp_all add: loops)
  show ?thesis
    by (rule still_sound [OF sd _ _ co tb q]) (use soundD(2) [OF sd] sound_open [OF sd order_refl] in \<open>simp_all add: server_loops_def loops\<close>)
qed

lemma spare_fd_unwatched:
  assumes "sound w" "spare_fd f w" "el_poller (loops w l) = Some p"
  shows "interest (pl_epollfd p) (ktrace w) f = None"
proof -
  have inv: "poller_inv p w" using assms(1,3) by (auto simp: sound_def regs_def)
  have "pl_channels p f = None"
  proof (rule ccontr)
    assume "pl_channels p f \<noteq> None"
    then obtain c where "pl_channels p f = Some c" by blast
    note slot = poller_inv_slot [OF inv this]
    then have "present w c" using assms(1) index_distinct unfolding sound_def fds_ok_def by metis
    then show False using assms(2) slot(1) by (auto simp: spare_fd_def)
  qed
  then show ?thesis using inv by (simp add: poller_inv_def expected_interest_def)
qed

lemma sound_refuse:
  assumes sd: "sound w" and f: "spare_fd f w"
  shows "sound (sys_close f w)"
proof -
  let ?v = "sys_close f w"
  have q: "queues_ok ?v" by (rule queues_ok_same [OF soundD(4) [OF sd]]) (simp_all add: sys_close_def)
  have co: "conn_ok d ?v" if "d \<in> live w" for d
    using soundD(1) [OF sd that] by (simp add: conn_ok_def server_loops_def sys_close_def)
  have tb: "table_ok ?v" using soundD(3) [OF sd] by (simp add: table_ok_def sys_close_def)
  have "interest (pl_epollfd p) (ktrace ?v) = interest (pl_epollfd p) (ktrace w)" if "el_poller (loops w l) = Some p" for l p
    using spare_fd_unwatched [OF sd f that] by (auto simp: sys_close_def record_event_def)
  moreover have "ch_fd (chans w c) \<in> open_fds (ktrace ?v)" if "present w c" for c
    using sound_open(1) [OF sd order_refl that] f that by (auto simp: sys_close_def spare_fd_def)
  moreover have "pl_epollfd p \<in> open_fds (ktrace ?v)" if "el_poller (loops w l) = Some p" for l p
    using sound_open(2) [OF sd order_refl that] f that by (auto simp: sys_close_def spare_fd_def)
  ultimately show ?thesis
    by (intro still_sound [OF sd _ _ co tb q]) (use soundD(2) [OF sd] in \<open>simp_all add: sys_close_def server_loops_def\<close>)
qed


lemma getNextLoop_loops: "getNextLoop p = Inr (l, q) \<Longrightarrow> tp_loops q = tp_loops p \<and> tp_baseLoop q = tp_baseLoop p"
  by (auto simp: getNextLoop_def Let_def split: if_splits)

lemma sound_new:
  assumes sd: "sound w" and f: "spare_fd f w" and l: "l \<in> set (server_loops w)" and reg: "registered_conn l f w x"
    and ok: "server_ok (server x)"
  shows "sound x"
proof -
  let ?c = "next_conn w"
  let ?ch = "(Channel_ctor l f)
               \<lparr>ch_readCallback := Some (Bind_TcpConnection_handleRead ?c),
                ch_writeCallback := Some (Bind_TcpConnection_handleWrite ?c),
                ch_closeCallback := Some (Bind_TcpConnection_handleClose ?c),
                ch_errorCallback := Some (Bind_TcpConnection_handleError ?c)\<rparr>"
  let ?k = "name_of (server w) (sv_nextConnId (server w))"
  obtain q la pa where r: "getNextLoop (sv_threadPool (server w)) = Inr (l, q)"
    "server x = (server w)\<lparr>sv_threadPool := q, sv_nextConnId := sv_nextConnId (server w) + 1,
          sv_connections := (?k, ?c) # sv_connections (server w)\<rparr>"
    "next_conn x = ?c + 1" "live x = insert ?c (live w)" "loops x = loops w"
    "conns x = (conns w)(?c := \<lparr>tc_loop = l, tc_name = ?k, tc_state = kConnecting, tc_reading = True,
               tc_socket = f, tc_localAddr = la, tc_peerAddr = pa,
               tc_connectionCallback = sv_connectionCallback (server w), tc_messageCallback = sv_messageCallback (server w),
               tc_writeCompeleteCallback = sv_writeCompeleteCallback (server w),
               tc_closeCallback = Some Bind_TcpServer_removeConnection, tc_highWaterMarkCallback = None,
               tc_highWaterMark = 64 * 1024 * 1024,
               tc_inputBuffer = Buffer_default, tc_outputBuffer = Buffer_default\<rparr>)"
    "chans x = (chans w)(ConnChan ?c := ?ch)"
    and tr: "\<exists>r. ktrace x = ktrace w @ [EvGetsockname f r, EvSetsockopt f SO_KEEPALIVE 1]"
    using reg by (auto simp: registered_conn_def Let_def)
  note nt = neutral_trace [of x w]
  have tr': "interest ep (ktrace x) = interest ep (ktrace w)" "open_fds (ktrace x) = open_fds (ktrace w)" for ep
    using tr by (auto intro!: nt)
  have fds: "fds_ok w" and rg: "regs w" and cs: "conns_ok w" and tb: "table_ok w" and qs: "queues_ok w"
    using sd by (auto simp: sound_def)
  have c: "?c \<notin> live w" using cs by (auto simp: conns_ok_def conn_ok_def)
  have pl: "tp_loops q = tp_loops (sv_threadPool (server w))" using getNextLoop_loops [OF r(1)] by simp
  have sl: "server_loops x = server_loops w" by (simp add: server_loops_def r(2) pl)
  have pre: "present x ch \<longleftrightarrow> ch = ConnChan ?c \<or> present w ch" for ch by (cases ch) (auto simp: r(4,5))
  have old: "chans x ch = chans w ch" if "present w ch" for ch using that c by (cases ch) (auto simp: r(7))
  have new: "ch_index (chans w (ConnChan ?c)) = kNew" using fds c unfolding fds_ok_def by (metis present.simps(3))
  have chx: "chans x (ConnChan ?c) = ?ch" by (simp add: r(7))
  have fd: "ch_fd ?ch = f" "ch_loop ?ch = l" "ch_index ?ch = kNew" by (simp_all add: Channel_ctor_def index_defs)
  have sp: "2 < f" "f \<in> open_fds (ktrace w)" "\<And>ch. present w ch \<Longrightarrow> ch_fd (chans w ch) \<noteq> f"
    "\<And>k p. el_poller (loops w k) = Some p \<Longrightarrow> pl_epollfd p \<noteq> f" using f by (auto simp: spare_fd_def)
  have "fds_ok x"
    unfolding fds_ok_def
  proof (intro conjI allI impI)
    fix ch assume "present x ch"
    then show "ch_fd (chans x ch) \<in> open_fds (ktrace x)" "2 < ch_fd (chans x ch)"
      using fds sp(1,2) fd chx old unfolding pre tr'(2) fds_ok_def by auto
  next
    fix a b assume "present x a" "present x b" "ch_fd (chans x a) = ch_fd (chans x b)"
    then show "a = b"
      using fds sp(3) fd(1) chx old unfolding pre fds_ok_def by (cases "a = ConnChan ?c"; cases "b = ConnChan ?c") auto
  next
    fix ch assume "ch_index (chans x ch) \<noteq> kNew"
    then show "present x ch" using fds fd(3) unfolding pre fds_ok_def by (cases "ch = ConnChan ?c") (auto simp: r(7))
  next
    fix k show "if el_poller (loops x k) = None then el_wakeupFd (loops x k) \<le> 2
          else ch_fd (chans x (WakeupChan k)) = el_wakeupFd (loops x k)"
      using fds by (simp add: fds_ok_def r(5,7))
  next
    fix k p assume p: "el_poller (loops x k) = Some p"
    then have pw: "el_poller (loops w k) = Some p" by (simp add: r(5))
    then show "pl_epollfd p \<in> open_fds (ktrace x)" using fds unfolding tr'(2) fds_ok_def by blast
    show "ch_fd (chans x ch) \<noteq> pl_epollfd p" if "present x ch" for ch
    proof (cases "ch = ConnChan ?c")
      case True
      then show ?thesis using sp(4) [OF pw] fd(1) chx by auto
    next
      case False
      then have "present w ch" using that pre by blast
      moreover have "ch_fd (chans w ch) \<noteq> pl_epollfd p" using fds pw calculation unfolding fds_ok_def by blast
      ultimately show ?thesis using old by simp
    qed
    show "k' = k" if "el_poller (loops x k') = Some p'" "pl_epollfd p' = pl_epollfd p" for k' p'
      using fds pw that unfolding fds_ok_def r(5) by blast
  qed
  moreover have "regs x"
    unfolding regs_def sl
  proof (intro conjI allI impI)
    fix k p assume "el_poller (loops x k) = Some p"
    then have "pl_owner p = k" "poller_inv p w" using rg by (auto simp: regs_def r(5))
    then show "pl_owner p = k" "poller_inv p x" using poller_inv_construct [OF _ new fd(3) r(7) tr'(1)] by auto
  next
    fix ch assume "present x ch"
    then show "el_poller (loops x (ch_loop (chans x ch))) \<noteq> None"
      using rg l fd(2) chx old unfolding pre regs_def r(5) by auto
  next
    show "\<forall>k \<in> set (server_loops w). el_poller (loops x k) \<noteq> None" using rg by (simp add: regs_def r(5))
  qed
  moreover have "conns_ok x"
    unfolding conns_ok_def
  proof (intro conjI ballI allI impI)
    fix d assume "d \<in> live x"
    then show "conn_ok d x"
      using cs fd l c unfolding conns_ok_def conn_ok_def sl r(3,4,6,7) by (cases "d = ?c") auto
  next
    fix ch assume "present x ch"
    then show "bound_ok ch (chans x ch)"
      using cs old chx unfolding pre conns_ok_def by (cases "ch = ConnChan ?c") (auto simp: Channel_ctor_def)
  qed
  moreover have "table_ok x"
  proof -
    have "snd y \<in> live x \<and> tc_name (conns x (snd y)) = fst y" if "y \<in> set (sv_connections (server x))" for y
      using that tb c unfolding table_ok_def r(2,4,6) by auto
    moreover have nm: "name_of (server x) i = name_of (server w) i" for i by (simp add: name_of_def r(2))
    moreover have old: "\<exists>i. 1 \<le> i \<and> i < sv_nextConnId (server w) \<and> tc_name (conns w d) = name_of (server w) i" if "d \<in> live w" for d
      using tb that by (simp add: table_ok_def)
    moreover have n: "1 \<le> sv_nextConnId (server w)" using tb by (simp add: table_ok_def server_ok_def)
    have nx: "sv_nextConnId (server x) = sv_nextConnId (server w) + 1" by (simp add: r(2))
    have new: "tc_name (conns x ?c) = ?k" by (simp add: r(6))
    have same: "tc_name (conns x a) = tc_name (conns w a)" if "a \<noteq> ?c" for a using that by (simp add: r(6))
    have fresh: "tc_name (conns w d) \<noteq> ?k" if "d \<in> live w" for d
    proof -
      note o = old [OF that]
      obtain i where i: "1 \<le> i" "i < sv_nextConnId (server w)" "tc_name (conns w d) = name_of (server w) i"
        using o by blast
      have "0 \<le> i" "0 \<le> sv_nextConnId (server w)" "i \<noteq> sv_nextConnId (server w)" using i n by simp_all
      then show ?thesis unfolding i(3) by (simp only: name_of_inj not_False_eq_True)
    qed
    have "\<exists>i. 1 \<le> i \<and> i < sv_nextConnId (server x) \<and> tc_name (conns x d) = name_of (server x) i" if "d \<in> live x" for d
    proof (cases "d = ?c")
      case True
      then show ?thesis unfolding nm nx using n new by (intro exI [of _ "sv_nextConnId (server w)"]) simp
    next
      case False
      have "d \<in> live w" using that False by (simp add: r(4))
      from old [OF this] obtain i where "1 \<le> i" "i < sv_nextConnId (server w)" "tc_name (conns w d) = name_of (server w) i"
        by blast
      then show ?thesis unfolding nm nx using same [OF False] by (intro exI [of _ i]) simp
    qed
    moreover have "d = e" if "d \<in> live x" "e \<in> live x" "tc_name (conns x d) = tc_name (conns x e)" for d e
    proof -
      have inj: "a = b" if "a \<in> live w" "b \<in> live w" "tc_name (conns w a) = tc_name (conns w b)" for a b
        using tb that unfolding table_ok_def by blast
      have lv: "a \<in> live w" if "a \<in> live x" "a \<noteq> ?c" for a using that by (simp add: r(4))
      consider "d = ?c" "e = ?c" | "d = ?c" "e \<noteq> ?c" | "d \<noteq> ?c" "e = ?c" | "d \<noteq> ?c" "e \<noteq> ?c" by blast
      then show ?thesis
      proof cases
        case 2
        then show ?thesis using fresh [OF lv [OF that(2)]] that(3) new same by metis
      next
        case 3
        then show ?thesis using fresh [OF lv [OF that(1)]] that(3) new same by metis
      next
        case 4
        then show ?thesis using inj lv that same by metis
      qed simp
    qed
    moreover have "tp_baseLoop q = tp_baseLoop (sv_threadPool (server w))"
    proof -
      have "pool_inv (sv_threadPool (server w))" using tb by (simp add: table_ok_def server_ok_def)
      from getNextLoop_total [OF this] r(1) have "q = (sv_threadPool (server w))\<lparr>tp_next := tp_next q\<rparr>" by auto
      then have "tp_baseLoop q = tp_baseLoop ((sv_threadPool (server w))\<lparr>tp_next := tp_next q\<rparr>)" by simp
      then show ?thesis by simp
    qed
    then have "tp_baseLoop (sv_threadPool (server x)) = sv_loop (server x)" using tb by (simp add: table_ok_def r(2))
    ultimately show ?thesis using ok by (simp add: table_ok_def)
  qed
  moreover have "queues_ok x"
  proof -
    have "tc_loop (conns x d) = tc_loop (conns w d)" if "d \<in> live w" for d using that c by (auto simp: r(6))
    then have "functor_ok k g w \<Longrightarrow> functor_ok k g x" for k g
      using functor_ok_mono [of k g w x] by (auto simp: r(2,3,4))
    then show ?thesis using qs by (auto simp: queues_ok_def r(5))
  qed
  ultimately show ?thesis by (simp add: sound_def)
qed

lemma sound_new_queued:
  assumes "sound w" "spare_fd f w" "l \<in> set (server_loops w)" "registered_conn l f w x" "server_ok (server x)"
  shows "sound (queueInLoop K l (Bind_connectEstablished (next_conn w)) x)"
proof (rule sound_queue [OF sound_new [OF assms]])
  show "functor_ok l (Bind_connectEstablished (next_conn w)) x"
    using assms(4) by (auto simp: functor_ok_def registered_conn_def Let_def)
qed

text \<open>All of them.\<close>

lemmas switch_sound =
  update_sound [where f = read_on, OF _ _ _ _ changes_events(1), folded enableReading_def]
  update_sound [where f = write_on, OF _ _ _ _ changes_events(3), folded enablewriting_def]
  update_sound [where f = write_off, OF _ _ _ _ changes_events(4), folded disableWriting_def]
  update_sound [where f = all_off, OF _ _ _ _ changes_events(5), folded disableAll_def]

lemma code_step_sound:
  assumes "code_step K rm A w w'" "sound w" "epoll_ctl_law K"
  shows "sound w'"
  using assms(1)
proof cases
  case cs_log
  then show ?thesis using sound_log assms(2) by blast
next
  case (cs_event e)
  then show ?thesis using sound_event assms(2) by blast
next
  case (cs_conn c f)
  then show ?thesis using sound_conn [OF assms(2), of c f] by auto
next
  case (cs_establish c)
  then show ?thesis using sound_establish [OF assms(2)] by blast
next
  case (cs_writing c)
  have "present w (ConnChan c)" using cs_writing by simp
  from switch_sound(2) [OF assms(2) this assms(3)] cs_writing show ?thesis by auto
next
  case (cs_drained c)
  have pr: "present w (ConnChan c)" using cs_drained by simp
  have "tc_state (conns w c) \<noteq> kConnecting" using soundD(1) [OF assms(2), of c] cs_drained by (auto simp: conn_ok_def)
  with switch_sound(3) [OF assms(2) pr assms(3)] cs_drained show ?thesis by auto
next
  case (cs_reading c)
  have "present w (ConnChan c)" using cs_reading by simp
  from switch_sound(1) [OF assms(2) this assms(3)] cs_reading show ?thesis by auto
next
  case (cs_off c)
  have "present w (ConnChan c)" using cs_off by simp
  from switch_sound(4) [OF assms(2) this assms(3)] cs_off show ?thesis by auto
next
  case (cs_remove c)
  have "present w (ConnChan c)" using cs_remove by simp
  from remove_sound [OF assms(2) this assms(3)] cs_remove show ?thesis by auto
next
  case cs_listen
  have "present w AcceptChan" by simp
  from switch_sound(1) [OF assms(2) this assms(3)] cs_listen show ?thesis by auto
next
  case (cs_queue l f)
  then show ?thesis using sound_queue [OF assms(2)] may_queue_ok soundD(5) [OF assms(2)] by blast
next
  case (cs_quit l)
  then show ?thesis using sound_quit assms(2) by blast
next
  case cs_acceptor
  have "server_ok (s\<lparr>sv_acceptor := a\<rparr>) = server_ok s" for s a by (simp add: server_ok_def name_of_def)
  then show ?thesis
    using cs_acceptor sound_server [OF assms(2)] soundD(3) [OF assms(2)] by (auto simp: table_ok_def)
next
  case (cs_erase c)
  let ?v = "map_server (\<lambda>s. s\<lparr>sv_connections := erase (tc_name (conns w c)) (sv_connections s)\<rparr>) w"
  have "sound ?v"
    using sound_server [OF assms(2)] server_ok_erase soundD(3) [OF assms(2)] by (auto simp: table_ok_def erase_set)
  then show ?thesis
    unfolding cs_erase(1) by (rule sound_queue) (use cs_erase in \<open>auto simp: functor_ok_def\<close>)
next
  case (cs_strings m n)
  then show ?thesis using sound_strings assms(2) by blast
next
  case (cs_accept f s a)
  then show ?thesis using sound_accept assms(2) by blast
next
  case (cs_refuse f)
  then show ?thesis using sound_refuse assms(2) by blast
next
  case (cs_new f l)
  then show ?thesis using sound_new assms(2) by blast
next
  case (cs_new_queued f l v)
  then show ?thesis using sound_new_queued assms(2) by blast
qed


section \<open>What a step leaves alone\<close>

definition conn_keeps :: "bool \<Rightarrow> bool \<Rightarrow> conn_id \<Rightarrow> 'z sworld_scheme \<Rightarrow> 'z sworld_scheme \<Rightarrow> bool" where
  "conn_keeps rm priv c u w \<longleftrightarrow> keeps_role (conns u c) (conns w c)
     \<and> (tc_state (conns u c) = kConnecting \<longrightarrow> priv \<or> tc_state (conns w c) = kConnecting)
     \<and> (tc_state (conns u c) \<noteq> kConnecting \<longrightarrow> tc_state (conns w c) \<noteq> kConnecting)
     \<and> (tc_state (conns u c) = kDisconnected \<longrightarrow> tc_state (conns w c) = kDisconnected)
     \<and> (\<not> (rm \<and> priv) \<and> ch_index (chans u (ConnChan c)) \<noteq> kNew \<longrightarrow> ch_index (chans w (ConnChan c)) \<noteq> kNew)
     \<and> (ch_index (chans u (ConnChan c)) = kNew
          \<and> (tc_state (conns u c) = kDisconnected \<or> tc_state (conns u c) = kConnecting \<and> \<not> priv)
        \<longrightarrow> ch_index (chans w (ConnChan c)) = kNew)"

text \<open>What may have been appended to a queue on the way from \<open>u\<close> to \<open>w\<close>.\<close>

fun queued :: "conn_id set \<Rightarrow> 'z sworld_scheme \<Rightarrow> 'z sworld_scheme \<Rightarrow> Functor \<Rightarrow> bool" where
  "queued A u w (Bind_connectEstablished c) \<longleftrightarrow> c \<notin> A \<and> c \<notin> live u \<and> c \<in> live w \<and> tc_state (conns w c) = kConnecting"
| "queued A u w (Bind_connectDestroyed c) \<longleftrightarrow> c \<in> A \<and> c \<in> live w \<and> tc_state (conns w c) = kDisconnected"
| "queued A u w (Bind_removeConnectionInLoop c) \<longleftrightarrow> c \<in> A \<and> c \<in> live w \<and> tc_state (conns w c) = kDisconnected"
| "queued A u w (Bind_sendInLoop c p n) \<longleftrightarrow> c \<in> live w \<and> tc_state (conns w c) \<noteq> kConnecting"
| "queued A u w (Bind_shutdownInLoop c) \<longleftrightarrow> c \<in> live w \<and> tc_state (conns w c) \<noteq> kConnecting"
| "queued A u w (Bind_writeComplete x c) \<longleftrightarrow> c \<in> live w"
| "queued A u w (Bind_highWaterMark x c n) \<longleftrightarrow> c \<in> live w"
| "queued A u w (User_functor x) \<longleftrightarrow> True"
| "queued A u w Bind_Acceptor_listen \<longleftrightarrow> False"

definition appends :: "conn_id set \<Rightarrow> 'z sworld_scheme \<Rightarrow> 'z sworld_scheme \<Rightarrow> loop_id \<Rightarrow> Functor list \<Rightarrow> bool" where
  "appends A u w l new \<longleftrightarrow> el_pendingFunctors (loops w l) = el_pendingFunctors (loops u l) @ new
     \<and> (\<forall>f \<in> set new. queued A u w f) \<and> (\<forall>c. count_list new (Bind_connectEstablished c) \<le> 1)"

text \<open>A connection that was taken out of the table is about to be destroyed.\<close>

definition dropped :: "conn_id set \<Rightarrow> 'z sworld_scheme \<Rightarrow> conn_id \<Rightarrow> bool" where
  "dropped A w c \<longleftrightarrow> c \<in> A \<and> Bind_connectDestroyed c \<in> set (el_pendingFunctors (loops w (tc_loop (conns w c))))"

definition keeps :: "bool \<Rightarrow> conn_id set \<Rightarrow> 'z sworld_scheme \<Rightarrow> 'z sworld_scheme \<Rightarrow> bool" where
  "keeps rm A u w \<longleftrightarrow> live u \<subseteq> live w \<and> next_conn u \<le> next_conn w \<and> (\<forall>c \<in> live w. c \<notin> live u \<longrightarrow> next_conn u \<le> c)
     \<and> (\<forall>c \<in> live u. conn_keeps rm (c \<in> A) c u w)
     \<and> (\<forall>l. loop_frame l u w \<and> (\<exists>new. appends A u w l new) \<and> (el_poller (loops w l) = None) = (el_poller (loops u l) = None))
     \<and> (\<forall>ch. present u ch \<longrightarrow> same_dispatch (chans u ch) (chans w ch) \<and> ch_loop (chans w ch) = ch_loop (chans u ch))
     \<and> server_loops w = server_loops u
     \<and> (\<forall>x \<in> set (sv_connections (server u)). snd x \<in> live u \<longrightarrow> x \<in> set (sv_connections (server w)) \<or> dropped A w (snd x))
     \<and> (\<forall>x \<in> set (sv_connections (server w)). x \<in> set (sv_connections (server u)) \<or> snd x \<notin> live u)
     \<and> (\<forall>c \<in> live w. c \<notin> live u \<longrightarrow> c \<in> snd ` set (sv_connections (server w)) \<or> dropped A w c)
     \<and> (\<forall>l. chans w (WakeupChan l) = chans u (WakeupChan l))"

lemma conn_keeps_refl [simp]: "conn_keeps rm priv c w w"
  by (simp add: conn_keeps_def)

lemma conn_keeps_trans: "conn_keeps rm priv c u v \<Longrightarrow> conn_keeps rm priv c v w \<Longrightarrow> conn_keeps rm priv c u w"
  unfolding conn_keeps_def using keeps_role_trans by blast

lemma appends_Nil [simp]: "appends A w w l []"
  by (simp add: appends_def)

lemma keepsD:
  assumes "keeps rm A u w"
  shows "live u \<subseteq> live w" "next_conn u \<le> next_conn w" "c \<in> live w \<Longrightarrow> c \<notin> live u \<Longrightarrow> next_conn u \<le> c"
    "c \<in> live u \<Longrightarrow> conn_keeps rm (c \<in> A) c u w" "loop_frame l u w" "\<exists>new. appends A u w l new"
    "(el_poller (loops w l) = None) = (el_poller (loops u l) = None)"
    "present u ch \<Longrightarrow> same_dispatch (chans u ch) (chans w ch)" "present u ch \<Longrightarrow> ch_loop (chans w ch) = ch_loop (chans u ch)"
    "server_loops w = server_loops u" "x \<in> set (sv_connections (server u)) \<Longrightarrow> snd x \<in> live u \<Longrightarrow> x \<in> set (sv_connections (server w)) \<or> dropped A w (snd x)"
    "x \<in> set (sv_connections (server w)) \<Longrightarrow> x \<in> set (sv_connections (server u)) \<or> snd x \<notin> live u"
    "c \<in> live w \<Longrightarrow> c \<notin> live u \<Longrightarrow> c \<in> snd ` set (sv_connections (server w)) \<or> dropped A w c"
    "chans w (WakeupChan l) = chans u (WakeupChan l)"
  using assms by (simp_all add: keeps_def)

lemma keepsI:
  assumes "live u \<subseteq> live w" "next_conn u \<le> next_conn w" "\<And>c. c \<in> live w \<Longrightarrow> c \<notin> live u \<Longrightarrow> next_conn u \<le> c"
    "\<And>c. c \<in> live u \<Longrightarrow> conn_keeps rm (c \<in> A) c u w" "\<And>l. loop_frame l u w" "\<And>l. \<exists>new. appends A u w l new"
    "\<And>l. (el_poller (loops w l) = None) = (el_poller (loops u l) = None)"
    "\<And>ch. present u ch \<Longrightarrow> same_dispatch (chans u ch) (chans w ch)" "\<And>ch. present u ch \<Longrightarrow> ch_loop (chans w ch) = ch_loop (chans u ch)"
    "server_loops w = server_loops u" "\<And>x. x \<in> set (sv_connections (server u)) \<Longrightarrow> snd x \<in> live u \<Longrightarrow> x \<in> set (sv_connections (server w)) \<or> dropped A w (snd x)"
    "\<And>x. x \<in> set (sv_connections (server w)) \<Longrightarrow> x \<in> set (sv_connections (server u)) \<or> snd x \<notin> live u"
    "\<And>c. c \<in> live w \<Longrightarrow> c \<notin> live u \<Longrightarrow> c \<in> snd ` set (sv_connections (server w)) \<or> dropped A w c"
    "\<And>l. chans w (WakeupChan l) = chans u (WakeupChan l)"
  shows "keeps rm A u w"
  unfolding keeps_def using assms by simp

lemma keeps_refl [simp]: "keeps rm A w w"
  unfolding keeps_def by (auto intro: exI [of _ "[]"])

lemma queued_later:
  assumes "queued A u v f" "keeps rm A v w"
  shows "queued A u w f"
proof -
  have live: "c \<in> live v \<Longrightarrow> c \<in> live w" for c using assms(2) by (auto simp: keeps_def)
  have ck: "c \<in> live v \<Longrightarrow> conn_keeps rm (c \<in> A) c v w" for c using assms(2) by (simp add: keeps_def)
  show ?thesis using assms(1) live ck by (cases f) (auto simp: conn_keeps_def)
qed

lemma queued_earlier: "queued A v w f \<Longrightarrow> live u \<subseteq> live v \<Longrightarrow> queued A u w f"
  by (cases f) auto

lemma appends_trans:
  assumes "keeps rm A u v" "keeps rm A v w" "appends A u v l a" "appends A v w l b"
  shows "appends A u w l (a @ b)"
proof -
  have "live u \<subseteq> live v" using assms(1) by (simp add: keeps_def)
  then have "queued A u w f" if "f \<in> set (a @ b)" for f
    using that assms(3,4) queued_later [OF _ assms(2)] queued_earlier by (fastforce simp: appends_def)
  moreover have "count_list (a @ b) (Bind_connectEstablished c) \<le> 1" for c
  proof (cases "Bind_connectEstablished c \<in> set a")
    case True
    then have "c \<in> live v" using assms(3) by (fastforce simp: appends_def)
    then have "Bind_connectEstablished c \<notin> set b" using assms(4) by (fastforce simp: appends_def)
    then show ?thesis using assms(3) by (simp add: appends_def count_list_0_iff)
  next
    case False
    then show ?thesis using assms(4) by (simp add: appends_def count_list_0_iff)
  qed
  ultimately show ?thesis using assms(3,4) by (simp add: appends_def)
qed

lemma keeps_present: "keeps rm A u w \<Longrightarrow> present u ch \<Longrightarrow> present w ch"
  by (cases ch) (auto simp: keeps_def)

lemma dropped_later:
  assumes "keeps rm A u w" "dropped A u c" "c \<in> live u"
  shows "dropped A w c"
proof -
  have "tc_loop (conns w c) = tc_loop (conns u c)"
    using keepsD(4) [OF assms(1,3)] by (simp add: conn_keeps_def keeps_role_def)
  moreover obtain new where "appends A u w (tc_loop (conns u c)) new" using keepsD(6) [OF assms(1)] by blast
  ultimately show ?thesis using assms(2) by (simp add: dropped_def appends_def)
qed

lemma keeps_trans:
  assumes k: "keeps rm A u v" "keeps rm A v w"
  shows "keeps rm A u w"
proof (rule keepsI)
  note 1 = keepsD [OF k(1)] and 2 = keepsD [OF k(2)]
  show "live u \<subseteq> live w" "next_conn u \<le> next_conn w" using 1(1,2) 2(1,2) by auto
  show "next_conn u \<le> c" if "c \<in> live w" "c \<notin> live u" for c
    using that 1(2,3) 2(3) by (cases "c \<in> live v") (auto intro: order.trans)
  show "conn_keeps rm (c \<in> A) c u w" if "c \<in> live u" for c
    using that 1(1) 1(4) [OF that] 2(4) [of c] conn_keeps_trans by blast
  show "loop_frame l u w" for l by (rule loop_frame_trans [OF 1(5) 2(5)])
  show "\<exists>new. appends A u w l new" for l
  proof -
    obtain a b where "appends A u v l a" "appends A v w l b" using 1(6) 2(6) by blast
    then show ?thesis using appends_trans [OF k] by blast
  qed
  show "(el_poller (loops w l) = None) = (el_poller (loops u l) = None)" for l using 1(7) 2(7) by simp
  show "same_dispatch (chans u ch) (chans w ch)" "ch_loop (chans w ch) = ch_loop (chans u ch)" if "present u ch" for ch
    using 1(8,9) [OF that] 2(8,9) [OF keeps_present [OF k(1) that]] same_dispatch_trans by auto
  show "server_loops w = server_loops u" using 1(10) 2(10) by simp
  show "chans w (WakeupChan l) = chans u (WakeupChan l)" for l using 1(14) 2(14) by simp
  show "x \<in> set (sv_connections (server w)) \<or> dropped A w (snd x)"
    if "x \<in> set (sv_connections (server u))" "snd x \<in> live u" for x
  proof -
    have "snd x \<in> live v" using 1(1) that(2) by blast
    then show ?thesis using 1(11) [OF that] 2(11) [of x] dropped_later [OF k(2)] by blast
  qed
  show "x \<in> set (sv_connections (server u)) \<or> snd x \<notin> live u" if "x \<in> set (sv_connections (server w))" for x
    using 2(12) [OF that] 1(1,12) by blast
  show "c \<in> snd ` set (sv_connections (server w)) \<or> dropped A w c" if "c \<in> live w" "c \<notin> live u" for c
  proof (cases "c \<in> live v")
    case False
    then show ?thesis using 2(13) that(1) by blast
  next
    case True
    from 1(13) [OF True that(2)] show ?thesis
    proof
      assume "c \<in> snd ` set (sv_connections (server v))"
      then obtain x where x: "x \<in> set (sv_connections (server v))" "snd x = c" by auto
      then show ?thesis using 2(11) [OF x(1)] True by auto
    next
      assume "dropped A v c"
      then show ?thesis using dropped_later [OF k(2) _ True] by blast
    qed
  qed
qed


text \<open>Steps that touch neither channels nor connections nor the server.\<close>

lemma keeps_elsewhere:
  assumes "chans w = chans u" "conns w = conns u" "live w = live u" "server w = server u" "next_conn w = next_conn u"
    and "\<And>l. loop_frame l u w" "\<And>l. el_poller (loops w l) = el_poller (loops u l)" "\<And>l. \<exists>new. appends A u w l new"
  shows "keeps rm A u w"
  by (rule keepsI) (simp_all add: assms conn_keeps_def server_loops_def)

lemma appends_none: "el_pendingFunctors (loops w l) = el_pendingFunctors (loops u l) \<Longrightarrow> \<exists>new. appends A u w l new"
  by (rule exI [of _ "[]"]) (simp add: appends_def)

lemma keeps_log: "keeps rm A w (LOG K lv fmt args w)"
  by (rule keeps_elsewhere) (simp_all add: appends_none)

lemma keeps_event: "keeps rm A w (record_event e w)"
  by (rule keeps_elsewhere) (simp_all add: appends_none)

lemma keeps_strings: "keeps rm A w (w\<lparr>strings := m, next_string := n\<rparr>)"
  by (rule keeps_elsewhere) (auto simp: appends_none intro: loop_frame_same)

lemma keeps_quit: "keeps rm A w (EventLoop_quit K l w)"
  by (rule keeps_elsewhere) (simp_all add: quit_world appends_none)

lemma keeps_queue:
  assumes "\<And>v. server v = server w \<Longrightarrow> live v = live w \<Longrightarrow> conns v = conns w \<Longrightarrow> queued A w v f"
    and "\<And>c. f \<noteq> Bind_connectEstablished c"
  shows "keeps rm A w (queueInLoop K l f w)"
proof (rule keeps_elsewhere)
  show "el_poller (loops (queueInLoop K l f w) k) = el_poller (loops w k)" for k by (simp add: queueInLoop_spec(1))
  show "\<exists>new. appends A w (queueInLoop K l f w) k new" for k
  proof (cases "k = l")
    case True
    then have "appends A w (queueInLoop K l f w) k [f]"
      using assms by (simp add: appends_def queueInLoop_spec(1))
    then show ?thesis by blast
  next
    case False
    then show ?thesis by (intro appends_none) (simp add: queueInLoop_spec(1))
  qed
qed simp_all

lemma keeps_may_queue:
  assumes "may_queue A w l f"
  shows "keeps rm A w (queueInLoop K l f w)"
  by (rule keeps_queue) (use assms in \<open>cases f; auto\<close>)+

lemma keeps_conn:
  assumes "c \<in> live w" "keeps_role (conns w c) (f (conns w c))" "may_state (c \<in> A) (tc_state (conns w c)) (tc_state (f (conns w c)))"
  shows "keeps rm A w (map_conn c f w)"
proof (rule keepsI)
  show "conn_keeps rm (d \<in> A) d w (map_conn c f w)" for d
    using assms by (cases "d = c") (auto simp: conn_keeps_def)
qed (simp_all add: appends_none server_loops_def)

lemma keeps_establish:
  assumes "c \<in> A" "c \<in> live w" "tc_state (conns w c) = kConnecting"
  shows "keeps rm A w (map_chan (ConnChan c) (Channel_tie c) (map_conn c (setState kConnected) w))"
proof (rule keepsI)
  let ?v = "map_chan (ConnChan c) (Channel_tie c) (map_conn c (setState kConnected) w)"
  show "conn_keeps rm (d \<in> A) d w ?v" for d
    using assms by (cases "d = c") (auto simp: conn_keeps_def keeps_role_def setState_def)
  show "same_dispatch (chans w ch) (chans ?v ch)" "ch_loop (chans ?v ch) = ch_loop (chans w ch)" for ch
    by (cases "ch = ConnChan c"; simp)+
qed (simp_all add: appends_none server_loops_def)

lemma keeps_channel_op:
  assumes op: "channel_op f ch w w'" and same: "\<And>i. same_chan (chans w ch) (set_index i (f (chans w ch)))"
    and pl: "\<And>l. (el_poller (loops w' l) = None) = (el_poller (loops w l) = None)"
    and idx: "\<And>c. ch = ConnChan c \<Longrightarrow> c \<in> live w \<Longrightarrow> conn_keeps rm (c \<in> A) c w w'"
    and nw: "\<And>l. ch \<noteq> WakeupChan l"
  shows "keeps rm A w w'"
proof (rule keepsI)
  note world = channel_op_world [OF op]
  have ident: "same_chan (chans w c) (chans w' c)" for c
    using channel_opD(7) [OF op] same channel_opD(6) [OF op, of c] by (cases "c = ch") auto
  show "same_dispatch (chans w c) (chans w' c)" "ch_loop (chans w' c) = ch_loop (chans w c)" for c
    using same_chanD [OF ident] by simp_all
  show "conn_keeps rm (c \<in> A) c w w'" if "c \<in> live w" for c
    using idx [of c] that channel_opD(6) [OF op, of "ConnChan c"] by (cases "ch = ConnChan c") (auto simp: conn_keeps_def world)
  obtain p where "loops w' = (loops w)(ch_loop (chans w ch) := (loops w (ch_loop (chans w ch)))\<lparr>el_poller := p\<rparr>)"
    using op by (auto simp: channel_op_def)
  then show "\<exists>new. appends A w w' l new" for l by (intro appends_none) simp
  show "chans w' (WakeupChan l) = chans w (WakeupChan l)" for l
    using channel_opD(6) [OF op, of "WakeupChan l"] nw [of l] by auto
qed (simp_all add: channel_op_world [OF op] loop_frame_channel_op [OF op] pl server_loops_def)


text \<open>Each step keeps what it must.\<close>

lemma keeps_update:
  assumes sd: "sound w" and pr: "present w ch" and law: "epoll_ctl_law K"
    and up: "Channel_update K ch (map_chan ch f w) = Inr w'" and f: "f (chans w ch) = set_events e (chans w ch)"
    and st: "\<And>c. ch = ConnChan c \<Longrightarrow> tc_state (conns w c) \<noteq> kConnecting"
    and old: "\<And>c. ch = ConnChan c \<Longrightarrow> tc_state (conns w c) = kDisconnected \<Longrightarrow> ch_index (chans w ch) \<noteq> kNew"
    and nw: "\<And>l. ch \<noteq> WakeupChan l"
  shows "keeps rm A w w'"
proof -
  note u = update_sound [OF sd pr law up f st]
  then have op: "channel_op f ch w w'" by blast
  show ?thesis
  proof (rule keeps_channel_op [OF op])
    show "same_chan (chans w ch) (set_index i (f (chans w ch)))" for i
      by (simp add: f same_chan_def chan_ident_def set_index_def set_events_def)
    show "conn_keeps rm (c \<in> A) c w w'" if "ch = ConnChan c" for c
      using u st [OF that] old [OF that] that by (auto simp: conn_keeps_def channel_op_world [OF op])
  qed (use u nw in auto)
qed

lemmas switch_keeps =
  keeps_update [where f = read_on, OF _ _ _ _ changes_events(1), folded enableReading_def]
  keeps_update [where f = write_on, OF _ _ _ _ changes_events(3), folded enablewriting_def]
  keeps_update [where f = write_off, OF _ _ _ _ changes_events(4), folded disableWriting_def]
  keeps_update [where f = all_off, OF _ _ _ _ changes_events(5), folded disableAll_def]

lemma keeps_remove:
  assumes sd: "sound w" and pr: "present w (ConnChan c)" and law: "epoll_ctl_law K"
    and up: "Channel_remove K (ConnChan c) w = Inr w'" and c: "c \<in> A" "rm" "tc_state (conns w c) = kDisconnected"
  shows "keeps rm A w w'"
proof -
  have u: "sound w' \<and> ch_index (chans w' (ConnChan c)) = kNew \<and> channel_op id (ConnChan c) w w'
      \<and> (\<forall>l. (el_poller (loops w' l) = None) = (el_poller (loops w l) = None))"
    by (rule remove_sound [OF sd pr law up]) (use c in auto)
  then have op: "channel_op id (ConnChan c) w w'" by blast
  show ?thesis
    by (rule keeps_channel_op [OF op]) (use u c in \<open>auto simp: conn_keeps_def channel_op_world [OF op]\<close>)
qed

lemma keeps_server_step:
  assumes "sv_loop (f (server w)) = sv_loop (server w)" "tp_loops (sv_threadPool (f (server w))) = tp_loops (sv_threadPool (server w))"
    and "set (sv_connections (f (server w))) \<subseteq> set (sv_connections (server w))"
    and "set (sv_connections (server w)) \<subseteq> set (sv_connections (f (server w)))"
  shows "keeps rm A w (map_server f w)"
proof (rule keepsI)
  show "conn_keeps rm (c \<in> A) c w (map_server f w)" for c by (simp add: conn_keeps_def)
qed (use assms in \<open>auto simp: appends_none server_loops_def intro: loop_frame_server_step\<close>)

lemma keeps_erase:
  assumes c: "c \<in> A" "c \<in> live w" "tc_state (conns w c) = kDisconnected" and tb: "table_ok w"
  shows "keeps rm A w (queueInLoop K (tc_loop (conns w c)) (Bind_connectDestroyed c)
    (map_server (\<lambda>s. s\<lparr>sv_connections := erase (tc_name (conns w c)) (sv_connections s)\<rparr>) w))"
    (is "keeps rm A w (queueInLoop K ?l ?f ?v)")
proof (rule keepsI)
  let ?w = "queueInLoop K ?l ?f ?v"
  show "conn_keeps rm (d \<in> A) d w ?w" for d by (simp add: conn_keeps_def)
  show "\<exists>new. appends A w ?w k new" for k
  proof (cases "k = ?l")
    case True
    then have "appends A w ?w k [?f]" using c by (simp add: appends_def queueInLoop_spec(1))
    then show ?thesis by blast
  next
    case False
    then show ?thesis by (intro appends_none) (simp add: queueInLoop_spec(1))
  qed
  show "x \<in> set (sv_connections (server ?w)) \<or> dropped A ?w (snd x)"
    if "x \<in> set (sv_connections (server w))" "snd x \<in> live w" for x
  proof (cases "fst x = tc_name (conns w c)")
    case True
    have "tc_name (conns w (snd x)) = fst x" using tb that by (auto simp: table_ok_def)
    then have "snd x = c" using tb that(2) c(2) True unfolding table_ok_def by metis
    then show ?thesis using c by (simp add: dropped_def queueInLoop_spec(1))
  next
    case False
    then show ?thesis using that(1) by (simp add: erase_set)
  qed
qed (auto simp: queueInLoop_spec(1) server_loops_def erase_set)

lemma keeps_new:
  assumes sd: "sound w" and reg: "registered_conn l f w x" and c: "next_conn w \<notin> live w"
  shows "keeps rm A w x"
proof (rule keepsI)
  obtain r where tr: "ktrace x = ktrace w @ [EvGetsockname f r, EvSetsockopt f SO_KEEPALIVE 1]"
    using reg by (auto simp: registered_conn_def Let_def)
  have w: "live x = insert (next_conn w) (live w)" "next_conn x = next_conn w + 1" "loops x = loops w" "cur_tid x = cur_tid w"
    "loopInThread x = loopInThread w"
    using reg by (auto simp: registered_conn_def Let_def)
  show "live w \<subseteq> live x" "next_conn w \<le> next_conn x" "\<And>c. c \<in> live x \<Longrightarrow> c \<notin> live w \<Longrightarrow> next_conn w \<le> c"
    using w by auto
  have other: "d \<noteq> next_conn w \<Longrightarrow> conns x d = conns w d" "ch \<noteq> ConnChan (next_conn w) \<Longrightarrow> chans x ch = chans w ch" for d ch
    using reg by (auto simp: registered_conn_def Let_def)
  show "conn_keeps rm (d \<in> A) d w x" if "d \<in> live w" for d
  proof -
    have "d \<noteq> next_conn w" using that c by auto
    then show ?thesis by (simp add: conn_keeps_def other)
  qed
  show "loop_frame k w x" for k by (rule loop_frame_same) (use w tr in auto)
  show "\<exists>new. appends A w x k new" for k by (rule appends_none) (simp add: w)
  show "(el_poller (loops x k) = None) = (el_poller (loops w k) = None)" for k by (simp add: w)
  show "same_dispatch (chans w ch) (chans x ch)" "ch_loop (chans x ch) = ch_loop (chans w ch)" if "present w ch" for ch
  proof -
    have "ch \<noteq> ConnChan (next_conn w)" using that c by auto
    then show "same_dispatch (chans w ch) (chans x ch)" "ch_loop (chans x ch) = ch_loop (chans w ch)" by (simp_all add: other)
  qed
  obtain q where q: "getNextLoop (sv_threadPool (server w)) = Inr (l, q)"
    "server x = (server w)\<lparr>sv_threadPool := q, sv_nextConnId := sv_nextConnId (server w) + 1,
       sv_connections := (name_of (server w) (sv_nextConnId (server w)), next_conn w) # sv_connections (server w)\<rparr>"
    using reg by (auto simp: registered_conn_def Let_def)
  show "server_loops x = server_loops w" using getNextLoop_loops [OF q(1)] by (simp add: server_loops_def q(2))
  show "y \<in> set (sv_connections (server x)) \<or> dropped A x (snd y)" if "y \<in> set (sv_connections (server w))" for y
    using that by (simp add: q(2))
  show "y \<in> set (sv_connections (server w)) \<or> snd y \<notin> live w" if "y \<in> set (sv_connections (server x))" for y
    using that c by (auto simp: q(2))
  show "c \<in> snd ` set (sv_connections (server x)) \<or> dropped A x c" if "c \<in> live x" "c \<notin> live w" for c
    using that w(1) by (auto simp: q(2))
  show "chans x (WakeupChan k) = chans w (WakeupChan k)" for k by (simp add: other(2))
qed

lemma next_conn_new: "sound w \<Longrightarrow> next_conn w \<notin> live w"
  using soundD(1) by (fastforce simp: conn_ok_def)

lemma keeps_new_queued:
  assumes sd: "sound w" and c: "next_conn w \<notin> A" and reg: "registered_conn l f w x"
  shows "keeps rm A w (queueInLoop K l (Bind_connectEstablished (next_conn w)) x)"
proof (rule keepsI)
  let ?v = "queueInLoop K l (Bind_connectEstablished (next_conn w)) x"
  note new = next_conn_new [OF sd]
  note k = keepsD [OF keeps_new [OF sd reg new, of rm A]]
  show "live w \<subseteq> live ?v" "next_conn w \<le> next_conn ?v" "\<And>c. c \<in> live ?v \<Longrightarrow> c \<notin> live w \<Longrightarrow> next_conn w \<le> c"
    "server_loops ?v = server_loops w" using k by (auto simp: server_loops_def)
  show "conn_keeps rm (d \<in> A) d w ?v" if "d \<in> live w" for d using k(4) [OF that] by (simp add: conn_keeps_def)
  show "loop_frame m w ?v" for m by (rule loop_frame_trans [OF k(5) loop_frame_queue])
  show "(el_poller (loops ?v m) = None) = (el_poller (loops w m) = None)" for m using k(7) by (simp add: queueInLoop_spec(1))
  show "same_dispatch (chans w ch) (chans ?v ch)" "ch_loop (chans ?v ch) = ch_loop (chans w ch)" if "present w ch" for ch
    using k(8,9) [OF that] by simp_all
  show "y \<in> set (sv_connections (server ?v)) \<or> dropped A ?v (snd y)"
    if "y \<in> set (sv_connections (server w))" "snd y \<in> live w" for y
    using k(11) [OF that] by (auto simp: dropped_def queueInLoop_spec(1))
  show "y \<in> set (sv_connections (server w)) \<or> snd y \<notin> live w" if "y \<in> set (sv_connections (server ?v))" for y
    using that k(12) by simp
  show "c \<in> snd ` set (sv_connections (server ?v)) \<or> dropped A ?v c" if "c \<in> live ?v" "c \<notin> live w" for c
    using k(13) [of c] that by (auto simp: dropped_def queueInLoop_spec(1))
  show "chans ?v (WakeupChan m) = chans w (WakeupChan m)" for m using k(14) by simp
  have x: "next_conn w \<in> live x" "tc_state (conns x (next_conn w)) = kConnecting" "loops x = loops w"
    using reg by (auto simp: registered_conn_def Let_def)
  show "\<exists>new. appends A w ?v m new" for m
  proof (cases "m = l")
    case True
    then have "appends A w ?v m [Bind_connectEstablished (next_conn w)]"
      using x c new by (simp add: appends_def queueInLoop_spec(1))
    then show ?thesis by blast
  next
    case False
    then show ?thesis by (intro appends_none) (simp add: queueInLoop_spec(1) x(3))
  qed
qed

lemma code_step_keeps:
  assumes "code_step K rm A w w'" "sound w" "epoll_ctl_law K"
  shows "keeps rm A w w'"
  using assms(1)
proof cases
  case cs_log
  then show ?thesis using keeps_log by blast
next
  case (cs_event e)
  then show ?thesis using keeps_event by blast
next
  case (cs_conn c f)
  then show ?thesis using keeps_conn by blast
next
  case (cs_establish c)
  then show ?thesis using keeps_establish by blast
next
  case (cs_writing c)
  have "present w (ConnChan c)" using cs_writing by simp
  from switch_keeps(2) [OF assms(2) this assms(3)] cs_writing show ?thesis by auto
next
  case (cs_drained c)
  have pr: "present w (ConnChan c)" using cs_drained by simp
  have "tc_state (conns w c) \<noteq> kConnecting" using soundD(1) [OF assms(2), of c] cs_drained by (auto simp: conn_ok_def)
  with switch_keeps(3) [OF assms(2) pr assms(3)] cs_drained show ?thesis by auto
next
  case (cs_reading c)
  have "present w (ConnChan c)" using cs_reading by simp
  from switch_keeps(1) [OF assms(2) this assms(3)] cs_reading show ?thesis by auto
next
  case (cs_off c)
  have "present w (ConnChan c)" using cs_off by simp
  from switch_keeps(4) [OF assms(2) this assms(3)] cs_off show ?thesis by auto
next
  case (cs_remove c)
  then show ?thesis using keeps_remove [OF assms(2) _ assms(3)] by simp
next
  case cs_listen
  have "present w AcceptChan" by simp
  from switch_keeps(1) [OF assms(2) this assms(3)] cs_listen show ?thesis by auto
next
  case (cs_queue l f)
  then show ?thesis using keeps_may_queue by blast
next
  case (cs_quit l)
  then show ?thesis using keeps_quit by blast
next
  case cs_acceptor
  show ?thesis unfolding cs_acceptor by (rule keeps_server_step) auto
next
  case (cs_erase c)
  then show ?thesis using keeps_erase soundD(3) [OF assms(2)] by blast
next
  case (cs_strings m n)
  then show ?thesis using keeps_strings by blast
next
  case (cs_accept f s a)
  then show ?thesis using keeps_event by blast
next
  case (cs_refuse f)
  then show ?thesis using keeps_event by (simp add: sys_close_def)
next
  case (cs_new f l)
  then show ?thesis using keeps_new [OF assms(2)] next_conn_new [OF assms(2)] by blast
next
  case (cs_new_queued f l v)
  then show ?thesis using keeps_new_queued [OF assms(2)] by blast
qed


section \<open>What a step reads\<close>

definition reads_in :: "fd set \<Rightarrow> 'z kworld_scheme \<Rightarrow> 'z kworld_scheme \<Rightarrow> bool" where
  "reads_in F u w \<longleftrightarrow> (\<exists>tr. ktrace w = ktrace u @ tr \<and> (\<forall>f n r. EvRead f n r \<in> set tr \<longrightarrow> f \<in> F))"

lemma reads_in_same: "ktrace w = ktrace u \<Longrightarrow> reads_in F u w"
  unfolding reads_in_def by (rule exI [of _ "[]"]) simp

lemma reads_in_refl [simp]: "reads_in F w w"
  by (simp add: reads_in_same)

lemma reads_in_trans:
  assumes "reads_in F u v" "reads_in F v w"
  shows "reads_in F u w"
proof -
  obtain a b where "ktrace v = ktrace u @ a" "\<forall>f n r. EvRead f n r \<in> set a \<longrightarrow> f \<in> F"
    "ktrace w = ktrace v @ b" "\<forall>f n r. EvRead f n r \<in> set b \<longrightarrow> f \<in> F"
    using assms unfolding reads_in_def by blast
  then show ?thesis unfolding reads_in_def by (intro exI [of _ "a @ b"]) (simp, blast)
qed

lemma reads_in_mono: "reads_in F u w \<Longrightarrow> F \<subseteq> G \<Longrightarrow> reads_in G u w"
  unfolding reads_in_def by blast

lemma reads_in_event: "\<not> is_read e \<Longrightarrow> reads_in F w (record_event e w)"
  unfolding reads_in_def by (rule exI [of _ "[e]"]) (auto simp: record_event_def)

lemma reads_in_queue: "reads_in F w (queueInLoop K l f w)"
  using queueInLoop_spec(6) [where K = K and l = l and w = w and cb = f] unfolding reads_in_def
  by (auto split: if_splits)

lemma reads_in_quit: "reads_in F w (EventLoop_quit K l w)"
  using quit_spec(6) [where K = K and l = l and w = w] unfolding reads_in_def by (auto split: if_splits)

lemma reads_in_ctl: "\<exists>tr. ktrace w' = ktrace w @ tr \<and> ctl_trace ep tr \<Longrightarrow> reads_in F w w'"
  by (fastforce simp: reads_in_def ctl_trace_def)

lemma Channel_update_reads: "Channel_update K ch w = Inr w' \<Longrightarrow> reads_in F w w'"
  by (auto simp: Channel_update_def EventLoop_updateChannel_def split: option.splits
      intro!: reads_in_ctl dest!: updateChannel_ctl)

lemma Channel_remove_reads: "Channel_remove K ch w = Inr w' \<Longrightarrow> reads_in F w w'"
  by (auto simp: Channel_remove_def EventLoop_removeChannel_def split: option.splits
      intro!: reads_in_ctl dest!: removeChannel_ctl)

lemma switch_reads:
  "enableReading K ch w = Inr w' \<Longrightarrow> reads_in F w w'" "enablewriting K ch w = Inr w' \<Longrightarrow> reads_in F w w'"
  "disableWriting K ch w = Inr w' \<Longrightarrow> reads_in F w w'" "disableAll K ch w = Inr w' \<Longrightarrow> reads_in F w w'"
  unfolding enableReading_def enablewriting_def disableWriting_def disableAll_def
  by (drule Channel_update_reads [where F = F], simp add: reads_in_def)+

lemma reads_in_new: "registered_conn l f w x \<Longrightarrow> reads_in F w x"
  by (auto simp: registered_conn_def reads_in_def Let_def)

lemma code_step_reads:
  assumes "code_step K rm A w w'"
  shows "reads_in {} w w'"
  using assms
proof cases
  case (cs_event e)
  then show ?thesis using reads_in_event by blast
next
  case (cs_establish c)
  then show ?thesis by (simp add: reads_in_same)
next
  case (cs_queue l f)
  then show ?thesis using reads_in_queue by blast
next
  case (cs_quit l)
  then show ?thesis using reads_in_quit by blast
next
  case (cs_erase c)
  have "reads_in {} w (map_server (\<lambda>s. s\<lparr>sv_connections := erase (tc_name (conns w c)) (sv_connections s)\<rparr>) w)"
    by (simp add: reads_in_same)
  then show ?thesis unfolding cs_erase(1) using reads_in_queue reads_in_trans by blast
next
  case (cs_refuse f)
  then show ?thesis by (simp add: sys_close_def reads_in_event)
next
  case (cs_new f l)
  then show ?thesis using reads_in_new by blast
next
  case (cs_new_queued f l v)
  then have "reads_in {} w v" using reads_in_new by blast
  then show ?thesis unfolding cs_new_queued(1) using reads_in_queue reads_in_trans by blast
qed (auto simp: reads_in_event intro: switch_reads Channel_remove_reads reads_in_same)

end
