(* ===== verification/Handlers.thy ===== *)
theory Handlers
  imports Steps
begin

text \<open>
  The handlers as runs of elementary steps: every call of the user's code, every functor of the queues
  and every callback of the channels is a \<open>code_run\<close>, under the precondition with which it is called.
\<close>

lemma code_run_sound:
  assumes "code_run K rm A u w" "sound u" "epoll_ctl_law K"
  shows "sound w \<and> keeps rm A u w"
proof (rule code_run_rel [where I = sound and R = "keeps rm A" and K = K and A = A, OF assms(1,2)])
  show "keeps rm A w w" for w :: "'a sworld_scheme" by simp
  show "keeps rm A u w" if "keeps rm A u v" "keeps rm A v w" for u v w :: "'a sworld_scheme" using that by (rule keeps_trans)
  show "sound w \<and> keeps rm A v w" if "sound v" "code_step K rm A v w" for v w :: "'a sworld_scheme"
    using that code_step_sound code_step_keeps assms(3) by blast
qed

lemma code_run_reads: "code_run K rm A u w \<Longrightarrow> reads_in {} u w"
  by (induction rule: code_run.induct) (auto intro: reads_in_trans code_step_reads)

lemmas run_then = cr_more [of K A u v w] for K A u v w

lemma run_log [intro]: "code_run K rm A u v \<Longrightarrow> code_run K rm A u (LOG K lv fmt args v)"
  by (blast intro: run_then cs_log)

lemma run_event [intro]: "code_run K rm A u v \<Longrightarrow> neutral e \<Longrightarrow> \<not> is_read e \<Longrightarrow> code_run K rm A u (record_event e v)"
  by (blast intro: run_then cs_event)

lemma run_conn:
  "code_run K rm A u v \<Longrightarrow> c \<in> live v \<Longrightarrow> keeps_role (conns v c) (f (conns v c)) \<Longrightarrow>
    may_state (c \<in> A) (tc_state (conns v c)) (tc_state (f (conns v c))) \<Longrightarrow> code_run K rm A u (map_conn c f v)"
  by (blast intro: run_then cs_conn)

lemma run_queue: "code_run K rm A u v \<Longrightarrow> may_queue A v l f \<Longrightarrow> code_run K rm A u (queueInLoop K l f v)"
  by (blast intro: run_then cs_queue)

section \<open>Sending and shutting down\<close>

lemma write_now_run:
  assumes "write_now K c data w = (n, r, f, v)" "c \<in> live w"
  shows "code_run K rm A w v \<and> live v = live w \<and> conns v = conns w \<and> chans v = chans w"
  using assms
  by (auto simp: write_now_def sys_write_def Let_def intro!: run_queue run_log run_event
      split: sysret.splits option.splits if_splits)

lemma mark_high_water_run:
  assumes "c \<in> live w"
  shows "code_run K rm A w (mark_high_water K c m n w) \<and> live (mark_high_water K c m n w) = live w
    \<and> conns (mark_high_water K c m n w) = conns w \<and> chans (mark_high_water K c m n w) = chans w"
  using assms by (auto simp: mark_high_water_def intro!: run_queue split: option.splits)

lemma buffer_rest_run:
  assumes "buffer_rest K c data n r w = Inr w'" "c \<in> live w" "tc_state (conns w c) \<noteq> kConnecting"
    "tc_state (conns w c) \<noteq> kDisconnected"
  shows "code_run K rm A w w'"
proof -
  let ?m = "mark_high_water K c (readableBytes (tc_outputBuffer (conns w c))) r w"
  note m = mark_high_water_run [OF assms(2), of K rm A "readableBytes (tc_outputBuffer (conns w c))" r]
  obtain b where b: "(let w = map_conn c (\<lambda>t. t\<lparr>tc_outputBuffer := b\<rparr>) ?m
         in if \<not> isWriting (chans w (ConnChan c)) then enablewriting K (ConnChan c) w else Inr w) = Inr w'"
    using assms(1) by (auto simp: buffer_rest_def Let_def)
  let ?v = "map_conn c (\<lambda>t. t\<lparr>tc_outputBuffer := b\<rparr>) ?m"
  have v: "code_run K rm A w ?v"
    using m assms(2) by (auto intro!: run_conn simp: keeps_role_def)
  show ?thesis
  proof (cases "isWriting (chans ?v (ConnChan c))")
    case True
    then show ?thesis using b v by (simp add: Let_def)
  next
    case False
    then have "enablewriting K (ConnChan c) ?v = Inr w'" using b by (simp add: Let_def)
    then have "code_step K rm A ?v w'" using m assms by (auto intro!: cs_writing)
    with v show ?thesis by (rule run_then)
  qed
qed

lemma sendInLoop_run:
  assumes "sendInLoop K c data w = Inr w'" "c \<in> live w" "tc_state (conns w c) \<noteq> kConnecting"
  shows "code_run K rm A w w'"
proof (cases "tc_state (conns w c) = kDisconnected")
  case True
  then show ?thesis using assms(1) by (auto simp: sendInLoop_def)
next
  case False
  obtain n r f v where v: "(if \<not> isWriting (chans w (ConnChan c)) \<and> readableBytes (tc_outputBuffer (conns w c)) = 0
            then write_now K c data w else (0, length data, False, w)) = (n, r, f, v)"
    by (rule prod_cases4) (rule that)
  have 1: "code_run K rm A w v \<and> live v = live w \<and> conns v = conns w"
  proof (cases "\<not> isWriting (chans w (ConnChan c)) \<and> readableBytes (tc_outputBuffer (conns w c)) = 0")
    case True
    then have "write_now K c data w = (n, r, f, v)" using v by simp
    from write_now_run [OF this assms(2)] show ?thesis by blast
  next
    case False
    from trans [OF sym [OF if_not_P [OF False]] v] have "v = w" by (simp only: prod.inject)
    then show ?thesis by simp
  qed
  have res: "(if \<not> f \<and> 0 < r then buffer_rest K c data n r v else Inr v) = Inr w'"
    using assms(1) v False by (simp add: sendInLoop_def)
  show ?thesis
  proof (cases "\<not> f \<and> 0 < r")
    case True
    then have "buffer_rest K c data n r v = Inr w'" using res by simp
    then have "code_run K rm A v w'" by (rule buffer_rest_run) (use 1 assms \<open>tc_state (conns w c) \<noteq> kDisconnected\<close> in simp_all)
    then show ?thesis using 1 code_run_trans by blast
  next
    case False
    from trans [OF sym [OF if_not_P [OF False]] res] show ?thesis using 1 by simp
  qed
qed

lemma shutdownInLoop_run: "code_run K rm A u w \<Longrightarrow> code_run K rm A u (shutdownInLoop K c w)"
  by (auto simp: shutdownInLoop_def Socket_shutdownWrite_def sys_shutdown_def Let_def intro!: run_log run_event
      split: sysret.split)

lemma run_raw_run:
  assumes "run_raw K f w = Inr w'" "f = Bind_sendInLoop c p n \<or> f = Bind_shutdownInLoop c" "tc_state (conns w c) \<noteq> kConnecting"
  shows "code_run K rm A w w'"
  using assms by (auto split: if_splits option.splits intro: sendInLoop_run shutdownInLoop_run [OF cr_done])

lemma TcpConnection_send_run:
  assumes "TcpConnection_send K c p w = Inr w'" "c \<in> live w"
  shows "code_run K rm A w w'"
  using assms
  by (auto simp: TcpConnection_send_def runInLoop_def split: option.splits if_splits
      intro: sendInLoop_run intro!: run_queue)

lemma TcpConnection_shutdown_run:
  assumes "TcpConnection_shutdown K c w = Inr w'" "c \<in> live w"
  shows "code_run K rm A w w'"
proof (cases "tc_state (conns w c) = kConnected")
  case False
  then show ?thesis using assms(1) by (simp add: TcpConnection_shutdown_def)
next
  case True
  let ?v = "map_conn c (setState kDisconnecting) w"
  have v: "code_run K rm A w ?v"
    by (rule run_conn) (use assms True in \<open>auto simp: setState_def keeps_role_def\<close>)
  have "runInLoop K (run_raw K) (tc_loop (conns ?v c)) (Bind_shutdownInLoop c) ?v = Inr w'"
    using assms(1) True by (simp add: TcpConnection_shutdown_def Let_def)
  then consider "w' = shutdownInLoop K c ?v" | "w' = queueInLoop K (tc_loop (conns ?v c)) (Bind_shutdownInLoop c) ?v"
    by (auto simp: runInLoop_def split: if_splits)
  then show ?thesis
  proof cases
    case 1
    then show ?thesis using shutdownInLoop_run [OF v] by simp
  next
    case 2
    then show ?thesis using assms(2) by (auto intro!: run_queue v simp: setState_def)
  qed
qed

section \<open>User code\<close>

lemma run_strings: "code_run K rm A u v \<Longrightarrow> code_run K rm A u (v\<lparr>strings := m, next_string := n\<rparr>)"
  by (blast intro: run_then cs_strings)

lemma api_step_run:
  assumes "api_step K w w'"
  shows "code_run K rm A w w'"
  using assms
proof cases
  case (api_send c p)
  then show ?thesis using TcpConnection_send_run by blast
next
  case (api_shutdown c)
  then show ?thesis using TcpConnection_shutdown_run by blast
next
  case (api_retrieve c n)
  then show ?thesis by (auto intro!: run_conn simp: keeps_role_def)
next
  case (api_complete c cb)
  then show ?thesis by (auto intro!: run_conn simp: keeps_role_def setWriteCompleteCallback_def)
next
  case (api_mark c cb n)
  then show ?thesis by (auto intro!: run_conn simp: keeps_role_def setHighWaterMarkCallback_def)
next
  case (api_new s)
  then show ?thesis by (auto simp: new_string_def intro!: run_strings)
next
  case (api_delete p)
  have "delete_string p w = w\<lparr>strings := (strings w)(p := None), next_string := next_string w\<rparr>"
    by (simp add: delete_string_def)
  then show ?thesis using api_delete run_strings [OF cr_done] by metis
next
  case (api_queue l u)
  then show ?thesis by (auto intro!: run_queue)
next
  case (api_quit l)
  then show ?thesis using code_run_step [OF cs_quit] by blast
next
  case (api_log lv fmt args)
  then show ?thesis by auto
qed

lemma api_run_run: "api_run K u w \<Longrightarrow> code_run K rm A u w"
  by (induction rule: api_run.induct) (auto intro: api_step_run code_run_trans)

lemma user_run:
  assumes "user_law K U"
  shows "u_connection U u c w = Inr w' \<Longrightarrow> code_run K rm A w w'" "u_message U u c t w = Inr w' \<Longrightarrow> code_run K rm A w w'"
    "u_writeComplete U u c w = Inr w' \<Longrightarrow> code_run K rm A w w'" "u_highWaterMark U u c n w = Inr w' \<Longrightarrow> code_run K rm A w w'"
    "u_functor U u w = Inr w' \<Longrightarrow> code_run K rm A w w'" "u_threadInit U u l w = Inr w' \<Longrightarrow> code_run K rm A w w'"
  using assms by (auto simp: user_law_def intro!: api_run_run)

lemma call_connection_run:
  "user_law K U \<Longrightarrow> call_connection U c w = Inr w' \<Longrightarrow> code_run K rm A w w'"
  by (auto simp: call_connection_def split: option.splits dest: user_run(1))

section \<open>Functors\<close>

text \<open>When a functor may be called.\<close>

fun ready :: "Functor \<Rightarrow> 'z sworld_scheme \<Rightarrow> bool" where
  "ready (Bind_connectEstablished c) w \<longleftrightarrow> c \<in> live w \<and> tc_state (conns w c) = kConnecting"
| "ready (Bind_connectDestroyed c) w \<longleftrightarrow> c \<in> live w \<and> tc_state (conns w c) = kDisconnected"
| "ready (Bind_removeConnectionInLoop c) w \<longleftrightarrow> c \<in> live w \<and> tc_state (conns w c) = kDisconnected"
| "ready (Bind_sendInLoop c p n) w \<longleftrightarrow> (c \<in> live w \<longrightarrow> tc_state (conns w c) \<noteq> kConnecting)"
| "ready (Bind_shutdownInLoop c) w \<longleftrightarrow> (c \<in> live w \<longrightarrow> tc_state (conns w c) \<noteq> kConnecting)"
| "ready f w \<longleftrightarrow> True"

text \<open>The connections whose private handlers a functor runs.\<close>

fun functor_for :: "Functor \<Rightarrow> conn_id set" where
  "functor_for (Bind_connectEstablished c) = {c}"
| "functor_for (Bind_connectDestroyed c) = {c}"
| "functor_for (Bind_removeConnectionInLoop c) = {c}"
| "functor_for f = {}"

fun functor_rm :: "Functor \<Rightarrow> bool" where
  "functor_rm (Bind_connectDestroyed c) = True"
| "functor_rm f = False"

lemma connectEstablished_run:
  assumes law: "user_law K U" and r: "connectEstablished K U c w = Inr w'" and c: "c \<in> live w" "tc_state (conns w c) = kConnecting"
    and A: "c \<in> A"
  shows "code_run K rm A w w'"
proof -
  let ?v = "map_chan (ConnChan c) (Channel_tie c) (map_conn c (setState kConnected) w)"
  obtain x where x: "enableReading K (ConnChan c) ?v = Inr x" "call_connection U c x = Inr w'"
    using r by (auto simp: connectEstablished_def Let_def)
  have "code_run K rm A w ?v" using code_run_step [OF cs_establish [OF A c]] .
  moreover have "code_step K rm A ?v x" by (rule cs_reading [OF A _ _ x(1)]) (use c in \<open>simp_all add: setState_def\<close>)
  moreover have "code_run K rm A x w'" by (rule call_connection_run [OF law x(2)])
  ultimately show ?thesis using run_then code_run_trans by blast
qed

lemma connectDestroyed_run:
  assumes "connectDestroyed K U c w = Inr w'" "c \<in> live w" "tc_state (conns w c) = kDisconnected" "c \<in> A"
  shows "code_run K True A w w'"
  using assms by (auto simp: connectDestroyed_def intro!: code_run_step cs_remove)

lemma removeConnectionInLoop_run:
  assumes "c \<in> live w" "tc_state (conns w c) = kDisconnected" "c \<in> A"
  shows "code_run K rm A w (removeConnectionInLoop K c w)"
proof -
  let ?v = "LOG K INFO ''TcpServer::removeConnectionInLoop [%s] - connection %s \<newline>''
                [AStr (c_str (sv_name (server w))), AStr (c_str (tc_name (conns w c)))] w"
  have "code_run K rm A w ?v" by auto
  moreover have "code_step K rm A ?v (queueInLoop K (tc_loop (conns ?v c)) (Bind_connectDestroyed c)
      (map_server (\<lambda>s. s\<lparr>sv_connections := erase (tc_name (conns ?v c)) (sv_connections s)\<rparr>) ?v))"
    by (rule cs_erase) (use assms in auto)
  ultimately have "code_run K rm A w (queueInLoop K (tc_loop (conns ?v c)) (Bind_connectDestroyed c)
      (map_server (\<lambda>s. s\<lparr>sv_connections := erase (tc_name (conns ?v c)) (sv_connections s)\<rparr>) ?v))"
    by (rule run_then)
  then show ?thesis by (simp add: removeConnectionInLoop_def Let_def)
qed

lemma server_listen_run:
  assumes "server_listen K w = Inr w'"
  shows "code_run K rm A w w'"
proof -
  let ?a = "(sv_acceptor (server w))\<lparr>ac_listening := True\<rparr>"
  obtain v x where v: "Socket_listen K (ac_acceptSocket ?a) w = Inr v" "enableReading K AcceptChan v = Inr x"
    "w' = map_server (\<lambda>s. s\<lparr>sv_acceptor := ?a\<rparr>) x"
    using assms by (auto simp: server_listen_def Acceptor_listen_def Let_def)
  have "code_run K rm A w v" using v(1)
    by (auto simp: Socket_listen_def sys_listen_def LOG_FATAL_def Let_def split: sysret.splits)
  moreover have "code_step K rm A v x" by (rule cs_listen [OF v(2)])
  moreover have "server x = server w"
  proof -
    have "server v = server w" using v(1)
      by (auto simp: Socket_listen_def sys_listen_def LOG_FATAL_def Let_def split: sysret.splits)
    moreover have "tworld.more x = tworld.more v" using v(2) channel_ops(1) tworld_more_channel_op by blast
    ultimately show ?thesis using sworld_more(2) by metis
  qed
  moreover from this have "w' = map_server (\<lambda>s. s\<lparr>sv_acceptor := (sv_acceptor s)\<lparr>ac_listening := True\<rparr>\<rparr>) x"
    by (simp add: v(3) map_server_def)
  then have "code_step K rm A x w'" using cs_acceptor by metis
  ultimately show ?thesis by (blast intro: run_then)
qed

lemma run_functor_run:
  assumes "user_law K U" "run_functor K U f w = Inr w'" "ready f w"
  shows "code_run K (functor_rm f) (functor_for f) w w'"
proof (cases f)
  case (Bind_connectEstablished c)
  then show ?thesis using assms connectEstablished_run [OF assms(1)] by auto
next
  case (Bind_connectDestroyed c)
  then show ?thesis using assms connectDestroyed_run [of K U c w w' "{c}"] by simp
next
  case (Bind_sendInLoop c p n)
  then have "run_raw K f w = Inr w'" "c \<in> live w" using assms(2) by (auto split: if_splits)
  then show ?thesis using assms(3) Bind_sendInLoop by (intro run_raw_run) auto
next
  case (Bind_shutdownInLoop c)
  have "w' = shutdownInLoop K c w" using assms(2) Bind_shutdownInLoop by (auto split: if_splits)
  then show ?thesis unfolding Bind_shutdownInLoop by (simp add: shutdownInLoop_run)
next
  case (Bind_removeConnectionInLoop c)
  then show ?thesis using assms by (auto simp: removeConnectionInLoop_run)
next
  case Bind_Acceptor_listen
  then show ?thesis using assms server_listen_run by auto
qed (use assms user_run [OF assms(1)] in auto)

section \<open>Channel events\<close>

lemma removeConnection_run:
  assumes "removeConnection K U c w = Inr w'" "c \<in> live w" "tc_state (conns w c) = kDisconnected" "c \<in> A"
  shows "code_run K rm A w w'"
  using assms removeConnectionInLoop_run [OF assms(2,3,4)]
  by (auto simp: removeConnection_def runInLoop_def intro!: run_queue split: if_splits)

lemma keeps_disconnected:
  assumes "keeps rm A u w" "c \<in> live u" "tc_state (conns u c) = kDisconnected"
  shows "c \<in> live w \<and> tc_state (conns w c) = kDisconnected"
  using keepsD(1,4) [OF assms(1)] assms(2,3) by (auto simp: conn_keeps_def)

lemma handleClose_run:
  assumes laws: "user_law K U" "epoll_ctl_law K" and sd: "sound w" and r: "handleClose K U (run_close K U) c w = Inr w'"
    and c: "c \<in> live w" "tc_state (conns w c) \<noteq> kConnecting" "ch_index (chans w (ConnChan c)) \<noteq> kNew" "c \<in> A"
  shows "code_run K rm A w w'"
proof -
  let ?u = "LOG K INFO ''fd=%d state=%d \<newline>''
      [AInt (ch_fd (chans w (ConnChan c))), AInt (StateE_num (tc_state (conns w c)))] w"
  let ?v = "map_conn c (setState kDisconnected) ?u"
  obtain x y cb where x: "disableAll K (ConnChan c) ?v = Inr x" "call_connection U c x = Inr y"
    "tc_closeCallback (conns y c) = Some cb" "run_close K U cb c y = Inr w'"
    using r by (auto simp: handleClose_def Let_def split: option.splits)
  have v: "code_run K rm A w ?v"
    by (rule run_conn) (use c in \<open>auto simp: setState_def keeps_role_def\<close>)
  have st: "c \<in> live ?v" "tc_state (conns ?v c) = kDisconnected" using c(1) by (simp_all add: setState_def)
  have vx: "code_step K rm A ?v x" by (rule cs_off [OF c(4) st _ x(1)]) (use c in simp)
  have xy: "code_run K rm A x y" by (rule call_connection_run [OF laws(1) x(2)])
  have vy: "code_run K rm A ?v y" using code_run_trans [OF xy code_run_step [OF vx]] .
  have "sound ?v" using code_run_sound [OF v sd laws(2)] by blast
  then have sy: "keeps rm A ?v y" using code_run_sound [OF vy _ laws(2)] by blast
  note y = keeps_disconnected [OF sy st]
  have "removeConnection K U c y = Inr w'" using x(4) by (cases cb) simp
  then have "code_run K rm A y w'" by (rule removeConnection_run) (use y c(4) in auto)
  then show ?thesis using code_run_trans v vy by blast
qed

lemma handleError_run: "code_run K rm A u w \<Longrightarrow> code_run K rm A u (handleError K c w)"
  unfolding handleError_def sys_getsockopt_def Let_def prod.case by (intro run_log run_event) simp_all

lemma handleRead_run:
  assumes laws: "user_law K U" "epoll_ctl_law K" and sd: "sound w" and r: "handleRead K U (run_close K U) c t w = Inr w'"
    and c: "c \<in> live w" "tc_state (conns w c) \<noteq> kConnecting" "ch_index (chans w (ConnChan c)) \<noteq> kNew" "c \<in> A"
  shows "code_run K rm A w w'"
proof -
  obtain n e b v where rd: "readFd K (ch_fd (chans w (ConnChan c))) (tc_inputBuffer (conns w c)) w = Inr (n, e, b, v)"
    using r by (auto simp: handleRead_def)
  obtain q where v: "v = record_event (EvReadv (ch_fd (chans w (ConnChan c))) (readFd_iov (tc_inputBuffer (conns w c))) q) w"
    using readFd_world [OF rd] by blast
  let ?x = "map_conn c (\<lambda>t. t\<lparr>tc_inputBuffer := b\<rparr>) v"
  have x: "code_run K rm A w ?x" unfolding v
    by (rule run_conn [OF run_event]) (use c in \<open>auto simp: keeps_role_def\<close>)
  have res: "(if 0 < n
        then (case tc_messageCallback (conns ?x c) of
                None \<Rightarrow> Inl Bad_function_call | Some u \<Rightarrow> u_message U u c t ?x)
        else if n = 0 then handleClose K U (run_close K U) c ?x
        else Inr (handleError K c (LOG K ERROR ''TcpConnection::handleRead'' [] ?x))) = Inr w'"
    using r rd by (simp add: handleRead_def Let_def)
  consider u where "u_message U u c t ?x = Inr w'" | "handleClose K U (run_close K U) c ?x = Inr w'"
    | "w' = handleError K c (LOG K ERROR ''TcpConnection::handleRead'' [] ?x)"
    using res by (cases "0 < n"; cases "n = 0"; cases "tc_messageCallback (conns ?x c)") simp_all
  then have "code_run K rm A ?x w'"
  proof cases
    case 1
    then show ?thesis by (rule user_run(2) [OF laws(1)])
  next
    case 2
    have "sound ?x" using code_run_sound [OF x sd laws(2)] by blast
    then show ?thesis by (rule handleClose_run [OF laws _ 2]) (use c in \<open>auto simp: v\<close>)
  next
    case 3
    show ?thesis unfolding 3 by (intro handleError_run run_log cr_done)
  qed
  with x show ?thesis using code_run_trans by blast
qed

lemma handleWrite_run:
  assumes r: "handleWrite K c w = Inr w'" and c: "c \<in> live w" "ch_index (chans w (ConnChan c)) \<noteq> kNew" "c \<in> A"
  shows "code_run K rm A w w'"
proof (cases "isWriting (chans w (ConnChan c))")
  case False
  then show ?thesis using r by (auto simp: handleWrite_def)
next
  case writing: True
  obtain q v where v: "writeFd K (ch_fd (chans w (ConnChan c))) (tc_outputBuffer (conns w c)) w = Inr (q, v)"
    using r writing by (auto simp: handleWrite_def)
  then obtain d where d: "v = record_event (EvWrite (ch_fd (chans w (ConnChan c))) d q) w" using writeFd_world by blast
  have 1: "code_run K rm A w v" unfolding d by (rule run_event) auto
  let ?x = "\<lambda>n. map_conn c (\<lambda>t. t\<lparr>tc_outputBuffer := retrieve n (tc_outputBuffer t)\<rparr>) v"
  have x: "code_run K rm A w (?x n)" for n
    by (rule run_conn [OF 1]) (use c in \<open>auto simp: d keeps_role_def\<close>)
  show ?thesis
  proof (cases q)
    case (Fail e)
    then show ?thesis using r writing v 1 by (simp add: handleWrite_def)
  next
    case (Ok n)
    show ?thesis
    proof (cases "0 < n \<and> readableBytes (tc_outputBuffer (conns (?x n) c)) = 0")
      case False
      then have "w' = v \<or> w' = LOG K ERROR ''TcpConnection::handleWrite'' [] (?x n)"
        using r writing v Ok by (cases "0 < n") (auto simp: handleWrite_def Let_def)
      then show ?thesis using 1 x by auto
    next
      case True
      then obtain y where y: "disableWriting K (ConnChan c) (?x n) = Inr y"
        "w' = (let w = (case tc_writeCompeleteCallback (conns y c) of
                              Some u \<Rightarrow> queueInLoop K (tc_loop (conns y c)) (Bind_writeComplete u c) y
                            | None \<Rightarrow> y)
                   in if tc_state (conns w c) = kDisconnecting then shutdownInLoop K c w else w)"
        using r writing v Ok by (auto simp: handleWrite_def Let_def)
      have "code_step K rm A (?x n) y" by (rule cs_drained [OF c(3) _ _ y(1)]) (use c in \<open>simp_all add: d\<close>)
      with x have ry: "code_run K rm A w y" by (rule run_then)
      have "live y = live (?x n)" by (rule tworld_more(2) [OF channel_opD(5) [OF channel_ops(4) [OF y(1)]]])
      then have ly: "c \<in> live y" using c by (simp add: d)
      have "code_run K rm A w (case tc_writeCompeleteCallback (conns y c) of
                              Some u \<Rightarrow> queueInLoop K (tc_loop (conns y c)) (Bind_writeComplete u c) y
                            | None \<Rightarrow> y)"
        using ry ly by (auto intro!: run_queue split: option.split)
      then show ?thesis unfolding y(2) Let_def using shutdownInLoop_run by auto
    qed
  qed
qed

text \<open>A new connection: in the thread of its loop it is established at once, otherwise that is queued.\<close>

lemma newConnection_shape:
  assumes sd: "sound w" and n: "sv_nextConnId (server w) < INT_MAX"
  shows "\<exists>l x. l \<in> set (server_loops w) \<and> registered_conn l f w x \<and> server_ok (server x)
    \<and> newConnection K U f peer w = runInLoop K (run_functor K U) l (Bind_connectEstablished (next_conn w)) x"
proof -
  have ok: "server_ok (server w)" and base: "tp_baseLoop (sv_threadPool (server w)) = sv_loop (server w)"
    using soundD(3) [OF sd] by (simp_all add: table_ok_def)
  obtain l x where x: "l \<in> set (getAllLoops (sv_threadPool (server w)))" "registered_conn l f w x"
    "newConnection K U f peer w = runInLoop K (run_functor K U) l (Bind_connectEstablished (next_conn w)) x"
    using newConnection_runs [OF ok n] by blast
  have l: "l \<in> set (server_loops w)" using x(1) base by (auto simp: getAllLoops_def server_loops_def split: if_splits)
  obtain q where q: "getNextLoop (sv_threadPool (server w)) = Inr (l, q)"
    "server x = (server w)\<lparr>sv_threadPool := q, sv_nextConnId := sv_nextConnId (server w) + 1,
        sv_connections := (name_of (server w) (sv_nextConnId (server w)), next_conn w) # sv_connections (server w)\<rparr>"
    using x(2) by (auto simp: registered_conn_def Let_def)
  have "pool_inv q" using getNextLoop_total [of "sv_threadPool (server w)"] q(1) ok by (auto simp: server_ok_def)
  then have "server_ok (server x)" unfolding q(2) by (rule server_ok_insert [OF ok n])
  with l x(2,3) show ?thesis by blast
qed

lemma newConnection_registers:
  assumes sd: "sound w" and r: "newConnection K U f peer w = Inr w'"
  shows "\<exists>l x. l \<in> set (server_loops w) \<and> registered_conn l f w x \<and> server_ok (server x)
    \<and> next_conn w \<in> live x \<and> tc_state (conns x (next_conn w)) = kConnecting
    \<and> (connectEstablished K U (next_conn w) x = Inr w' \<or> w' = queueInLoop K l (Bind_connectEstablished (next_conn w)) x)"
proof -
  have n: "sv_nextConnId (server w) < INT_MAX"
    using r by (auto simp: newConnection_def incr_int_def Let_def split: if_splits)
  obtain l x where x: "l \<in> set (server_loops w)" "registered_conn l f w x" "server_ok (server x)"
    "newConnection K U f peer w = runInLoop K (run_functor K U) l (Bind_connectEstablished (next_conn w)) x"
    using newConnection_shape [OF sd n] by blast
  have new: "next_conn w \<in> live x" "tc_state (conns x (next_conn w)) = kConnecting"
    using x(2) by (auto simp: registered_conn_def Let_def)
  have "(if isInLoopThread l x then run_functor K U (Bind_connectEstablished (next_conn w)) x
      else Inr (queueInLoop K l (Bind_connectEstablished (next_conn w)) x)) = Inr w'"
    using r x(4) by (simp add: runInLoop_def)
  then have "connectEstablished K U (next_conn w) x = Inr w' \<or> w' = queueInLoop K l (Bind_connectEstablished (next_conn w)) x"
    by (cases "isInLoopThread l x") simp_all
  with x(1-3) new show ?thesis by blast
qed

lemma newConnection_run:
  assumes laws: "user_law K U" "epoll_ctl_law K" and sd: "sound w" and f: "spare_fd f w"
    and r: "newConnection K U f peer w = Inr w'"
  shows "\<exists>A \<subseteq> {next_conn w}. code_run K rm A w w'"
proof -
  let ?c = "next_conn w"
  obtain l x where x: "l \<in> set (server_loops w)" "registered_conn l f w x" "server_ok (server x)" "?c \<in> live x"
    "tc_state (conns x ?c) = kConnecting"
    "connectEstablished K U ?c x = Inr w' \<or> w' = queueInLoop K l (Bind_connectEstablished ?c) x"
    using newConnection_registers [OF sd r] by blast
  from x(6) show ?thesis
  proof
    assume here: "connectEstablished K U ?c x = Inr w'"
    have "code_step K rm {?c} w x" by (rule cs_new [OF f _ x(1-3)]) simp
    moreover have "code_run K rm {?c} x w'" using connectEstablished_run [OF laws(1) here x(4,5)] by simp
    ultimately have "code_run K rm {?c} w w'" by (rule code_run_trans [OF _ code_run_step, rotated])
    then show ?thesis by blast
  next
    assume there: "w' = queueInLoop K l (Bind_connectEstablished ?c) x"
    have "code_step K rm {} w w'" unfolding there by (rule cs_new_queued [OF f _ x(1-3)]) simp
    then show ?thesis using code_run_step by blast
  qed
qed

lemma accepted_spare:
  assumes "sound w" "f \<notin> open_fds (ktrace w)" "2 < f"
  shows "spare_fd f (record_event (EvAccept s (Ok (f, a))) w)"
proof -
  have fds: "fds_ok w" using assms(1) by (simp add: sound_def)
  have 1: "ch_fd (chans w ch) \<noteq> f" if "present w ch" for ch using fds that assms(2) unfolding fds_ok_def by metis
  have 2: "pl_epollfd p \<noteq> f" if "el_poller (loops w l) = Some p" for l p using fds that assms(2) unfolding fds_ok_def by metis
  have 3: "el_wakeupFd (loops w l) \<noteq> f" for l
  proof (cases "el_poller (loops w l) = None")
    case True
    then have "el_wakeupFd (loops w l) \<le> 2" using fds unfolding fds_ok_def by metis
    then show ?thesis using assms(3) by linarith
  next
    case False
    then have "ch_fd (chans w (WakeupChan l)) = el_wakeupFd (loops w l)" using fds unfolding fds_ok_def by metis
    then show ?thesis using 1 [of "WakeupChan l"] False by simp
  qed
  have "present (record_event (EvAccept s (Ok (f, a))) w) ch = present w ch" for ch by (cases ch) simp_all
  then show ?thesis using assms(3) 1 2 3 by (simp add: spare_fd_def)
qed

lemma Acceptor_handleRead_run:
  assumes laws: "user_law K U" "epoll_ctl_law K" "fresh_law K" and sd: "sound w"
    and r: "Acceptor_handleRead K (run_accept K U) a w = Inr w'"
  shows "\<exists>A \<subseteq> {next_conn w}. code_run K rm A w w'"
proof (cases "k_accept K (ktrace w) (ac_acceptSocket a)")
  case (Fail e)
  have "code_run K rm {} w w'"
    using r Fail by (auto simp: Acceptor_handleRead_def Socket_accept_def sys_accept_def Let_def split: if_splits
        intro!: run_log run_event)
  then show ?thesis by blast
next
  case (Ok q)
  obtain f sa where q: "q = (f, sa)" by (cases q)
  let ?v = "record_event (EvAccept (ac_acceptSocket a) (Ok (f, sa))) w"
  have f: "f \<notin> open_fds (ktrace w)" "2 < f" using laws(3) Ok q unfolding fresh_law_def by blast+
  have step: "code_step K rm A w ?v" for A by (rule cs_accept [OF f])
  have spare: "spare_fd f ?v" by (rule accepted_spare [OF sd f])
  have sv: "sound ?v" by (rule code_step_sound [OF step sd laws(2)])
  show ?thesis
  proof (cases "ac_newConnectionCallback a")
    case None
    then have "w' = sys_close f ?v" using r Ok
      by (auto simp: Acceptor_handleRead_def Socket_accept_def sys_accept_def q Let_def)
    then have "code_step K rm {} ?v w'" using cs_refuse [OF spare] by blast
    then show ?thesis using run_then [OF code_run_step [OF step]] by blast
  next
    case (Some cb)
    then obtain peer where "newConnection K U f peer ?v = Inr w'"
      using r Ok by (cases cb) (auto simp: Acceptor_handleRead_def Socket_accept_def sys_accept_def q Let_def)
    from newConnection_run [OF laws(1,2) sv spare this] obtain A where "A \<subseteq> {next_conn w}" "code_run K rm A ?v w'" by auto
    then show ?thesis using code_run_trans [OF _ code_run_step [OF step]] by blast
  qed
qed

section \<open>Dispatch\<close>

text \<open>When an event of a channel may be handled, and for which connections that runs private handlers.\<close>

fun armed :: "chan_id \<Rightarrow> 'z sworld_scheme \<Rightarrow> bool" where
  "armed (ConnChan c) w \<longleftrightarrow> c \<in> live w \<and> tc_state (conns w c) \<noteq> kConnecting \<and> ch_index (chans w (ConnChan c)) \<noteq> kNew"
| "armed ch w \<longleftrightarrow> present w ch"

fun event_for :: "chan_id \<Rightarrow> conn_id set" where
  "event_for (ConnChan c) = {c}"
| "event_for ch = {}"

fun event_fds :: "chan_id \<Rightarrow> 'z sworld_scheme \<Rightarrow> fd set" where
  "event_fds (WakeupChan l) w = {el_wakeupFd (loops w l)}"
| "event_fds ch w = {}"

definition own_run :: "bool \<Rightarrow> fd set \<Rightarrow> conn_id set \<Rightarrow> 'z sworld_scheme \<Rightarrow> 'z sworld_scheme \<Rightarrow> bool" where
  "own_run rm F B u w \<longleftrightarrow> sound w \<and> (\<exists>A. A \<inter> live u \<subseteq> B \<and> keeps rm A u w) \<and> reads_in F u w"

lemma code_run_own:
  assumes "code_run K rm A u w" "sound u" "epoll_ctl_law K" "A \<inter> live u \<subseteq> B"
  shows "own_run rm {} B u w"
  using code_run_sound [OF assms(1-3)] code_run_reads [OF assms(1)] assms(4) by (auto simp: own_run_def)

lemma own_run_reads: "own_run rm {} B u w \<Longrightarrow> own_run rm F B u w"
  by (auto simp: own_run_def intro: reads_in_mono)

definition fit :: "kernel \<Rightarrow> 'z sworld_scheme user \<Rightarrow> chan_id \<Rightarrow> 'z sworld_scheme \<Rightarrow> bool" where
  "fit K U ch w \<longleftrightarrow> user_law K U \<and> epoll_ctl_law K \<and> fresh_law K \<and> sound w \<and> armed ch w"

lemma armed_present: "armed ch w \<Longrightarrow> present w ch"
  by (cases ch) auto

lemma bound_callbacks:
  assumes "bound_ok ch (chans w ch)" "cb \<in> callbacks (chans w ch)"
  shows "(\<exists>l. ch = WakeupChan l \<and> cb = Bind_EventLoop_handleRead l) \<or> ch = AcceptChan \<and> cb = Bind_Acceptor_handleRead
    \<or> (\<exists>c. ch = ConnChan c \<and> cb \<in> {Bind_TcpConnection_handleRead c, Bind_TcpConnection_handleWrite c,
          Bind_TcpConnection_handleClose c, Bind_TcpConnection_handleError c})"
  using assms by (cases ch) (auto simp: callbacks_def)

lemma run_cb_run:
  assumes fit: "fit K U ch w" and cb: "cb \<in> callbacks (chans w ch)" and r: "run_cb K U cb t w = Inr w'"
  shows "own_run False (event_fds ch w) (event_for ch) w w'
    \<and> (ch \<noteq> AcceptChan \<longrightarrow> keeps False (event_for ch) w w')"
proof -
  have laws: "user_law K U" "epoll_ctl_law K" "fresh_law K" and sd: "sound w" and ar: "armed ch w"
    using fit by (simp_all add: fit_def)
  have "bound_ok ch (chans w ch)" by (rule soundD(2) [OF sd armed_present [OF ar]])
  from bound_callbacks [OF this cb] consider
      (wakeup) l where "ch = WakeupChan l" "cb = Bind_EventLoop_handleRead l"
    | (accept) "ch = AcceptChan" "cb = Bind_Acceptor_handleRead"
    | (conn) c where "ch = ConnChan c" "cb \<in> {Bind_TcpConnection_handleRead c, Bind_TcpConnection_handleWrite c,
          Bind_TcpConnection_handleClose c, Bind_TcpConnection_handleError c}" by blast
  then show ?thesis
  proof cases
    case wakeup
    then have w': "w' = EventLoop_handleRead K l w" using r by simp
    define q where "q = k_read K (ktrace w) (el_wakeupFd (loops w l)) 8"
    have q: "w' = record_event (EvRead (el_wakeupFd (loops w l)) 8 q) w
        \<or> (\<exists>args. w' = LOG K ERROR ''EventLoop::handleRead() reads %ld bytes intstead of 8 \<newline>'' args
            (record_event (EvRead (el_wakeupFd (loops w l)) 8 q) w))"
      unfolding w' EventLoop_handleRead_def sys_read_def Let_def prod.case q_def [symmetric] by auto
    let ?v = "record_event (EvRead (el_wakeupFd (loops w l)) 8 q) w"
    have "sound ?v" using sound_event [OF sd] by simp
    then have "sound w'" using q sound_log by auto
    moreover have "keeps False {} w w'"
      using q keeps_event [of False "{}" w] keeps_trans [OF keeps_event keeps_log] by auto
    moreover have "reads_in {el_wakeupFd (loops w l)} w ?v"
      unfolding reads_in_def by (rule exI [of _ "[EvRead (el_wakeupFd (loops w l)) 8 q]"]) (simp add: record_event_def)
    then have "reads_in {el_wakeupFd (loops w l)} w w'" using q by (auto simp: reads_in_def)
    ultimately show ?thesis using wakeup(1) by (auto simp: own_run_def)
  next
    case accept
    then have "Acceptor_handleRead K (run_accept K U) (sv_acceptor (server w)) w = Inr w'" using r by simp
    from Acceptor_handleRead_run [OF laws sd this] obtain A where A: "A \<subseteq> {next_conn w}" "code_run K False A w w'" by blast
    have "A \<inter> live w = {}" using A(1) next_conn_new [OF sd] by blast
    then show ?thesis using code_run_own [OF A(2) sd laws(2), of "{}"] accept(1) by simp
  next
    case conn
    then have c: "c \<in> live w" "tc_state (conns w c) \<noteq> kConnecting" "ch_index (chans w (ConnChan c)) \<noteq> kNew" "c \<in> {c}"
      using ar by simp_all
    from conn(2) have "code_run K False {c} w w'"
    proof (elim insertE emptyE)
      assume "cb = Bind_TcpConnection_handleRead c"
      then show ?thesis using r handleRead_run [OF laws(1,2) sd _ c] by simp
    next
      assume "cb = Bind_TcpConnection_handleWrite c"
      then show ?thesis using r handleWrite_run [OF _ c(1,3,4)] by simp
    next
      assume "cb = Bind_TcpConnection_handleClose c"
      then show ?thesis using r handleClose_run [OF laws(1,2) sd _ c] by simp
    next
      assume "cb = Bind_TcpConnection_handleError c"
      then show ?thesis using r handleError_run [OF cr_done] by auto
    qed
    note run = this
    have "keeps False {c} w w'" using code_run_sound [OF run sd laws(2)] by blast
    moreover have "own_run False {} {c} w w'" by (rule code_run_own [OF run sd laws(2)]) blast
    ultimately show ?thesis using conn(1) by simp
  qed
qed

lemma armed_later:
  assumes "keeps False A u w" "armed ch u"
  shows "armed ch w"
proof (cases ch)
  case (ConnChan c)
  then show ?thesis using assms keepsD(1,4) [OF assms(1)] by (auto simp: conn_keeps_def)
qed (use assms keeps_present [OF assms(1), of ch] in auto)

interpretation cr: callback_runner "run_cb K U" "fit K U" for K U
proof
  show "fit K U ch w' \<and> same_dispatch (chans w ch) (chans w' ch)"
    if "fit K U ch w" "cb \<in> callbacks (chans w ch)" "run_cb K U cb t w = Inr w'" for ch cb t and w w' :: "'a sworld_scheme"
  proof -
    have sd: "sound w" "epoll_ctl_law K" and ar: "armed ch w" using that(1) by (simp_all add: fit_def)
    from run_cb_run [OF that] obtain A where "sound w'" "keeps False A w w'" unfolding own_run_def by blast
    then show ?thesis using armed_later [OF _ ar] keepsD(8) [OF _ armed_present [OF ar]] that(1) by (auto simp: fit_def)
  qed
  show "fit K U ch (LOG K' lv fmt args w)" if "fit K U ch w" for ch K' lv fmt args and w :: "'a sworld_scheme"
    using that sound_log by (cases ch) (auto simp: fit_def)
qed

text \<open>A whole event.\<close>

definition kept :: "chan_id \<Rightarrow> 'z sworld_scheme \<Rightarrow> 'z sworld_scheme \<Rightarrow> bool" where
  "kept ch u w \<longleftrightarrow> keeps False (event_for ch) u w \<and> reads_in (event_fds ch u) u w"

lemma kept_refl: "kept ch w w"
  by (simp add: kept_def)

lemma kept_trans:
  assumes "kept ch u v" "kept ch v w"
  shows "kept ch u w"
proof -
  have "event_fds ch v = event_fds ch u"
    using assms(1) keepsD(5) [of False "event_for ch" u v] by (cases ch) (auto simp: kept_def loop_frame_def)
  then show ?thesis using assms keeps_trans reads_in_trans unfolding kept_def by metis
qed

lemma kept_log: "kept ch w (LOG K lv fmt args w)"
  unfolding kept_def by (simp add: keeps_log reads_in_same)

lemma handleEvent_run:
  assumes fit: "fit K U ch w" and r: "handleEvent K alive (run_cb K U) t ch w = Inr w'"
  shows "own_run False (event_fds ch w) (event_for ch) w w' \<and> armed ch w'"
proof (cases "ch = AcceptChan")
  case False
  have "kept ch w w' \<and> fit K U ch w'"
  proof (rule cr.dispatch_rel [OF r fit kept_refl kept_trans kept_log])
    show "kept ch v v'"
      if "fit K U ch v" "cb \<in> set (selected (chans w ch))" "run_cb K U cb t v = Inr v'" for cb v v'
    proof -
      have sd: "sound w" and ar: "armed ch w" using fit by (simp_all add: fit_def)
      have sv: "sound v" and av: "armed ch v" using that(1) by (simp_all add: fit_def)
      have "bound_ok ch (chans w ch)" by (rule soundD(2) [OF sd armed_present [OF ar]])
      then have "cb \<in> callbacks (chans v ch)"
        using soundD(2) [OF sv armed_present [OF av]] selected_callbacks [OF that(2)] False
        by (cases ch) (auto simp: callbacks_def)
      from run_cb_run [OF that(1) this that(3)] False show ?thesis by (simp add: kept_def own_run_def)
    qed
  qed
  then show ?thesis by (auto simp: own_run_def kept_def fit_def)
next
  case True
  have sd: "sound w" and ar: "armed ch w" using fit by (simp_all add: fit_def)
  have b: "ch_writeCallback (chans w ch) = None" "ch_closeCallback (chans w ch) = None"
    "ch_errorCallback (chans w ch) = None" "\<not> ch_tied (chans w ch)"
    "ch_readCallback (chans w ch) = Some Bind_Acceptor_handleRead"
    using soundD(2) [OF sd armed_present [OF ar]] True by auto
  let ?v = "LOG K INFO ''Channel handleEvent revents : %d\<newline>'' [AInt (sint (ch_revents (chans w ch)))] w"
  have v: "fit K U ch ?v" by (rule cr.fit_log [OF fit])
  have g: "foldE (\<lambda>cb. run_cb K U cb t) (selected (chans w ch)) ?v = Inr w'"
    using r b(4) cr.guarded_dispatch [OF fit] by (simp add: handleEvent_def)
  have sel: "selected (chans w ch) = (if has_bits (ch_revents (chans w ch)) (EPOLLIN OR EPOLLPRI) then [Bind_Acceptor_handleRead] else [])"
    by (simp add: selected_def b Let_def)
  have lv: "own_run False {} {} w ?v"
    using sound_log [OF sd] keeps_log [of False "{}" w] unfolding own_run_def by (auto simp: reads_in_same)
  show ?thesis
  proof (cases "has_bits (ch_revents (chans w ch)) (EPOLLIN OR EPOLLPRI)")
    case False
    then have "w' = ?v" using g sel by simp
    then show ?thesis using v lv True by (simp add: fit_def)
  next
    case sel': True
    then have x: "run_cb K U Bind_Acceptor_handleRead t ?v = Inr w'" using g sel by simp
    have cb: "Bind_Acceptor_handleRead \<in> callbacks (chans ?v ch)" using b(5) by (simp add: callbacks_def)
    have o: "own_run False {} {} ?v w'" using run_cb_run [OF v cb x] True by simp
    then obtain A where A: "A \<inter> live ?v \<subseteq> {}" "keeps False A ?v w'" "reads_in {} ?v w'" "sound w'"
      unfolding own_run_def by blast
    have "keeps False A w w'" by (rule keeps_trans [OF keeps_log A(2)])
    moreover have "reads_in {} w w'" by (rule reads_in_trans [OF reads_in_same A(3)]) simp
    moreover have "armed ch w'" using cr.run_same [OF v cb x] by (simp add: fit_def)
    ultimately show ?thesis using A True by (auto simp: own_run_def)
  qed
qed

end
