(* ===== verification/System.thy ===== *)
theory System
  imports Handlers
begin

text \<open>
  The running server: its loops, each in its own thread, interleaved.  A step is a poll, the handling of one
  event, the taking of a batch, one functor of it, the end of the batch with the release of its references, or
  one call of a thread outside the loops.  The invariant \<open>sys_ok\<close> holds of every reachable configuration.
\<close>

section \<open>Configurations and steps\<close>

text \<open>Where a loop is in the body of its \<^verbatim>\<open>while\<close>, and what it has left to do there.\<close>

datatype phase = Polling | Dispatching "chan_id list" | Calling "Functor list"

type_synonym phases = "loop_id \<Rightarrow> phase"

definition in_thread :: "loop_id \<Rightarrow> 'z sworld_scheme \<Rightarrow> 'z sworld_scheme" where
  "in_thread l w = w\<lparr>cur_tid := el_threadId (loops w l)\<rparr>"

inductive sys_step :: "kernel \<Rightarrow> 'z sworld_scheme user \<Rightarrow> phases \<times> 'z sworld_scheme \<Rightarrow> phases \<times> 'z sworld_scheme \<Rightarrow> bool"
  for K U where
  ss_poll: "l \<in> set (server_loops w) \<Longrightarrow> ph l = Polling \<Longrightarrow> \<not> el_quit (loops w l) \<Longrightarrow> el_poller (loops w l) = Some p \<Longrightarrow>
    EPollPoller_poll K kPollTimeMs p (map_loop l (\<lambda>e. e\<lparr>el_activeChannels := []\<rparr>) (in_thread l w)) = Inr (t, active, p', z) \<Longrightarrow>
    sys_step K U (ph, w) (ph(l := Dispatching active),
      map_loop l (\<lambda>e. e\<lparr>el_poller := Some p', el_pollReturnTime := t, el_activeChannels := active\<rparr>) z)"
| ss_event: "l \<in> set (server_loops w) \<Longrightarrow> ph l = Dispatching (ch # chs) \<Longrightarrow>
    handleEvent K alive (run_cb K U) (el_pollReturnTime (loops w l)) ch (in_thread l w) = Inr w' \<Longrightarrow>
    sys_step K U (ph, w) (ph(l := Dispatching chs), w')"
| ss_batch: "l \<in> set (server_loops w) \<Longrightarrow> ph l = Dispatching [] \<Longrightarrow>
    sys_step K U (ph, w) (ph(l := Calling (el_pendingFunctors (loops w l))), take_batch l (in_thread l w))"
| ss_functor: "l \<in> set (server_loops w) \<Longrightarrow> ph l = Calling (f # fs) \<Longrightarrow>
    run_functor K U f (in_thread l w) = Inr w' \<Longrightarrow> sys_step K U (ph, w) (ph(l := Calling fs), w')"
| ss_release: "l \<in> set (server_loops w) \<Longrightarrow> ph l = Calling [] \<Longrightarrow>
    release K (el_functors (loops w l)) (end_batch l (in_thread l w)) = Inr w' \<Longrightarrow>
    sys_step K U (ph, w) (ph(l := Polling), w')"
| ss_outside: "t \<notin> (\<lambda>l. el_threadId (loops w l)) ` set (server_loops w) \<Longrightarrow> api_step K (w\<lparr>cur_tid := t\<rparr>) w' \<Longrightarrow> sys_step K U (ph, w) (ph, w')"

text \<open>Whether an eventfd has been written since it was last read.\<close>

fun signal_after :: "fd \<Rightarrow> kevent \<Rightarrow> bool \<Rightarrow> bool" where
  "signal_after f (EvWrite g d r) s \<longleftrightarrow> g = f \<or> s"
| "signal_after f (EvRead g n r) s \<longleftrightarrow> g \<noteq> f \<and> s"
| "signal_after f e s \<longleftrightarrow> s"

definition signalled :: "fd \<Rightarrow> ktrace \<Rightarrow> bool" where
  "signalled f tr \<longleftrightarrow> fold (signal_after f) tr False"

definition woken :: "loop_id \<Rightarrow> 'z lworld_scheme \<Rightarrow> bool" where
  "woken l w \<longleftrightarrow> signalled (el_wakeupFd (loops w l)) (ktrace w)"

text \<open>Every loop has a thread of its own.\<close>

definition own_threads :: "'z sworld_scheme \<Rightarrow> bool" where
  "own_threads w \<longleftrightarrow> inj_on (\<lambda>l. el_threadId (loops w l)) (set (server_loops w))"

text \<open>The poller of every loop watches the loop's eventfd for reading.\<close>

definition watched :: "'z sworld_scheme \<Rightarrow> bool" where
  "watched w \<longleftrightarrow> (\<forall>l \<in> set (server_loops w). ch_index (chans w (WakeupChan l)) = kAdded
     \<and> ch_events (chans w (WakeupChan l)) = kReadEvent)"

text \<open>The server has been started: no connection yet, every loop before its first poll.\<close>

definition initial :: "phases \<times> 'z sworld_scheme \<Rightarrow> bool" where
  "initial s \<longleftrightarrow> (case s of (ph, w) \<Rightarrow> sound w \<and> live w = {} \<and> strings_ok w \<and> own_threads w \<and> watched w
     \<and> (\<forall>l. ph l = Polling \<and> el_functors (loops w l) = [] \<and> \<not> el_callingPendingFunctors (loops w l))
     \<and> (\<forall>l \<in> set (server_loops w). el_pendingFunctors (loops w l) \<noteq> [] \<longrightarrow> woken l w)
     \<and> (\<forall>l. \<forall>f \<in> set (el_pendingFunctors (loops w l)). f = Bind_Acceptor_listen \<or> (\<exists>u. f = User_functor u)))"

inductive reachable :: "kernel \<Rightarrow> 'z sworld_scheme user \<Rightarrow> phases \<times> 'z sworld_scheme \<Rightarrow> bool" for K U where
  re_start: "initial s \<Longrightarrow> reachable K U s"
| re_step: "reachable K U s \<Longrightarrow> sys_step K U s s' \<Longrightarrow> reachable K U s'"

section \<open>The invariant\<close>

text \<open>The functors a loop has still to call, in their order, and the events it has still to handle.\<close>

fun todo :: "phase \<Rightarrow> Functor list" where
  "todo (Calling fs) = fs"
| "todo ph = []"

fun events :: "phase \<Rightarrow> chan_id list" where
  "events (Dispatching chs) = chs"
| "events ph = []"

definition work :: "phases \<Rightarrow> 'z sworld_scheme \<Rightarrow> loop_id \<Rightarrow> Functor list" where
  "work ph w l = todo (ph l) @ el_pendingFunctors (loops w l)"

definition removed :: "conn_id \<Rightarrow> 'z sworld_scheme \<Rightarrow> bool" where
  "removed c w \<longleftrightarrow> ch_index (chans w (ConnChan c)) = kNew \<and> tc_state (conns w c) = kDisconnected"

text \<open>A connection is in the table, or its destruction is in the queue of its loop, or has been run.\<close>

definition accounted :: "phases \<Rightarrow> 'z sworld_scheme \<Rightarrow> conn_id \<Rightarrow> bool" where
  "accounted ph w c \<longleftrightarrow> c \<in> snd ` set (sv_connections (server w))
     \<or> Bind_connectDestroyed c \<in> set (work ph w (tc_loop (conns w c))) \<or> removed c w"

definition batch_ok :: "phase \<Rightarrow> EventLoop \<Rightarrow> bool" where
  "batch_ok p e \<longleftrightarrow> (case p of
       Calling fs \<Rightarrow> el_callingPendingFunctors e \<and> (\<exists>begun. el_functors e = begun @ fs)
     | _ \<Rightarrow> \<not> el_callingPendingFunctors e \<and> el_functors e = [])"

text \<open>What is queued will be seen: by the batch that ends the dispatch, or by a poll that the eventfd ends.\<close>

definition seen :: "phase \<Rightarrow> loop_id \<Rightarrow> 'z lworld_scheme \<Rightarrow> bool" where
  "seen p l w \<longleftrightarrow> (\<exists>chs. p = Dispatching chs) \<or> el_pendingFunctors (loops w l) = [] \<or> woken l w"

definition sys_core :: "phases \<times> 'z sworld_scheme \<Rightarrow> bool" where
  "sys_core s \<longleftrightarrow> (case s of (ph, w) \<Rightarrow> sound w \<and> own_threads w \<and> watched w
     \<and> (\<forall>l \<in> set (server_loops w). seen (ph l) l w)
     \<and> (\<forall>l. batch_ok (ph l) (loops w l))
     \<and> (\<forall>l. \<forall>f \<in> set (work ph w l). ready f w)
     \<and> (\<forall>l c. count_list (work ph w l) (Bind_connectEstablished c) \<le> 1)
     \<and> (\<forall>l. \<forall>ch \<in> set (events (ph l)). armed ch w \<and> ch_loop (chans w ch) = l)
     \<and> (\<forall>c \<in> live w. accounted ph w c))"

definition sys_ok :: "phases \<times> 'z sworld_scheme \<Rightarrow> bool" where
  "sys_ok s \<longleftrightarrow> sys_core s \<and> (\<forall>c \<in> live (snd s). referenced c (snd s))"

lemma sys_okD:
  assumes "sys_ok (ph, w)"
  shows "sound w" "batch_ok (ph l) (loops w l)" "f \<in> set (work ph w l) \<Longrightarrow> ready f w"
    "count_list (work ph w l) (Bind_connectEstablished c) \<le> 1"
    "ch \<in> set (events (ph l)) \<Longrightarrow> armed ch w" "ch \<in> set (events (ph l)) \<Longrightarrow> ch_loop (chans w ch) = l"
    "c \<in> live w \<Longrightarrow> accounted ph w c" "c \<in> live w \<Longrightarrow> referenced c w" "own_threads w"
    "l \<in> set (server_loops w) \<Longrightarrow> seen (ph l) l w" "watched w"
  using assms by (auto simp: sys_ok_def sys_core_def)

lemma sys_okI:
  assumes "sound w" "\<And>l. batch_ok (ph l) (loops w l)" "\<And>l f. f \<in> set (work ph w l) \<Longrightarrow> ready f w"
    "\<And>l c. count_list (work ph w l) (Bind_connectEstablished c) \<le> 1"
    "\<And>l ch. ch \<in> set (events (ph l)) \<Longrightarrow> armed ch w \<and> ch_loop (chans w ch) = l"
    "\<And>c. c \<in> live w \<Longrightarrow> accounted ph w c" "\<And>c. c \<in> live w \<Longrightarrow> referenced c w" "own_threads w"
    "\<And>l. l \<in> set (server_loops w) \<Longrightarrow> seen (ph l) l w" "watched w"
  shows "sys_ok (ph, w)"
  using assms by (auto simp: sys_ok_def sys_core_def)

lemma sys_coreD:
  assumes "sys_core (ph, w)"
  shows "sound w" "batch_ok (ph l) (loops w l)" "f \<in> set (work ph w l) \<Longrightarrow> ready f w"
    "count_list (work ph w l) (Bind_connectEstablished c) \<le> 1"
    "ch \<in> set (events (ph l)) \<Longrightarrow> armed ch w" "ch \<in> set (events (ph l)) \<Longrightarrow> ch_loop (chans w ch) = l"
    "c \<in> live w \<Longrightarrow> accounted ph w c" "own_threads w"
    "l \<in> set (server_loops w) \<Longrightarrow> seen (ph l) l w" "watched w"
  using assms by (auto simp: sys_core_def)

lemma sys_coreI:
  assumes "sound w" "\<And>l. batch_ok (ph l) (loops w l)" "\<And>l f. f \<in> set (work ph w l) \<Longrightarrow> ready f w"
    "\<And>l c. count_list (work ph w l) (Bind_connectEstablished c) \<le> 1"
    "\<And>l ch. ch \<in> set (events (ph l)) \<Longrightarrow> armed ch w \<and> ch_loop (chans w ch) = l"
    "\<And>c. c \<in> live w \<Longrightarrow> accounted ph w c" "own_threads w"
    "\<And>l. l \<in> set (server_loops w) \<Longrightarrow> seen (ph l) l w" "watched w"
  shows "sys_core (ph, w)"
  using assms by (auto simp: sys_core_def)

lemma initial_ok:
  assumes "initial (ph, w)"
  shows "sys_ok (ph, w)"
proof (rule sys_okI)
  have q: "f = Bind_Acceptor_listen \<or> (\<exists>u. f = User_functor u)" if "f \<in> set (el_pendingFunctors (loops w l))" for f l
    using assms that by (auto simp: initial_def)
  have w: "work ph w l = el_pendingFunctors (loops w l)" for l using assms by (auto simp: initial_def work_def)
  show "ready f w" if "f \<in> set (work ph w l)" for f l using q that unfolding w by fastforce
  show "count_list (work ph w l) (Bind_connectEstablished c) \<le> 1" for l c
  proof -
    have "Bind_connectEstablished c \<notin> set (work ph w l)" using q unfolding w by fastforce
    then show ?thesis by (simp add: count_list_0_iff)
  qed
qed (use assms in \<open>auto simp: initial_def batch_ok_def seen_def\<close>)

text \<open>What the functors still to be called say of the loop they are in.\<close>

lemma work_functor:
  assumes "sys_ok (ph, w)" "f \<in> set (work ph w l)"
  shows "functor_ok l f w"
proof -
  have "f \<in> set (el_pendingFunctors (loops w l) @ el_functors (loops w l))"
    using assms(2) sys_okD(2) [OF assms(1), of l] by (cases "ph l") (auto simp: work_def batch_ok_def)
  then show ?thesis using soundD(4) [OF sys_okD(1) [OF assms(1)]] by (simp add: queues_ok_def)
qed

text \<open>The running thread is no part of it.\<close>

lemma present_thread [simp]: "present (w\<lparr>cur_tid := t\<rparr>) ch = present w ch"
  by (cases ch) simp_all

lemma poller_inv_thread [simp]: "poller_inv p (w\<lparr>cur_tid := t\<rparr>) = poller_inv p w"
proof -
  have "expected_interest p (w\<lparr>cur_tid := t\<rparr>) = expected_interest p w"
    by (rule ext) (simp add: expected_interest_def split: option.split)
  then show ?thesis by (simp add: poller_inv_def)
qed

lemma functor_thread [simp]: "functor_ok l f (w\<lparr>cur_tid := t\<rparr>) = functor_ok l f w"
  by (cases f) (simp_all add: functor_ok_def)

lemma ready_thread [simp]: "ready f (w\<lparr>cur_tid := t\<rparr>) = ready f w"
  by (cases f) simp_all

lemma armed_thread [simp]: "armed ch (w\<lparr>cur_tid := t\<rparr>) = armed ch w"
  by (cases ch) simp_all

lemma server_loops_thread [simp]: "server_loops (w\<lparr>cur_tid := t\<rparr>) = server_loops w"
  by (simp add: server_loops_def)

lemma sound_thread [simp]: "sound (w\<lparr>cur_tid := t\<rparr>) = sound w"
  by (simp add: sound_def fds_ok_def regs_def conns_ok_def conn_ok_def table_ok_def queues_ok_def)

lemma sys_ok_thread [simp]: "sys_ok (ph, w\<lparr>cur_tid := t\<rparr>) = sys_ok (ph, w)"
  by (simp add: sys_ok_def sys_core_def work_def accounted_def referenced_def removed_def own_threads_def watched_def seen_def woken_def)

section \<open>Steps that run code\<close>

lemma ready_later:
  assumes k: "keeps rm A u w" and f: "ready f u" "functor_ok l f u" "\<And>c. f = Bind_connectEstablished c \<Longrightarrow> c \<notin> A"
  shows "ready f w"
proof (cases f)
  case (Bind_sendInLoop c p n)
  then have "c < next_conn u" using f(2) by (simp add: functor_ok_def)
  then have "c \<in> live w \<Longrightarrow> c \<in> live u" using keepsD(3) [OF k, of c] by fastforce
  then show ?thesis using f(1) Bind_sendInLoop keepsD(4) [OF k, of c] by (auto simp: conn_keeps_def)
next
  case (Bind_shutdownInLoop c)
  then have "c < next_conn u" using f(2) by (simp add: functor_ok_def)
  then have "c \<in> live w \<Longrightarrow> c \<in> live u" using keepsD(3) [OF k, of c] by fastforce
  then show ?thesis using f(1) Bind_shutdownInLoop keepsD(4) [OF k, of c] by (auto simp: conn_keeps_def)
next
  case (Bind_connectEstablished c)
  then show ?thesis using f(1,3) keepsD(1) [OF k] keepsD(4) [OF k, of c] by (auto simp: conn_keeps_def)
next
  case (Bind_connectDestroyed c)
  then show ?thesis using f(1) keepsD(1) [OF k] keepsD(4) [OF k, of c] by (auto simp: conn_keeps_def)
next
  case (Bind_removeConnectionInLoop c)
  then show ?thesis using f(1) keepsD(1) [OF k] keepsD(4) [OF k, of c] by (auto simp: conn_keeps_def)
qed simp_all

lemma queued_ready: "queued A u w f \<Longrightarrow> ready f w"
  by (cases f) auto

lemma count_list_one:
  assumes "count_list xs x \<le> 1" "count_list ys x \<le> 1" "x \<notin> set xs \<or> x \<notin> set ys"
  shows "count_list (xs @ ys) x \<le> 1"
  using assms by (auto simp: count_list_0_iff)

lemma armed_keeps:
  assumes k: "keeps rm A u w" and ch: "armed ch u" "\<And>c. rm \<Longrightarrow> ch = ConnChan c \<Longrightarrow> c \<notin> A"
  shows "armed ch w"
proof (cases ch)
  case (ConnChan c)
  then show ?thesis using ch keepsD(1) [OF k] keepsD(4) [OF k, of c] by (auto simp: conn_keeps_def)
qed (use ch keeps_present [OF k, of ch] in auto)

lemma signalled_append:
  assumes "\<forall>n r. EvRead f n r \<notin> set b"
  shows "signalled f (a @ b) \<longleftrightarrow> signalled f a \<or> (\<exists>d r. EvWrite f d r \<in> set b)"
proof -
  have "fold (signal_after f) b s \<longleftrightarrow> s \<or> (\<exists>d r. EvWrite f d r \<in> set b)" for s
    using assms
  proof (induction b arbitrary: s)
    case (Cons e b)
    then show ?case by (cases e) auto
  qed simp
  then show ?thesis by (simp add: signalled_def)
qed

text \<open>A step that runs code of loop threads: it begins some functors, handles some events, and runs.\<close>

lemma seen_later:
  assumes fr: "loop_frame k u w" and rd: "reads_in F u w" "el_wakeupFd (loops u k) \<notin> F"
    and sn: "seen p k u" "\<nexists>chs. p = Dispatching chs"
    and th: "el_callingPendingFunctors (loops u k) \<or> cur_tid u \<noteq> el_threadId (loops u k)"
  shows "seen p' k w"
proof -
  let ?f = "el_wakeupFd (loops u k)"
  obtain tr new where tr: "ktrace w = ktrace u @ tr"
    "el_pendingFunctors (loops w k) = el_pendingFunctors (loops u k) @ new" "new \<noteq> [] \<longrightarrow> wakes k u tr"
    using fr th by (auto simp: loop_frame_def isInLoopThread_def)
  have "el_wakeupFd (loops w k) = ?f" using fr by (simp add: loop_frame_def)
  then have w: "woken k w \<longleftrightarrow> signalled ?f (ktrace u @ tr)" by (simp add: woken_def tr(1))
  have "\<forall>n r. EvRead ?f n r \<notin> set tr" using rd tr(1) by (auto simp: reads_in_def)
  from signalled_append [OF this, of "ktrace u"] w
  have "woken k w \<longleftrightarrow> woken k u \<or> (\<exists>d r. EvWrite ?f d r \<in> set tr)" by (simp add: woken_def)
  then show ?thesis using sn tr(2,3) by (cases "new = []") (auto simp: seen_def wakes_def)
qed

lemma run_step_ok:
  assumes ok: "sys_ok (ph, u)" and run: "own_run rm F B u w"
    and todo: "\<And>k. todo (ph k) = begun k @ todo (ph' k)" and ev: "\<And>k. set (events (ph' k)) \<subseteq> set (events (ph k))"
    and batch: "\<And>k. batch_ok (ph' k) (loops u k)"
    and est: "\<And>k c. Bind_connectEstablished c \<in> set (work ph' u k) \<Longrightarrow> c \<notin> B"
    and reg: "\<And>k c. rm \<Longrightarrow> c \<in> B \<Longrightarrow> ConnChan c \<notin> set (events (ph' k))"
    and gone: "\<And>k c. Bind_connectDestroyed c \<in> set (begun k) \<Longrightarrow> removed c w"
    and wake: "\<And>k. k \<in> set (server_loops u) \<Longrightarrow> \<nexists>chs. ph' k = Dispatching chs \<Longrightarrow> (\<nexists>chs. ph k = Dispatching chs)
      \<and> el_wakeupFd (loops u k) \<notin> F \<and> (el_callingPendingFunctors (loops u k) \<or> cur_tid u \<noteq> el_threadId (loops u k))"
  shows "sys_ok (ph', w)"
proof -
  obtain A where A: "A \<inter> live u \<subseteq> B" and k: "keeps rm A u w" and sd: "sound w" and rd: "reads_in F u w"
    using run by (auto simp: own_run_def)
  note K = keepsD [OF k] and ok' = sys_okD [OF ok]
  have role: "c \<in> live u \<Longrightarrow> tc_loop (conns w c) = tc_loop (conns u c)" for c
    using K(4) [of c] by (simp add: conn_keeps_def keeps_role_def)
  have sub: "set (work ph' u l) \<subseteq> set (work ph u l)" for l using todo [of l] by (auto simp: work_def)
  have cnt: "count_list (work ph' u l) x \<le> count_list (work ph u l) x" for l x using todo [of l] by (simp add: work_def)
  have new: "\<exists>n. work ph' w l = work ph' u l @ n \<and> (\<forall>f \<in> set n. queued A u w f)
      \<and> (\<forall>c. count_list n (Bind_connectEstablished c) \<le> 1)" for l
    using K(6) [of l] by (auto simp: work_def appends_def)
  have grow: "set (work ph' u l) \<subseteq> set (work ph' w l)" for l using new [of l] by auto
  have frame: "el_functors (loops w l) = el_functors (loops u l)" "el_threadId (loops w l) = el_threadId (loops u l)"
    "el_callingPendingFunctors (loops w l) = el_callingPendingFunctors (loops u l)" for l
    using K(5) [of l] by (simp_all add: loop_frame_def)
  have drop: "dropped A w c \<Longrightarrow> Bind_connectDestroyed c \<in> set (work ph' w (tc_loop (conns w c)))" for c
    by (simp add: dropped_def work_def)
  show ?thesis
  proof (rule sys_okI)
    show "sound w" by (rule sd)
    show "batch_ok (ph' l) (loops w l)" for l using batch [of l] by (simp add: batch_ok_def frame split: phase.splits)
    show "own_threads w" using ok'(9) by (simp add: own_threads_def K(10) frame)
    show "watched w" using ok'(11) by (simp add: watched_def K(10,14))
    show "ready f w" if "f \<in> set (work ph' w l)" for f l
    proof (cases "f \<in> set (work ph' u l)")
      case True
      then have f: "f \<in> set (work ph u l)" using sub by blast
      have "c \<notin> A" if "f = Bind_connectEstablished c" for c
        using est [of c l] True that ok'(3) [OF f] A by auto
      then show ?thesis using ready_later [OF k ok'(3) [OF f] work_functor [OF ok f]] by blast
    next
      case False
      then have "queued A u w f" using that new [of l] by auto
      then show ?thesis by (rule queued_ready)
    qed
    show "count_list (work ph' w l) (Bind_connectEstablished c) \<le> 1" for l c
    proof -
      obtain n where n: "work ph' w l = work ph' u l @ n" "\<forall>f \<in> set n. queued A u w f"
        "count_list n (Bind_connectEstablished c) \<le> 1" using new [of l] by blast
      have "Bind_connectEstablished c \<notin> set (work ph' u l) \<or> Bind_connectEstablished c \<notin> set n"
        using n(2) ok'(3) sub by fastforce
      then show ?thesis unfolding n(1) by (rule count_list_one [OF order.trans [OF cnt ok'(4)] n(3)])
    qed
    show "armed ch w \<and> ch_loop (chans w ch) = l" if "ch \<in> set (events (ph' l))" for l ch
    proof -
      have e: "armed ch u" "ch_loop (chans u ch) = l" using that ev ok'(5,6) by blast+
      have "c \<notin> A" if "rm" "ch = ConnChan c" for c
        using reg [of c l] that \<open>ch \<in> set (events (ph' l))\<close> e(1) A by auto
      then show ?thesis using armed_keeps [OF k e(1)] K(9) [OF armed_present [OF e(1)]] e(2) by auto
    qed
    show "accounted ph' w c" if c: "c \<in> live w" for c
    proof (cases "c \<in> live u")
      case False
      then show ?thesis using K(13) [OF c] drop by (auto simp: accounted_def)
    next
      case True
      from ok'(7) [OF True] consider "c \<in> snd ` set (sv_connections (server u))"
        | "Bind_connectDestroyed c \<in> set (work ph u (tc_loop (conns u c)))" | "removed c u"
        by (auto simp: accounted_def)
      then show ?thesis
      proof cases
        case 1
        then obtain x where "x \<in> set (sv_connections (server u))" "snd x = c" by auto
        then show ?thesis using K(11) [of x] True drop by (auto simp: accounted_def)
      next
        case 2
        then have "Bind_connectDestroyed c \<in> set (begun (tc_loop (conns u c))) \<or>
            Bind_connectDestroyed c \<in> set (work ph' u (tc_loop (conns u c)))"
          using todo by (auto simp: work_def)
        then show ?thesis using gone grow role [OF True] by (auto simp: accounted_def)
      next
        case 3
        then show ?thesis using K(4) [OF True] by (auto simp: removed_def accounted_def conn_keeps_def)
      qed
    qed
    show "referenced c w" if c: "c \<in> live w" for c
    proof -
      have held: "referenced c w" if "dropped A w c"
      proof -
        have "tc_loop (conns w c) \<in> set (server_loops w)" using soundD(1) [OF sd c] by (simp add: conn_ok_def)
        then show ?thesis using that by (force simp: referenced_def held_by_def dropped_def)
      qed
      show ?thesis
      proof (cases "c \<in> live u")
        case False
        then show ?thesis using K(13) [OF c] held by (auto simp: referenced_def)
      next
        case True
        from ok'(8) [OF True] consider "c \<in> snd ` set (sv_connections (server u))"
          | l where "l \<in> set (server_loops u)" "held_by c (loops u l)" by (auto simp: referenced_def)
        then show ?thesis
        proof cases
          case 1
          then obtain x where "x \<in> set (sv_connections (server u))" "snd x = c" by auto
          then show ?thesis using K(11) [of x] True held by (auto simp: referenced_def)
        next
          case 2
          have "held_by c (loops w l)" using 2(2) K(6) [of l] by (auto simp: held_by_def appends_def frame)
          then show ?thesis using 2(1) by (auto simp: referenced_def K(10))
        qed
      qed
    qed
    show "seen (ph' l) l w" if "l \<in> set (server_loops w)" for l
    proof (cases "\<exists>chs. ph' l = Dispatching chs")
      case True
      then show ?thesis by (simp add: seen_def)
    next
      case False
      have l: "l \<in> set (server_loops u)" using that K(10) by simp
      from wake [OF l False] seen_later [OF K(5) rd _ ok'(10) [OF l]] show ?thesis by blast
    qed
  qed
qed

section \<open>Polling, batches\<close>

text \<open>What the descriptors say of a poller is its epoll descriptor.\<close>

definition epoll_of :: "loop_id \<Rightarrow> 'z lworld_scheme \<Rightarrow> fd option" where
  "epoll_of l w = map_option pl_epollfd (el_poller (loops w l))"

lemma fds_ok_epoll:
  "fds_ok w \<longleftrightarrow>
     (\<forall>ch. present w ch \<longrightarrow> ch_fd (chans w ch) \<in> open_fds (ktrace w) \<and> 2 < ch_fd (chans w ch))
   \<and> (\<forall>ch ch'. present w ch \<longrightarrow> present w ch' \<longrightarrow> ch_fd (chans w ch) = ch_fd (chans w ch') \<longrightarrow> ch = ch')
   \<and> (\<forall>ch. ch_index (chans w ch) \<noteq> kNew \<longrightarrow> present w ch)
   \<and> (\<forall>l. if epoll_of l w = None then el_wakeupFd (loops w l) \<le> 2
          else ch_fd (chans w (WakeupChan l)) = el_wakeupFd (loops w l))
   \<and> (\<forall>l e. epoll_of l w = Some e \<longrightarrow> e \<in> open_fds (ktrace w) \<and> (\<forall>ch. present w ch \<longrightarrow> ch_fd (chans w ch) \<noteq> e)
          \<and> (\<forall>l'. epoll_of l' w = Some e \<longrightarrow> l' = l))"
proof -
  have none: "epoll_of l w = None \<longleftrightarrow> el_poller (loops w l) = None" for l by (simp add: epoll_of_def)
  have some: "epoll_of l w = Some e \<longleftrightarrow> (\<exists>p. el_poller (loops w l) = Some p \<and> pl_epollfd p = e)" for l e
    by (simp add: epoll_of_def)
  have "(\<forall>l p. el_poller (loops w l) = Some p \<longrightarrow> pl_epollfd p \<in> open_fds (ktrace w)
          \<and> (\<forall>ch. present w ch \<longrightarrow> ch_fd (chans w ch) \<noteq> pl_epollfd p)
          \<and> (\<forall>l' p'. el_poller (loops w l') = Some p' \<longrightarrow> pl_epollfd p' = pl_epollfd p \<longrightarrow> l' = l))
     \<longleftrightarrow> (\<forall>l e. epoll_of l w = Some e \<longrightarrow> e \<in> open_fds (ktrace w) \<and> (\<forall>ch. present w ch \<longrightarrow> ch_fd (chans w ch) \<noteq> e)
          \<and> (\<forall>l'. epoll_of l' w = Some e \<longrightarrow> l' = l))" (is "?A \<longleftrightarrow> ?B")
  proof
    assume ?A
    show ?B
    proof (intro allI impI)
      fix l e assume "epoll_of l w = Some e"
      then obtain p where p: "el_poller (loops w l) = Some p" "pl_epollfd p = e" unfolding some by blast
      from \<open>?A\<close> [rule_format, OF p(1)] have A: "e \<in> open_fds (ktrace w)" "\<And>ch. present w ch \<Longrightarrow> ch_fd (chans w ch) \<noteq> e"
        "\<And>l' p'. el_poller (loops w l') = Some p' \<Longrightarrow> pl_epollfd p' = e \<Longrightarrow> l' = l" unfolding p(2) by simp_all
      then show "e \<in> open_fds (ktrace w) \<and> (\<forall>ch. present w ch \<longrightarrow> ch_fd (chans w ch) \<noteq> e)
          \<and> (\<forall>l'. epoll_of l' w = Some e \<longrightarrow> l' = l)" unfolding some by blast
    qed
  next
    assume B: ?B
    show ?A
    proof (intro allI impI)
      fix l p assume p: "el_poller (loops w l) = Some p"
      then have "epoll_of l w = Some (pl_epollfd p)" by (simp add: epoll_of_def)
      from B [rule_format, OF this] have b: "pl_epollfd p \<in> open_fds (ktrace w)" "\<forall>ch. present w ch \<longrightarrow> ch_fd (chans w ch) \<noteq> pl_epollfd p"
        "\<And>l'. epoll_of l' w = Some (pl_epollfd p) \<Longrightarrow> l' = l" by simp_all
      have "l' = l" if "el_poller (loops w l') = Some p'" "pl_epollfd p' = pl_epollfd p" for l' p'
        by (rule b(3)) (simp add: epoll_of_def that)
      with b(1,2) show "pl_epollfd p \<in> open_fds (ktrace w)
          \<and> (\<forall>ch. present w ch \<longrightarrow> ch_fd (chans w ch) \<noteq> pl_epollfd p)
          \<and> (\<forall>l' p'. el_poller (loops w l') = Some p' \<longrightarrow> pl_epollfd p' = pl_epollfd p \<longrightarrow> l' = l)" by blast
    qed
  qed
  then show ?thesis unfolding fds_ok_def none by simp
qed

lemma bound_ok_revents [simp]: "bound_ok c (set_revents q ch) = bound_ok c ch"
  by (cases c) (simp_all add: set_revents_def)

lemma poll_alike:
  assumes "EPollPoller_poll K n p w = Inr (t, active, p', w')"
  shows "\<And>c. alike (chans w c) (chans w' c)" "\<And>c. bound_ok c (chans w' c) = bound_ok c (chans w c)"
    "\<And>c. ch_tied (chans w' c) = ch_tied (chans w c)" "cworld.more w' = cworld.more w" "cur_tid w' = cur_tid w"
proof -
  have r: "reports w w'" by (rule poll_reports [OF assms])
  then show "cworld.more w' = cworld.more w" "cur_tid w' = cur_tid w" by (simp_all add: reports_def)
  fix c
  obtain q where q: "chans w' c = set_revents q (chans w c)" using r unfolding reports_def by blast
  show "alike (chans w c) (chans w' c)" "ch_tied (chans w' c) = ch_tied (chans w c)"
    by (simp_all add: q alike_def set_revents_def)
  show "bound_ok c (chans w' c) = bound_ok c (chans w c)" by (simp add: q)
qed

text \<open>A poll, seen from the invariant: the reported masks, the poller's event array, one event of the history.\<close>

definition after_poll :: "loop_id \<Rightarrow> Poller \<Rightarrow> Poller \<Rightarrow> 'z sworld_scheme \<Rightarrow> 'z sworld_scheme \<Rightarrow> bool" where
  "after_poll l p p' w x \<longleftrightarrow> el_poller (loops w l) = Some p
     \<and> (\<forall>c. alike (chans w c) (chans x c) \<and> bound_ok c (chans x c) = bound_ok c (chans w c)
          \<and> ch_tied (chans x c) = ch_tied (chans w c))
     \<and> (\<forall>k. el_poller (loops x k) = (if k = l then Some p' else el_poller (loops w k))
          \<and> el_wakeupFd (loops x k) = el_wakeupFd (loops w k) \<and> el_threadId (loops x k) = el_threadId (loops w k)
          \<and> el_pendingFunctors (loops x k) = el_pendingFunctors (loops w k)
          \<and> el_functors (loops x k) = el_functors (loops w k)
          \<and> el_callingPendingFunctors (loops x k) = el_callingPendingFunctors (loops w k))
     \<and> conns x = conns w \<and> live x = live w \<and> server x = server w \<and> next_conn x = next_conn w
     \<and> (\<exists>n t r. ktrace x = ktrace w @ [EvEpollWait (pl_epollfd p) n t r])
     \<and> pl_epollfd p' = pl_epollfd p \<and> pl_owner p' = pl_owner p \<and> poller_inv p' x"

lemma poll_after:
  assumes "poller_inv p w" "epoll_wait_law K" "el_poller (loops w l) = Some p"
    and "EPollPoller_poll K n p (map_loop l (\<lambda>e. e\<lparr>el_activeChannels := []\<rparr>) w) = Inr (t, active, p', z)"
  defines "x \<equiv> map_loop l (\<lambda>e. e\<lparr>el_poller := Some p', el_pollReturnTime := t, el_activeChannels := active\<rparr>) z"
  shows "after_poll l p p' w x" "ch \<in> set active \<Longrightarrow> hasChannel ch p' x \<and> ch_index (chans x ch) = kAdded"
proof -
  let ?v = "map_loop l (\<lambda>e. e\<lparr>el_activeChannels := []\<rparr>) w"
  have inv: "poller_inv p ?v" by (rule poller_inv_same [OF assms(1)]) simp_all
  note sp = poll_spec [OF inv assms(2), of n] and al = poll_alike [OF assms(4)]
  have "\<exists>r. ktrace z = ktrace w @ [EvEpollWait (pl_epollfd p) (length (pl_events p)) n r]"
    and p': "pl_epollfd p' = pl_epollfd p" "pl_owner p' = pl_owner p" "poller_inv p' z"
    using sp assms(4) by auto
  moreover have "poller_inv p' x" by (rule poller_inv_same [OF p'(3)]) (simp_all add: x_def)
  moreover have lz: "loops z = loops ?v" by (rule lworld_more(1) [OF al(4)])
  have mz: "lworld.more z = lworld.more ?v" by (rule lworld_more(3) [OF al(4)])
  have mx: "lworld.more x = lworld.more w" using mz by (simp add: x_def)
  note wx = tworld_more [OF mx]
  have lx: "loops x k = (if k = l then (loops w l)\<lparr>el_poller := Some p', el_pollReturnTime := t, el_activeChannels := active\<rparr>
      else loops w k)" for k by (simp add: x_def lz)
  have sx: "chans x = chans z" "ktrace x = ktrace z" by (simp_all add: x_def)
  show "after_poll l p p' w x"
    unfolding after_poll_def
    using assms(3) al(1-3) calculation wx sworld_more [OF wx(5)] by (simp add: lx sx) blast
  show "hasChannel ch p' x \<and> ch_index (chans x ch) = kAdded" if "ch \<in> set active"
  proof -
    have "hasChannel ch p' z \<and> ch_index (chans z ch) = kAdded"
      using sp assms(4) that by (auto split: sysret.splits)
    then show ?thesis by (simp add: x_def hasChannel_def)
  qed
qed

lemma after_poll_sound:
  assumes sd: "sound w" and ap: "after_poll l p p' w x"
  shows "sound x"
proof -
  have al: "\<And>c. alike (chans w c) (chans x c)" "\<And>c. bound_ok c (chans x c) = bound_ok c (chans w c)"
    and f: "\<And>c. ch_tied (chans x c) = ch_tied (chans w c)"
    and lo: "\<And>k. el_poller (loops x k) = (if k = l then Some p' else el_poller (loops w k))"
      "\<And>k. el_wakeupFd (loops x k) = el_wakeupFd (loops w k)" "\<And>k. el_pendingFunctors (loops x k) = el_pendingFunctors (loops w k)"
      "\<And>k. el_functors (loops x k) = el_functors (loops w k)"
    and w: "conns x = conns w" "live x = live w" "server x = server w" "next_conn x = next_conn w"
    and p: "el_poller (loops w l) = Some p" "pl_epollfd p' = pl_epollfd p" "pl_owner p' = pl_owner p" "poller_inv p' x"
    using ap by (simp_all add: after_poll_def)
  obtain n t r where tr: "ktrace x = ktrace w @ [EvEpollWait (pl_epollfd p) n t r]" using ap by (auto simp: after_poll_def)
  have int: "open_fds (ktrace x) = open_fds (ktrace w)" "interest ep (ktrace x) = interest ep (ktrace w)" for ep
    by (simp_all add: tr open_fds_def interest_def)
  have chD: "ch_fd (chans x c) = ch_fd (chans w c)" "ch_loop (chans x c) = ch_loop (chans w c)"
    "ch_index (chans x c) = ch_index (chans w c)" for c using al(1) [of c] by (simp_all add: alike_def)
  have none: "(el_poller (loops x k) = None) = (el_poller (loops w k) = None)" for k using p(1) by (simp add: lo)
  have pr: "present x c = present w c" for c by (rule present_cong) (simp_all add: w none)
  have ep: "epoll_of k x = epoll_of k w" for k by (simp add: epoll_of_def lo p)
  have sl: "server_loops x = server_loops w" by (simp add: server_loops_def w)
  have fds: "fds_ok w" and rg: "regs w" and cs: "conns_ok w" and tb: "table_ok w" and q: "queues_ok w"
    using sd by (auto simp: sound_def)
  have "fds_ok x" using fds unfolding fds_ok_epoll pr chD ep lo(2) int(1) .
  moreover have "regs x"
    unfolding regs_def pr chD sl none
  proof (intro conjI allI impI)
    fix k s assume s: "el_poller (loops x k) = Some s"
    show "pl_owner s = k" "poller_inv s x"
    proof -
      have "pl_owner s = k \<and> poller_inv s x"
      proof (cases "k = l")
        case True
        then show ?thesis using s p rg by (auto simp: lo regs_def)
      next
        case False
        then have "pl_owner s = k" "poller_inv s w" using s rg by (auto simp: lo regs_def)
        then show ?thesis using poller_inv_alike [OF _ al(1) int(2)] by blast
      qed
      then show "pl_owner s = k" "poller_inv s x" by auto
    qed
  qed (use rg in \<open>auto simp: regs_def\<close>)
  moreover have "conns_ok x"
    using cs unfolding conns_ok_def conn_ok_def pr al(2) w chD f sl .
  moreover have "table_ok x" using tb unfolding table_ok_def w .
  moreover have "queues_ok x"
    by (rule queues_ok_same [OF q]) (simp_all add: w lo)
  ultimately show ?thesis by (simp add: sound_def)
qed

lemma ready_cong: "conns x = conns w \<Longrightarrow> live x = live w \<Longrightarrow> ready f x = ready f w"
  by (cases f) simp_all

lemma signalled_other:
  "\<not> is_read e \<Longrightarrow> (\<And>d r. e \<noteq> EvWrite f d r) \<Longrightarrow> signalled f (tr @ [e]) = signalled f tr"
  by (cases e) (auto simp: signalled_def)

lemma armed_cong:
  assumes "conns x = conns w" "live x = live w" "\<And>c. ch_index (chans x c) = ch_index (chans w c)" "present x ch = present w ch"
  shows "armed ch x = armed ch w"
  using assms by (cases ch) auto

lemma poll_step_ok:
  assumes ok: "sys_ok (ph, w)" and l: "ph l = Polling" and ap: "after_poll l p p' w x"
    and act: "\<And>ch. ch \<in> set active \<Longrightarrow> hasChannel ch p' x \<and> ch_index (chans x ch) = kAdded"
  shows "sys_ok (ph(l := Dispatching active), x)"
proof -
  let ?ph = "ph(l := Dispatching active)"
  note ok' = sys_okD [OF ok]
  have sx: "sound x" by (rule after_poll_sound [OF ok'(1) ap])
  have al: "\<And>c. alike (chans w c) (chans x c)"
    and lo: "\<And>k. el_poller (loops x k) = (if k = l then Some p' else el_poller (loops w k))"
      "\<And>k. el_wakeupFd (loops x k) = el_wakeupFd (loops w k)" "\<And>k. el_threadId (loops x k) = el_threadId (loops w k)"
      "\<And>k. el_pendingFunctors (loops x k) = el_pendingFunctors (loops w k)"
      "\<And>k. el_functors (loops x k) = el_functors (loops w k)"
      "\<And>k. el_callingPendingFunctors (loops x k) = el_callingPendingFunctors (loops w k)"
    and w: "conns x = conns w" "live x = live w" "server x = server w" "next_conn x = next_conn w"
    and p: "el_poller (loops w l) = Some p" "pl_owner p' = pl_owner p" "poller_inv p' x"
    and tr: "\<exists>n t r. ktrace x = ktrace w @ [EvEpollWait (pl_epollfd p) n t r]"
    using ap by (simp_all add: after_poll_def)
  have chD: "ch_loop (chans x c) = ch_loop (chans w c)" "ch_index (chans x c) = ch_index (chans w c)" for c
    using al [of c] by (simp_all add: alike_def)
  have pr: "present x c = present w c" for c by (rule present_cong) (simp_all add: w lo p)
  have sl: "server_loops x = server_loops w" by (simp add: server_loops_def w)
  have wk: "work ?ph x k = work ph w k" for k using l by (simp add: work_def lo)
  have rm: "removed c x = removed c w" for c by (simp add: removed_def chD w)
  show ?thesis
  proof (rule sys_okI)
    show "sound x" by (rule sx)
    show "batch_ok (?ph k) (loops x k)" for k
      using ok'(2) [of k] l by (cases "k = l") (auto simp: batch_ok_def lo split: phase.splits)
    show "ready f x" if "f \<in> set (work ?ph x k)" for f k using ok'(3) that ready_cong [OF w(1,2)] by (simp add: wk)
    show "count_list (work ?ph x k) (Bind_connectEstablished c) \<le> 1" for k c using ok'(4) by (simp add: wk)
    show "own_threads x" using ok'(9) by (simp add: own_threads_def sl lo)
    show "watched x" using ok'(11) al by (simp add: watched_def sl alike_def)
    show "accounted ?ph x c" if "c \<in> live x" for c
      using ok'(7) [of c] that by (simp add: accounted_def wk rm w)
    show "referenced c x" if "c \<in> live x" for c
      using ok'(8) [of c] that by (simp add: referenced_def held_by_def sl w lo)
    show "seen (?ph k) k x" if "k \<in> set (server_loops x)" for k
    proof -
      have "woken k x = woken k w" using tr signalled_other by (auto simp: woken_def lo)
      then show ?thesis using ok'(10) [of k] that l by (auto simp: seen_def sl lo)
    qed
    show "armed ch x \<and> ch_loop (chans x ch) = k" if "ch \<in> set (events (?ph k))" for k ch
    proof (cases "k = l")
      case False
      then have "ch \<in> set (events (ph k))" using that by simp
      then show ?thesis using ok'(5,6) armed_cong [OF w(1,2) chD(2) pr] by (simp add: chD)
    next
      case True
      then have ch: "hasChannel ch p' x" "ch_index (chans x ch) = kAdded" using that act by auto
      then have slot: "pl_channels p' (ch_fd (chans x ch)) = Some ch" by (auto simp: hasChannel_def split: option.splits)
      have "pl_owner p = l" using ok'(1) p(1) by (auto simp: sound_def regs_def)
      then have lp: "ch_loop (chans x ch) = l" using poller_inv_slot(2) [OF p(3) slot] p(2) by simp
      have new: "ch_index (chans x ch) \<noteq> kNew" using ch(2) by (simp add: index_defs)
      then have pre: "present x ch" using sx by (auto simp: sound_def fds_ok_def)
      have "armed ch x"
      proof (cases ch)
        case (ConnChan c)
        then have c: "c \<in> live x" using pre by simp
        then have "tc_state (conns x c) \<noteq> kConnecting" using soundD(1) [OF sx c] new ConnChan by (auto simp: conn_ok_def)
        then show ?thesis using c new ConnChan by simp
      qed (use pre in auto)
      then show ?thesis using lp True by simp
    qed
  qed
qed

text \<open>Taking a batch moves the queue.\<close>

lemma batch_step_ok:
  assumes ok: "sys_ok (ph, w)" and l: "ph l = Dispatching []"
  shows "sys_ok (ph(l := Calling (el_pendingFunctors (loops w l))), take_batch l w)"
proof -
  let ?ph = "ph(l := Calling (el_pendingFunctors (loops w l)))" and ?x = "take_batch l w"
  note ok' = sys_okD [OF ok]
  have e: "el_functors (loops w l) = []" using ok'(2) [of l] l by (simp add: batch_ok_def)
  have w: "conns ?x = conns w" "live ?x = live w" "server ?x = server w" "next_conn ?x = next_conn w" "chans ?x = chans w"
    "ktrace ?x = ktrace w"
    by (simp_all add: take_batch_def map_loop_def)
  have lo: "el_poller (loops ?x k) = el_poller (loops w k)" "el_wakeupFd (loops ?x k) = el_wakeupFd (loops w k)"
    "el_threadId (loops ?x k) = el_threadId (loops w k)" for k
    by (cases "k = l"; simp add: take_batch_def)+
  have qs: "set (el_pendingFunctors (loops ?x k) @ el_functors (loops ?x k)) = set (el_pendingFunctors (loops w k) @ el_functors (loops w k))" for k
    using e by (cases "k = l") (simp_all add: take_batch_def)
  have wk: "work ?ph ?x k = work ph w k" for k using l by (cases "k = l") (simp_all add: work_def take_batch_def)
  have sl: "server_loops ?x = server_loops w" by (simp add: server_loops_def w)
  have pr: "present ?x c = present w c" for c by (rule present_cong) (simp_all add: w lo)
  have sd: "sound ?x"
  proof (rule still_sound [OF ok'(1)])
    show "queues_ok ?x"
      using soundD(4) [OF ok'(1)] functor_ok_mono [of _ _ w ?x] unfolding queues_ok_def qs by (simp add: w)
    show "conn_ok c ?x" if "c \<in> live w" for c using soundD(1) [OF ok'(1) that] by (simp add: conn_ok_def w sl)
  qed (use soundD [OF ok'(1)] sound_open [OF ok'(1) order_refl] in \<open>simp_all add: w lo sl table_ok_def\<close>)
  show ?thesis
  proof (rule sys_okI)
    show "sound ?x" by (rule sd)
    show "batch_ok (?ph k) (loops ?x k)" for k
      using ok'(2) [of k] by (cases "k = l") (auto simp: batch_ok_def take_batch_def split: phase.splits)
    show "ready f ?x" if "f \<in> set (work ?ph ?x k)" for f k using ok'(3) that ready_cong [OF w(1,2)] by (simp only: wk)
    show "count_list (work ?ph ?x k) (Bind_connectEstablished c) \<le> 1" for k c unfolding wk by (rule ok'(4))
    show "own_threads ?x" using ok'(9) by (simp add: own_threads_def sl lo)
    show "watched ?x" using ok'(11) by (simp add: watched_def sl w)
    show "accounted ?ph ?x c" if "c \<in> live ?x" for c
      using ok'(7) [of c] that unfolding accounted_def wk by (simp add: removed_def w)
    show "referenced c ?x" if "c \<in> live ?x" for c
      using ok'(8) [of c] that unfolding referenced_def held_by_def qs by (simp add: sl w)
    show "armed ch ?x \<and> ch_loop (chans ?x ch) = k" if "ch \<in> set (events (?ph k))" for k ch
    proof -
      have "ch \<in> set (events (ph k))" using that by (cases "k = l") simp_all
      then show ?thesis using ok'(5,6) armed_cong [OF w(1,2) _ pr] by (simp add: w)
    qed
    show "seen (?ph k) k ?x" if "k \<in> set (server_loops ?x)" for k
    proof (cases "k = l")
      case True
      then show ?thesis by (simp add: seen_def take_batch_def)
    next
      case False
      then show ?thesis using ok'(10) [of k] that by (simp add: seen_def woken_def sl w lo) (simp add: take_batch_def)
    qed
  qed
qed

section \<open>The end of a batch\<close>

lemma held_queue:
  assumes "f \<in> set (el_pendingFunctors (loops w l) @ el_functors (loops w l))" "functor_owner f = Some c" "l \<in> set (server_loops w)"
  shows "referenced c w"
  using assms by (force simp: referenced_def held_by_def)

lemma work_queue:
  assumes "sys_core (ph, w)" "f \<in> set (work ph w l)"
  shows "f \<in> set (el_pendingFunctors (loops w l) @ el_functors (loops w l))"
  using assms(2) sys_coreD(2) [OF assms(1), of l] by (cases "ph l") (auto simp: work_def batch_ok_def)

text \<open>A functor that holds a connection is in the queue of one of the server's loops.\<close>

lemma owner_loop:
  assumes "sound w" "functor_ok l f w" "functor_owner f = Some c"
  shows "l \<in> set (server_loops w)"
proof -
  have c: "c \<in> live w" using assms(2,3) by (simp add: functor_ok_def)
  then have "tc_loop (conns w c) \<in> set (server_loops w)" using soundD(1) [OF assms(1)] by (simp add: conn_ok_def)
  then show ?thesis using assms(2,3) by (cases f) (auto simp: functor_ok_def server_loops_def)
qed

lemma unreferenced_removed:
  assumes core: "sys_core (ph, w)" and c: "c \<in> live w" "\<not> referenced c w"
  shows "removed c w"
proof -
  have "Bind_connectDestroyed c \<notin> set (work ph w (tc_loop (conns w c)))"
  proof
    assume "Bind_connectDestroyed c \<in> set (work ph w (tc_loop (conns w c)))"
    from work_queue [OF core this] have "referenced c w"
      by (rule held_queue) (use soundD(1) [OF sys_coreD(1) [OF core] c(1)] in \<open>simp_all add: conn_ok_def\<close>)
    then show False using c(2) by simp
  qed
  then show ?thesis using sys_coreD(7) [OF core c(1)] c(2) by (auto simp: accounted_def referenced_def)
qed

lemma dtor_world:
  shows "conns (TcpConnection_dtor K c w) = conns w" "chans (TcpConnection_dtor K c w) = chans w"
    "loops (TcpConnection_dtor K c w) = loops w" "server (TcpConnection_dtor K c w) = server w"
    "next_conn (TcpConnection_dtor K c w) = next_conn w" "live (TcpConnection_dtor K c w) = live w - {c}"
    "ktrace (TcpConnection_dtor K c w) = ktrace w @ [EvClose (tc_socket (conns w c))]"
    "cur_tid (TcpConnection_dtor K c w) = cur_tid w"
  by (simp_all add: TcpConnection_dtor_def Socket_dtor_def sys_close_def Let_def)

text \<open>Destroying a connection nothing refers to closes a descriptor that no poller watches.\<close>

lemma dtor_sound:
  assumes sd: "sound w" and c: "c \<in> live w" "\<not> referenced c w" "removed c w"
  shows "sound (TcpConnection_dtor K c w)"
proof -
  let ?x = "TcpConnection_dtor K c w" and ?f = "tc_socket (conns w c)"
  note W = dtor_world [of K c w]
  have fds: "fds_ok w" and rg: "regs w" and cs: "conns_ok w" and tb: "table_ok w" and q: "queues_ok w"
    using sd by (auto simp: sound_def)
  have f: "ch_fd (chans w (ConnChan c)) = ?f" using soundD(1) [OF sd c(1)] by (simp add: conn_ok_def)
  have pr: "present ?x d \<longleftrightarrow> present w d \<and> d \<noteq> ConnChan c" for d by (cases d) (auto simp: W)
  have here: "present w (ConnChan c)" using c(1) by simp
  have new: "ch_index (chans w (ConnChan c)) = kNew" using c(3) by (simp add: removed_def)
  have other: "ch_fd (chans w d) \<noteq> ?f" if "present w d" "d \<noteq> ConnChan c" for d
    using fds that here f unfolding fds_ok_def by metis
  have opn: "open_fds (ktrace ?x) = open_fds (ktrace w) - {?f}" by (simp add: W)
  have ep: "e \<noteq> ?f" if "epoll_of l w = Some e" for l e
    using fds that here f unfolding fds_ok_epoll by metis
  have sl: "server_loops ?x = server_loops w" by (simp add: server_loops_def W)
  have eo: "epoll_of l ?x = epoll_of l w" for l by (simp add: epoll_of_def W)
  have "fds_ok ?x"
    unfolding fds_ok_epoll eo pr W(2,3) opn
  proof (intro conjI allI impI)
    fix d assume "ch_index (chans w d) \<noteq> kNew"
    then show "present w d" "d \<noteq> ConnChan c" using fds new unfolding fds_ok_epoll by blast+
  next
    fix l show "if epoll_of l w = None then el_wakeupFd (loops w l) \<le> 2 else ch_fd (chans w (WakeupChan l)) = el_wakeupFd (loops w l)"
      using fds unfolding fds_ok_epoll by blast
  qed (use fds other ep in \<open>auto simp: fds_ok_epoll\<close>)
  moreover have "poller_inv p ?x" if "el_poller (loops w l) = Some p" for l p
  proof -
    have inv: "poller_inv p w" using rg that by (auto simp: regs_def)
    have none: "pl_channels p ?f = None"
    proof (rule ccontr)
      assume "pl_channels p ?f \<noteq> None"
      then obtain d where d: "pl_channels p ?f = Some d" by auto
      from poller_inv_slot [OF inv d] have "ch_fd (chans w d) = ?f" "ch_index (chans w d) \<noteq> kNew" by (auto simp: index_defs)
      then show False using other new fds unfolding fds_ok_def by metis
    qed
    have "expected_interest p ?x = expected_interest p w" by (rule ext) (simp add: expected_interest_def W split: option.split)
    moreover have "expected_interest p w ?f = None" using none by (simp add: expected_interest_def)
    moreover have "interest (pl_epollfd p) (ktrace ?x) = (interest (pl_epollfd p) (ktrace w))(?f := None)" by (simp add: W)
    ultimately show ?thesis using inv by (auto simp: poller_inv_def W fun_upd_idem_iff)
  qed
  then have "regs ?x" using rg by (auto simp: regs_def pr sl W)
  moreover have "conns_ok ?x" using cs by (auto simp: conns_ok_def conn_ok_def pr sl W)
  moreover have "table_ok ?x" using tb c(2) by (auto simp: table_ok_def W referenced_def)
  moreover have "queues_ok ?x"
    unfolding queues_ok_def
  proof (intro allI ballI)
    fix l f assume "f \<in> set (el_pendingFunctors (loops ?x l) @ el_functors (loops ?x l))"
    then have g: "f \<in> set (el_pendingFunctors (loops w l) @ el_functors (loops w l))" by (simp add: W)
    then have ok: "functor_ok l f w" using q unfolding queues_ok_def by blast
    have "functor_owner f \<noteq> Some c" using held_queue [OF g] owner_loop [OF sd ok] c(2) by blast
    then show "functor_ok l f ?x" using ok by (cases f) (auto simp: functor_ok_def W)
  qed
  ultimately show ?thesis by (simp add: sound_def)
qed

text \<open>The references of a batch, released one by one: only connections it held may be unreferenced.\<close>

definition releasing :: "conn_id set \<Rightarrow> phases \<times> 'z sworld_scheme \<Rightarrow> bool" where
  "releasing D s \<longleftrightarrow> sys_core s \<and> (\<forall>c \<in> live (snd s). c \<in> D \<or> referenced c (snd s))"

lemma releasing_none: "releasing {} s = sys_ok s"
  by (simp add: releasing_def sys_ok_def)

lemma release_one_ok:
  assumes rel: "releasing (insert c D) (ph, w)"
  shows "releasing D (ph, release_one K c w)"
proof (cases "c \<in> live w \<and> \<not> referenced c w")
  case False
  then show ?thesis using rel by (auto simp: releasing_def release_one_def)
next
  case True
  let ?x = "TcpConnection_dtor K c w"
  have core: "sys_core (ph, w)" using rel by (simp add: releasing_def)
  note W = dtor_world [of K c w] and ok = sys_coreD [OF core]
  have rm: "removed c w" by (rule unreferenced_removed [OF core]) (use True in auto)
  have sd: "sound ?x" by (rule dtor_sound [OF ok(1)]) (use True rm in auto)
  have sl: "server_loops ?x = server_loops w" by (simp add: server_loops_def W)
  have ref: "referenced d ?x = referenced d w" for d by (simp add: referenced_def sl W)
  have wk: "work ph ?x l = work ph w l" for l by (simp add: work_def W)
  have "sys_core (ph, ?x)"
  proof (rule sys_coreI)
    show "sound ?x" by (rule sd)
    show "ready f ?x" if "f \<in> set (work ph ?x l)" for f l
    proof -
      have f: "f \<in> set (work ph w l)" using that by (simp add: wk)
      have g: "f \<in> set (el_pendingFunctors (loops w l) @ el_functors (loops w l))" by (rule work_queue [OF core f])
      have "functor_ok l f w" using g soundD(4) [OF ok(1)] by (simp add: queues_ok_def)
      then have "functor_owner f \<noteq> Some c" using held_queue [OF g] owner_loop [OF ok(1)] True by blast
      then show ?thesis using ok(3) [OF f] by (cases f) (auto simp: W)
    qed
    show "armed ch ?x \<and> ch_loop (chans ?x ch) = l" if "ch \<in> set (events (ph l))" for l ch
    proof -
      have "armed ch w" "ch_loop (chans w ch) = l" using that ok(5,6) by blast+
      then show ?thesis using rm by (cases ch) (auto simp: W removed_def)
    qed
    show "accounted ph ?x d" if "d \<in> live ?x" for d
      using ok(7) [of d] that by (simp add: accounted_def removed_def wk W)
    show "seen (ph l) l ?x" if "l \<in> set (server_loops ?x)" for l
      using ok(9) [of l] that signalled_other by (simp add: seen_def woken_def sl W)
  qed (use ok in \<open>auto simp: wk sl own_threads_def watched_def W\<close>)
  then show ?thesis using True rel by (auto simp: releasing_def release_one_def ref W)
qed

lemma released_ok:
  assumes "releasing (set cs \<union> D) (ph, w)"
  shows "releasing D (ph, fold (release_one K) cs w)"
  using assms
proof (induction cs arbitrary: w)
  case (Cons c cs)
  have "releasing (insert c (set cs \<union> D)) (ph, w)" using Cons.prems by simp
  from Cons.IH [OF release_one_ok [OF this]] show ?case by simp
qed simp

lemma end_batch_releasing:
  assumes ok: "sys_ok (ph, w)" and l: "ph l = Calling []"
  shows "releasing (set (List.map_filter functor_owner (el_functors (loops w l)))) (ph(l := Polling), end_batch l w)"
proof -
  let ?ph = "ph(l := Polling)" and ?x = "end_batch l w"
  let ?D = "set (List.map_filter functor_owner (el_functors (loops w l)))"
  note ok' = sys_okD [OF ok]
  have w: "conns ?x = conns w" "live ?x = live w" "server ?x = server w" "next_conn ?x = next_conn w" "chans ?x = chans w"
    "ktrace ?x = ktrace w"
    by (simp_all add: end_batch_def map_loop_def)
  have lo: "el_poller (loops ?x k) = el_poller (loops w k)" "el_wakeupFd (loops ?x k) = el_wakeupFd (loops w k)"
    "el_threadId (loops ?x k) = el_threadId (loops w k)" "el_pendingFunctors (loops ?x k) = el_pendingFunctors (loops w k)" for k
    by (cases "k = l"; simp add: end_batch_def)+
  have fs: "el_functors (loops ?x k) = (if k = l then [] else el_functors (loops w k))"
    "el_callingPendingFunctors (loops ?x k) = (k \<noteq> l \<and> el_callingPendingFunctors (loops w k))" for k
    by (cases "k = l"; simp add: end_batch_def)+
  have wk: "work ?ph ?x k = work ph w k" for k using l by (cases "k = l") (simp_all add: work_def lo)
  have sl: "server_loops ?x = server_loops w" by (simp add: server_loops_def w)
  have pr: "present ?x c = present w c" for c by (rule present_cong) (simp_all add: w lo)
  have sd: "sound ?x"
  proof (rule still_sound [OF ok'(1)])
    show "queues_ok ?x"
      using soundD(4) [OF ok'(1)] functor_ok_mono [of _ _ w ?x] unfolding queues_ok_def lo fs by (auto simp: w split: if_splits)
    show "conn_ok c ?x" if "c \<in> live w" for c using soundD(1) [OF ok'(1) that] by (simp add: conn_ok_def w sl)
  qed (use soundD [OF ok'(1)] sound_open [OF ok'(1) order_refl] in \<open>simp_all add: w lo sl table_ok_def\<close>)
  have "sys_core (?ph, ?x)"
  proof (rule sys_coreI)
    show "sound ?x" by (rule sd)
    show "batch_ok (?ph k) (loops ?x k)" for k
      using ok'(2) [of k] by (cases "k = l") (auto simp: batch_ok_def fs split: phase.splits)
    show "ready f ?x" if "f \<in> set (work ?ph ?x k)" for f k using ok'(3) that ready_cong [OF w(1,2)] by (simp only: wk)
    show "count_list (work ?ph ?x k) (Bind_connectEstablished c) \<le> 1" for k c unfolding wk by (rule ok'(4))
    show "own_threads ?x" using ok'(9) by (simp add: own_threads_def sl lo)
    show "watched ?x" using ok'(11) by (simp add: watched_def sl w)
    show "accounted ?ph ?x c" if "c \<in> live ?x" for c
      using ok'(7) [of c] that unfolding accounted_def wk by (simp add: removed_def w)
    show "armed ch ?x \<and> ch_loop (chans ?x ch) = k" if "ch \<in> set (events (?ph k))" for k ch
    proof -
      have "ch \<in> set (events (ph k))" using that by (cases "k = l") simp_all
      then show ?thesis using ok'(5,6) armed_cong [OF w(1,2) _ pr] by (simp add: w)
    qed
    show "seen (?ph k) k ?x" if "k \<in> set (server_loops ?x)" for k
      using ok'(10) [of k] that l by (cases "k = l") (auto simp: seen_def woken_def sl w lo)
  qed
  moreover have "c \<in> ?D \<or> referenced c ?x" if c: "c \<in> live w" for c
  proof -
    from ok'(8) [OF c] consider "c \<in> snd ` set (sv_connections (server w))"
      | k f where "k \<in> set (server_loops w)" "f \<in> set (el_pendingFunctors (loops w k))" "functor_owner f = Some c"
      | k f where "k \<in> set (server_loops w)" "f \<in> set (el_functors (loops w k))" "functor_owner f = Some c"
      by (auto simp: referenced_def held_by_def)
    then show ?thesis
    proof cases
      case 1
      then show ?thesis by (simp add: referenced_def w)
    next
      case 2
      then show ?thesis using held_queue [of f ?x k c] by (simp add: sl lo)
    next
      case 3
      show ?thesis
      proof (cases "k = l")
        case True
        then show ?thesis using 3(2,3) by (auto simp: List.map_filter_def intro!: image_eqI [of _ _ f])
      next
        case False
        then show ?thesis using held_queue [of f ?x k c] 3 by (simp add: sl fs)
      qed
    qed
  qed
  ultimately show ?thesis by (simp add: releasing_def w)
qed

lemma release_step_ok:
  assumes "sys_ok (ph, w)" "ph l = Calling []" "release K (el_functors (loops w l)) (end_batch l w) = Inr w'"
  shows "sys_ok (ph(l := Polling), w')"
  using released_ok [of "List.map_filter functor_owner (el_functors (loops w l))" "{}"] end_batch_releasing [OF assms(1,2)] assms(3)
  by (auto simp: release_def releasing_none)

section \<open>Every step keeps the invariant\<close>

definition system_laws :: "kernel \<Rightarrow> 'z sworld_scheme user \<Rightarrow> bool" where
  "system_laws K U \<longleftrightarrow> user_law K U \<and> epoll_ctl_law K \<and> epoll_wait_law K \<and> fresh_law K"

lemma wakeups_differ:
  assumes sd: "sound w" and k: "k \<in> set (server_loops w)" "l \<in> set (server_loops w)" "k \<noteq> l"
  shows "el_wakeupFd (loops w k) \<noteq> el_wakeupFd (loops w l)"
proof -
  have fds: "fds_ok w" and rg: "regs w" using sd by (simp_all add: sound_def)
  have pr: "present w (WakeupChan i) \<and> ch_fd (chans w (WakeupChan i)) = el_wakeupFd (loops w i)"
    if "i \<in> set (server_loops w)" for i
  proof -
    have p: "el_poller (loops w i) \<noteq> None" using rg that unfolding regs_def by blast
    moreover have "if el_poller (loops w i) = None then el_wakeupFd (loops w i) \<le> 2
        else ch_fd (chans w (WakeupChan i)) = el_wakeupFd (loops w i)" using fds unfolding fds_ok_def by blast
    ultimately show ?thesis by simp
  qed
  have "WakeupChan k \<noteq> WakeupChan l" using k(3) by simp
  then show ?thesis using fds pr [OF k(1)] pr [OF k(2)] unfolding fds_ok_def by metis
qed

lemma other_thread:
  assumes "sys_ok (ph, w)" "k \<in> set (server_loops w)" "l \<in> set (server_loops w)" "k \<noteq> l"
  shows "el_threadId (loops w l) \<noteq> el_threadId (loops w k)"
  using sys_okD(9) [OF assms(1)] assms(2-4) by (auto simp: own_threads_def inj_on_def)

lemma event_step_ok:
  assumes laws: "system_laws K U" and ok: "sys_ok (ph, w)" and l: "l \<in> set (server_loops w)" "ph l = Dispatching (ch # chs)"
    and r: "handleEvent K alive (run_cb K U) t ch (in_thread l w) = Inr w'"
  shows "sys_ok (ph(l := Dispatching chs), w')"
proof -
  let ?u = "in_thread l w"
  have oku: "sys_ok (ph, ?u)" using ok by (simp add: in_thread_def)
  note U = sys_okD [OF oku]
  have e: "ch \<in> set (events (ph l))" using l(2) by simp
  have fit: "fit K U ch ?u" using laws U(1) U(5) [OF e] by (simp add: fit_def system_laws_def)
  have run: "own_run False (event_fds ch ?u) (event_for ch) ?u w'" using handleEvent_run [OF fit r] by blast
  have B: "\<exists>c. x = c \<and> ch = ConnChan c" if "x \<in> event_for ch" for x using that by (cases ch) auto
  have sl: "server_loops ?u = server_loops w" "loops ?u = loops w" by (simp_all add: in_thread_def)
  show ?thesis
  proof (rule run_step_ok [OF oku run, where begun = "\<lambda>k. []"])
    show "batch_ok ((ph(l := Dispatching chs)) k) (loops ?u k)" for k
      using U(2) [of k] l(2) by (cases "k = l") (auto simp: batch_ok_def)
    show "c \<notin> event_for ch" if "Bind_connectEstablished c \<in> set (work (ph(l := Dispatching chs)) ?u k)" for k c
    proof
      assume "c \<in> event_for ch"
      then have "tc_state (conns ?u c) \<noteq> kConnecting" using B U(5) [OF e] by fastforce
      moreover have "Bind_connectEstablished c \<in> set (work ph ?u k)" using that l(2) by (auto simp: work_def split: if_splits)
      ultimately show False using U(3) by fastforce
    qed
    show "(\<nexists>chs. ph k = Dispatching chs) \<and> el_wakeupFd (loops ?u k) \<notin> event_fds ch ?u
        \<and> (el_callingPendingFunctors (loops ?u k) \<or> cur_tid ?u \<noteq> el_threadId (loops ?u k))"
      if "k \<in> set (server_loops ?u)" "\<nexists>chs'. (ph(l := Dispatching chs)) k = Dispatching chs'" for k
    proof -
      have k: "k \<noteq> l" using that(2) by auto
      have "el_wakeupFd (loops ?u k) \<notin> event_fds ch ?u"
      proof (cases ch)
        case (WakeupChan i)
        then have "ch_loop (chans ?u ch) = i" using soundD(2) [OF U(1) armed_present [OF U(5) [OF e]]] by simp
        then have "i = l" using U(6) [OF e] by simp
        then show ?thesis using wakeups_differ [OF U(1) that(1) _ k] l(1) WakeupChan by (simp add: sl)
      qed simp_all
      moreover have "cur_tid ?u \<noteq> el_threadId (loops ?u k)"
        using other_thread [OF ok _ l(1) k] that(1) by (simp add: in_thread_def sl(1))
      ultimately show ?thesis using that(2) k by auto
    qed
  qed (use l(2) in auto)
qed

lemma functor_step_ok:
  assumes laws: "system_laws K U" and ok: "sys_ok (ph, w)" and l: "l \<in> set (server_loops w)" "ph l = Calling (f # fs)"
    and r: "run_functor K U f (in_thread l w) = Inr w'"
  shows "sys_ok (ph(l := Calling fs), w')"
proof -
  let ?u = "in_thread l w" and ?ph = "ph(l := Calling fs)"
  have ul: "user_law K U" and el: "epoll_ctl_law K" using laws by (simp_all add: system_laws_def)
  have oku: "sys_ok (ph, ?u)" using ok by (simp add: in_thread_def)
  note U = sys_okD [OF oku]
  have f: "f \<in> set (work ph ?u l)" using l(2) by (simp add: work_def)
  have rd: "ready f ?u" by (rule U(3) [OF f])
  have fl: "functor_ok l f ?u" by (rule work_functor [OF oku f])
  have c: "code_run K (functor_rm f) (functor_for f) ?u w'" by (rule run_functor_run [OF ul r rd])
  have run: "own_run (functor_rm f) {} (functor_for f) ?u w'" by (rule code_run_own [OF c U(1) el]) blast
  have sl: "server_loops ?u = server_loops w" "loops ?u = loops w" by (simp_all add: in_thread_def)
  show ?thesis
  proof (rule run_step_ok [OF oku run, where begun = "\<lambda>k. if k = l then [f] else []"])
    show "batch_ok (?ph k) (loops ?u k)" for k
      using U(2) [of k] l(2) by (cases "k = l") (auto simp: batch_ok_def)
    show "d \<notin> functor_for f" if d: "Bind_connectEstablished d \<in> set (work ?ph ?u k)" for k d
    proof
      assume own: "d \<in> functor_for f"
      have w: "Bind_connectEstablished d \<in> set (work ph ?u k)" using d l(2) by (auto simp: work_def split: if_splits)
      then have st: "tc_state (conns ?u d) = kConnecting" using U(3) by fastforce
      then have e: "f = Bind_connectEstablished d" using own rd by (cases f) auto
      have "k = l" using work_functor [OF oku w] fl e by (simp add: functor_ok_def)
      then have "count_list (work ph ?u l) f = 1 + count_list (work ?ph ?u l) f" using l(2) by (simp add: work_def)
      moreover have "count_list (work ?ph ?u l) f \<noteq> 0" using d e \<open>k = l\<close> by (simp add: count_list_0_iff)
      ultimately show False using U(4) [of l d] e by simp
    qed
    show "ConnChan d \<notin> set (events (?ph k))" if "functor_rm f" "d \<in> functor_for f" for k d
    proof
      assume ev: "ConnChan d \<in> set (events (?ph k))"
      then have k: "k \<noteq> l" "ConnChan d \<in> set (events (ph k))" by (auto split: if_splits)
      have "f = Bind_connectDestroyed d" using that by (cases f) auto
      then have "tc_loop (conns ?u d) = l" "d \<in> live ?u" using fl rd by (simp_all add: functor_ok_def)
      then have "ch_loop (chans ?u (ConnChan d)) = l" using soundD(1) [OF U(1)] by (simp add: conn_ok_def)
      then show False using U(6) [OF k(2)] k(1) by simp
    qed
    show "removed d w'" if "Bind_connectDestroyed d \<in> set (if k = l then [f] else [])" for k d
    proof -
      have f: "f = Bind_connectDestroyed d" using that by (auto split: if_splits)
      then have d: "d \<in> live ?u" "tc_state (conns ?u d) = kDisconnected" using rd by simp_all
      have r': "Channel_remove K (ConnChan d) ?u = Inr w'" using r d(2) by (simp add: f connectDestroyed_def)
      have "ch_index (chans w' (ConnChan d)) = kNew"
        using remove_sound [OF U(1) _ el r'] d by simp
      moreover have "tc_state (conns w' d) = kDisconnected"
        using keeps_disconnected [OF _ d] code_run_sound [OF c U(1) el] by blast
      ultimately show ?thesis by (simp add: removed_def)
    qed
    show "(\<nexists>chs. ph k = Dispatching chs) \<and> el_wakeupFd (loops ?u k) \<notin> {}
        \<and> (el_callingPendingFunctors (loops ?u k) \<or> cur_tid ?u \<noteq> el_threadId (loops ?u k))"
      if "k \<in> set (server_loops ?u)" "\<nexists>chs. ?ph k = Dispatching chs" for k
    proof (cases "k = l")
      case True
      then show ?thesis using U(2) [of l] l(2) by (simp add: batch_ok_def)
    next
      case False
      then show ?thesis using other_thread [OF ok _ l(1) False] that by (simp add: in_thread_def sl(1))
    qed
  qed (use l(2) in auto)
qed

lemma outside_step_ok:
  assumes laws: "system_laws K U" and ok: "sys_ok (ph, w)" and t: "t \<notin> (\<lambda>l. el_threadId (loops w l)) ` set (server_loops w)"
    and r: "api_step K (w\<lparr>cur_tid := t\<rparr>) w'"
  shows "sys_ok (ph, w')"
proof -
  let ?u = "w\<lparr>cur_tid := t\<rparr>"
  have oku: "sys_ok (ph, ?u)" using ok by simp
  have run: "own_run False {} {} ?u w'"
    by (rule code_run_own [OF api_step_run [OF r], where A = "{}"])
      (use sys_okD(1) [OF oku] laws in \<open>simp_all add: system_laws_def\<close>)
  show ?thesis
    by (rule run_step_ok [OF oku run, where begun = "\<lambda>k. []"]) (use sys_okD(2) [OF oku] t in auto)
qed

lemma sys_step_ok:
  assumes "sys_step K U s s'" "sys_ok s" "system_laws K U"
  shows "sys_ok s'"
  using assms(1)
proof cases
  case (ss_poll l w ph p t active p' z)
  have ok: "sys_ok (ph, in_thread l w)" using assms(2) ss_poll by (simp add: in_thread_def)
  have p: "el_poller (loops (in_thread l w) l) = Some p" using ss_poll by (simp add: in_thread_def)
  have inv: "poller_inv p (in_thread l w)" using sys_okD(1) [OF ok] p by (auto simp: sound_def regs_def)
  have ew: "epoll_wait_law K" using assms(3) by (simp add: system_laws_def)
  note ap = poll_after [OF inv ew p ss_poll(7)]
  show ?thesis unfolding ss_poll(2) by (rule poll_step_ok [OF ok ss_poll(4) ap])
next
  case (ss_event l w ph ch chs w')
  then show ?thesis using event_step_ok assms(2,3) by blast
next
  case (ss_batch l w ph)
  have "sys_ok (ph, in_thread l w)" using assms(2) ss_batch by (simp add: in_thread_def)
  from batch_step_ok [OF this ss_batch(4)] show ?thesis using ss_batch by (simp add: in_thread_def)
next
  case (ss_functor l w ph f fs w')
  then show ?thesis using functor_step_ok assms(2,3) by blast
next
  case (ss_release l w ph w')
  have "sys_ok (ph, in_thread l w)" using assms(2) ss_release by (simp add: in_thread_def)
  from release_step_ok [OF this ss_release(4)] show ?thesis using ss_release by (simp add: in_thread_def)
next
  case (ss_outside w t w' ph)
  then show ?thesis using outside_step_ok assms(2,3) by blast
qed

lemma reachable_ok: "reachable K U s \<Longrightarrow> system_laws K U \<Longrightarrow> sys_ok s"
  by (induction rule: reachable.induct) (auto intro: sys_step_ok initial_ok)

end
