(* ===== verification/EchoServer.thy ===== *)
theory EchoServer
  imports Reactor
begin

text \<open>
  \<^verbatim>\<open>example/testserver.cc\<close>, the program the repository builds on the library: a server that sends back
  what it receives and then closes its side.  Its callbacks are a \<open>user\<close> of the library, so everything
  proved of lawful users holds of it.
\<close>

section \<open>The callbacks\<close>

text \<open>The connection is passed as a shared pointer: called on a dead one they would be a use after free.\<close>

definition echo_onConnection :: "kernel \<Rightarrow> conn_id \<Rightarrow> 'z tworld_scheme \<Rightarrow> 'z tworld_scheme res" where
  "echo_onConnection K c w =
     (if c \<notin> live w then Inl Use_after_free
      else if connected (conns w c)
      then bindE (InetAddress_toIpPort (tc_peerAddr (conns w c))) (\<lambda>s.
             Inr (LOG K INFO ''Connection UP : %s'' [AStr (c_str s)] w))
      else bindE (InetAddress_toIpPort (tc_peerAddr (conns w c))) (\<lambda>s.
             Inr (LOG K INFO ''Connection DOWN : %s'' [AStr (c_str s)] w)))"

text \<open>The string \<^verbatim>\<open>msg\<close> lives from its construction to the end of the callback.\<close>

definition echo_onMessage :: "kernel \<Rightarrow> conn_id \<Rightarrow> timestamp \<Rightarrow> 'z tworld_scheme \<Rightarrow> 'z tworld_scheme res" where
  "echo_onMessage K c time w =
     (if c \<notin> live w then Inl Use_after_free
      else bindE (retrieveAllAsString (tc_inputBuffer (conns w c))) (\<lambda>(msg, b).
        if max_size < length msg then Inl Length_error
        else (let w = map_conn c (\<lambda>t. t\<lparr>tc_inputBuffer := b\<rparr>) w;
                  (p, w) = new_string msg w
              in bindE (TcpConnection_send K c p w) (\<lambda>w.
                 bindE (TcpConnection_shutdown K c w) (\<lambda>w. Inr (delete_string p w))))))"

definition echo_user :: "kernel \<Rightarrow> 'z tworld_scheme user" where
  "echo_user K = idle_user\<lparr>u_connection := (\<lambda>u. echo_onConnection K), u_message := (\<lambda>u. echo_onMessage K)\<rparr>"

section \<open>The server\<close>

definition onConnection_cb :: user_fun where "onConnection_cb = 0"
definition onMessage_cb :: user_fun where "onMessage_cb = 1"

definition EchoServer_ctor ::
    "kernel \<Rightarrow> loop_id option \<Rightarrow> InetAddress \<Rightarrow> string \<Rightarrow> 'z sworld_scheme \<Rightarrow> 'z sworld_scheme res" where
  "EchoServer_ctor K loop a name w =
     bindE (TcpServer_ctor K loop a name kNoReusePort w) (\<lambda>w.
       let w = map_server (server_setConnectionCallback onConnection_cb) w;
           w = map_server (server_setMessageCallback onMessage_cb) w
       in Inr (map_server (TcpServer_setThreadNum 3) w))"

definition EchoServer_start :: "kernel \<Rightarrow> 'z sworld_scheme \<Rightarrow> 'z sworld_scheme res" where
  "EchoServer_start K w = TcpServer_start K (echo_user K) w"

text \<open>\<^verbatim>\<open>main\<close>, up to the call of \<^verbatim>\<open>loop\<close>; its loop is loop 0.\<close>

definition echo_begin :: "kernel \<Rightarrow> 'z sworld_scheme \<Rightarrow> 'z sworld_scheme res" where
  "echo_begin K w =
     bindE (EventLoop_ctor K 0 w) (\<lambda>w.
     let a = InetAddress_ctor 8000 ''127.0.0.1''
     in bindE (EchoServer_ctor K (Some 0) a ''EchoServer'' w) (\<lambda>w.
        EchoServer_start K w))"

text \<open>
  The whole of \<^verbatim>\<open>main\<close>: \<open>None\<close> is a run that does not end.  The other threads (\<open>rest\<close>) and the order of
  the hash table (\<open>order\<close>) are parameters, as in the destructor of the server.
\<close>

definition echo_main ::
    "kernel \<Rightarrow> (int \<Rightarrow> 'z sworld_scheme \<Rightarrow> 'z sworld_scheme res)
     \<Rightarrow> ((string \<times> conn_id) list \<Rightarrow> (string \<times> conn_id) list) \<Rightarrow> 'z sworld_scheme \<Rightarrow> 'z sworld_scheme res option" where
  "echo_main K rest order w = (case echo_begin K w of
     Inl e \<Rightarrow> Some (Inl e)
   | Inr w \<Rightarrow> map_option (\<lambda>r. bindE r (\<lambda>w.
         bindE (TcpServer_dtor K (echo_user K) rest order w) (EventLoop_dtor K 0)))
       (EventLoop_loop K alive (run_cb K (echo_user K)) (run_functor K (echo_user K)) (release K) 0 w))"

section \<open>The callbacks keep to the library's interface\<close>

lemma api_run_one: "api_step K v w \<Longrightarrow> api_run K u v \<Longrightarrow> api_run K u w"
  by (rule api_more)

lemma echo_onConnection_api:
  "echo_onConnection K c w = Inr w' \<Longrightarrow> api_run K w w'"
  by (auto simp: echo_onConnection_def split: if_splits intro!: api_run_one [OF api_log] api_done)

lemma retrieveAllAsString_eq:
  "retrieveAllAsString b = Inr (msg, b') \<Longrightarrow> b' = retrieve (readableBytes b) b"
  by (auto simp: retrieveAllAsString_def retrieveAsString_def)

lemma channel_op_live: "channel_op f ch w w' \<Longrightarrow> live w' = live w"
  using tworld_more(2) channel_opD(5) by blast

lemma sendInLoop_live:
  assumes "sendInLoop K c data w = Inr w'"
  shows "live w' = live w"
  using assms
  by (auto simp: sendInLoop_def write_now_def buffer_rest_def mark_high_water_def sys_write_def Let_def
      split: if_splits sysret.splits option.splits dest!: channel_ops(3) dest: channel_op_live)

lemma TcpConnection_send_live: "TcpConnection_send K c p w = Inr w' \<Longrightarrow> live w' = live w"
  by (auto simp: TcpConnection_send_def runInLoop_def split: option.splits if_splits dest: sendInLoop_live)

text \<open>What the message callback does, step by step.\<close>

lemma echo_onMessage_steps:
  assumes "echo_onMessage K c t w = Inr w'"
  obtains msg b v x where "c \<in> live w" "retrieveAllAsString (tc_inputBuffer (conns w c)) = Inr (msg, b)" "length msg \<le> max_size"
    "TcpConnection_send K c (next_string w) (snd (new_string msg (map_conn c (\<lambda>t. t\<lparr>tc_inputBuffer := b\<rparr>) w))) = Inr v"
    "TcpConnection_shutdown K c v = Inr x" "w' = delete_string (next_string w) x"
proof -
  have c: "c \<in> live w" using assms by (cases "c \<in> live w") (simp_all add: echo_onMessage_def)
  obtain msg b where m: "retrieveAllAsString (tc_inputBuffer (conns w c)) = Inr (msg, b)"
    using assms c by (cases "retrieveAllAsString (tc_inputBuffer (conns w c))") (auto simp: echo_onMessage_def)
  have len: "length msg \<le> max_size" using assms c m by (cases "length msg \<le> max_size") (simp_all add: echo_onMessage_def)
  let ?s = "snd (new_string msg (map_conn c (\<lambda>t. t\<lparr>tc_inputBuffer := b\<rparr>) w))"
  have r: "bindE (TcpConnection_send K c (next_string w) ?s) (\<lambda>w'.
      bindE (TcpConnection_shutdown K c w') (\<lambda>w'. Inr (delete_string (next_string w) w'))) = Inr w'"
    using assms c m len by (simp add: echo_onMessage_def new_string_def Let_def)
  then obtain v where v: "TcpConnection_send K c (next_string w) ?s = Inr v"
    "bindE (TcpConnection_shutdown K c v) (\<lambda>w'. Inr (delete_string (next_string w) w')) = Inr w'"
    unfolding bindE_eq_Inr by blast
  from v(2) obtain x where "TcpConnection_shutdown K c v = Inr x" "w' = delete_string (next_string w) x"
    unfolding bindE_eq_Inr by blast
  then show thesis using that c m len v(1) by blast
qed

lemma echo_onMessage_api:
  assumes "echo_onMessage K c t w = Inr w'"
  shows "api_run K w w'"
  using assms
proof (cases rule: echo_onMessage_steps)
  case (1 msg b v x)
  let ?u = "map_conn c (\<lambda>t. t\<lparr>tc_inputBuffer := b\<rparr>) w"
  let ?s = "snd (new_string msg ?u)"
  have "?u = map_conn c (\<lambda>t. t\<lparr>tc_inputBuffer := retrieve (readableBytes (tc_inputBuffer (conns w c))) (tc_inputBuffer t)\<rparr>) w"
    using retrieveAllAsString_eq [OF 1(2)] by (simp add: map_conn_def)
  then have u: "api_step K w ?u" using api_retrieve [OF 1(1)] by metis
  have s: "api_step K ?u ?s" by (rule api_new [OF 1(3)])
  have live: "c \<in> live ?s" using 1(1) by (simp add: new_string_def)
  have v: "api_step K ?s v" by (rule api_send [OF live 1(4)])
  have "c \<in> live v" using TcpConnection_send_live [OF 1(4)] live by simp
  then have x: "api_step K v x" by (rule api_shutdown [OF _ 1(5)])
  have "api_step K x w'" unfolding 1(6) by (rule api_delete)
  from api_more [OF api_more [OF api_more [OF api_more [OF api_more [OF api_done u] s] v] x] this] show ?thesis .
qed

lemma echo_user_law: "user_law K (echo_user K)"
  using echo_onConnection_api echo_onMessage_api api_done
  by (auto simp: user_law_def echo_user_def idle_user_def)

section \<open>The echo\<close>

lemma strings_update [simp]:
  fixes w :: "'z tworld_scheme"
  shows "only_io w (w\<lparr>strings := S\<rparr>)" "pending c (w\<lparr>strings := S\<rparr>) = pending c w" "conn_fd c (w\<lparr>strings := S\<rparr>) = conn_fd c w"
    "stream c (w\<lparr>strings := S\<rparr>) = stream c w" "conn_inv c (w\<lparr>strings := S\<rparr>) = conn_inv c w"
    "private_fd c (w\<lparr>strings := S\<rparr>) = private_fd c w"
    "shutdownInLoop K c (w\<lparr>strings := S\<rparr>) = (shutdownInLoop K c w)\<lparr>strings := S\<rparr>"
  by (auto simp: only_io_def pending_def conn_fd_def stream_def conn_inv_def private_fd_def shutdownInLoop_def
      Socket_shutdownWrite_def sys_shutdown_def record_event_def LOG_def Let_def split: sysret.split intro: exI [of _ "[]"])

text \<open>The world in which the callback sends: the message taken out of the input buffer and held in a string.\<close>

definition taken :: "conn_id \<Rightarrow> bytes \<Rightarrow> Buffer \<Rightarrow> 'z tworld_scheme \<Rightarrow> 'z tworld_scheme" where
  "taken c msg b w = snd (new_string msg (map_conn c (\<lambda>t. t\<lparr>tc_inputBuffer := b\<rparr>) w))"

lemma taken_simps [simp]:
  "chans (taken c msg b w) = chans w" "loops (taken c msg b w) = loops w" "ktrace (taken c msg b w) = ktrace w"
  "cur_tid (taken c msg b w) = cur_tid w" "live (taken c msg b w) = live w"
  "conns (taken c msg b w) c = (conns w c)\<lparr>tc_inputBuffer := b\<rparr>"
  "strings (taken c msg b w) = (strings w)(next_string w \<mapsto> msg)" "pending c (taken c msg b w) = pending c w"
  "conn_fd c (taken c msg b w) = conn_fd c w" "stream c (taken c msg b w) = stream c w"
  "private_fd c (taken c msg b w) = private_fd c w" "only_io w (taken c msg b w)"
  by (auto simp: taken_def new_string_def pending_def conn_fd_def stream_def private_fd_def only_io_def)

lemma in_thread_frame: "conn_frame c w w' \<Longrightarrow> isInLoopThread l w' = isInLoopThread l w"
  using conn_frameD(6) [of c w w' l] by (auto simp: loop_frame_def isInLoopThread_def)

lemma accepted_not_refused:
  assumes "accepts_writes K (conn_fd c w)" "tc_state (conns w c) = kConnected"
  shows "(if refuses K c data w then [] else data) = data"
proof (cases "data = []")
  case False
  then obtain n where "k_write K (ktrace w) (conn_fd c w) data = Ok n" using assms(1) by (auto simp: accepts_writes_def)
  then show ?thesis using assms(2) by (simp add: refuses_def)
qed simp

lemma sendInLoop_input:
  assumes "sendInLoop K c data w = Inr w'" "conn_inv c w" "length data \<le> max_size" "write_law K" "private_fd c w"
  shows "tc_inputBuffer (conns w' c) = tc_inputBuffer (conns w c)"
proof -
  have bi: "Buffer_inv (tc_outputBuffer (conns w c))" using assms(2) by (simp add: conn_inv_def)
  obtain nw rm fault v where wn: "write_now K c data w = (nw, rm, fault, v)" by (metis prod_cases4)
  note spec = write_now_spec [OF wn assms(3-5)]
  consider "conns w' = conns w" | "w' = v" | "buffer_rest K c data nw rm v = Inr w'"
    | "buffer_rest K c data 0 (length data) w = Inr w'"
    using assms(1)
    by (cases "tc_state (conns w c) = kDisconnected"; cases "\<not> isWriting (chans w (ConnChan c)) \<and> readableBytes (tc_outputBuffer (conns w c)) = 0";
        cases "\<not> fault \<and> 0 < rm") (auto simp: sendInLoop_def wn split: if_splits)
  then show ?thesis
  proof cases
    case 3
    have "Buffer_inv (tc_outputBuffer (conns v c))" "private_fd c v"
      using bi spec(2) private_fd_frame [OF assms(5) spec(1)] by simp_all
    then show ?thesis using buffer_rest_spec(7) [OF 3 assms(3) _ spec(4)] spec(2) by simp
  next
    case 4
    then show ?thesis using buffer_rest_spec(7) [OF 4 assms(3) bi _ assms(5)] by simp
  qed (simp_all add: spec(2))
qed

text \<open>
  C9: the echo: the message callback of the example takes everything received out of the input buffer,
  leaves the string it made destroyed and the connection closing; while the peer reads, finitely many
  writable events send the bytes that were still unsent and then exactly the bytes received, and the
  write side is shut down right behind them.
\<close>

theorem echo_reply:
  assumes "serves l (ConnChan c) p w" "epoll_ctl_law K" "write_law K" "conn_inv c w" "private_fd c w"
    and "tc_state (conns w c) = kConnected" "isInLoopThread (tc_loop (conns w c)) w" "c \<in> live w"
    and "accepts_writes K (conn_fd c w)" "strings w (next_string w) = None"
    and "length (pending c w) + 2 * length (Buffer_content (tc_inputBuffer (conns w c))) + 8 \<le> max_size"
  shows "\<exists>x m w' tr r. echo_onMessage K c t w = Inr x \<and> tc_state (conns x c) = kDisconnecting
    \<and> Buffer_content (tc_inputBuffer (conns x c)) = [] \<and> strings x = strings w
    \<and> passes (handleWrite K c) m x = Inr w' \<and> pending c w' = []
    \<and> ktrace w' = tr @ [EvShutdown (conn_fd c w) r]
    \<and> written (conn_fd c w) tr = stream c w @ Buffer_content (tc_inputBuffer (conns w c))"
proof -
  let ?msg = "Buffer_content (tc_inputBuffer (conns w c))"
  have len: "length ?msg \<le> max_size" using assms(11) by simp
  obtain b where b: "retrieveAllAsString (tc_inputBuffer (conns w c)) = Inr (?msg, b)" "Buffer_inv b" "Buffer_content b = []"
    using retrieveAsString_spec [of "tc_inputBuffer (conns w c)" 0] assms(4) by (auto simp: conn_inv_def)
  let ?s = "taken c ?msg b w"
  have s: "conn_inv c ?s" using assms(4) b(2) by (auto simp: conn_inv_def)
  have ss: "serves l (ConnChan c) p ?s" by (rule only_io_serves [OF _ assms(1)]) simp
  obtain p' v where v: "sendInLoop K c ?msg ?s = Inr v" "serves l (ConnChan c) p' v"
    using sendInLoop_total [OF ss assms(2,3) s, of ?msg] assms(5,11) by auto
  note spec = sendInLoop_spec [OF v(1) s len assms(3)]
  have fr: "conn_frame c ?s v" "conn_inv c v" "tc_state (conns v c) = kConnected"
    "stream c v = stream c w @ ?msg"
    using spec assms(5,6) accepted_not_refused [of K c ?s ?msg] assms(9) by simp_all
  have input: "tc_inputBuffer (conns v c) = b"
    using sendInLoop_input [OF v(1) s len assms(3)] assms(5) by simp
  have loop: "tc_loop (conns v c) = tc_loop (conns w c)" "conn_fd c v = conn_fd c w" "live v = live w"
    "strings v = (strings w)(next_string w \<mapsto> ?msg)"
    using conn_frameD(1,3) [OF fr(1), of c] fr(1) by (simp_all add: conn_frame_def)
  have th: "isInLoopThread (tc_loop (conns v c)) v"
    using in_thread_frame [OF fr(1)] assms(7) loop(1) by (simp add: isInLoopThread_def)
  have pr: "private_fd c v" using private_fd_frame [OF _ fr(1)] assms(5) by simp
  note sh = shutdown_in_loop [OF fr(2) v(2) pr fr(3) th]
  let ?y = "map_conn c (setState kDisconnecting) v" and ?S = "(strings v)(next_string w := None)"
  have send: "TcpConnection_send K c (next_string w) ?s = Inr v"
    using v(1) assms(6,7) by (simp add: TcpConnection_send_def isInLoopThread_def)
  have "echo_onMessage K c t w = Inr (delete_string (next_string w) (shutdownInLoop K c ?y))"
    using assms(8) b(1) len send sh(1) loop(3) by (simp add: echo_onMessage_def Let_def new_string_def taken_def)
  also have "delete_string (next_string w) (shutdownInLoop K c ?y) = shutdownInLoop K c (?y\<lparr>strings := ?S\<rparr>)"
    using shutdownInLoop_spec(1) [of c ?y K c] by (simp add: delete_string_def conn_frame_def)
  finally have x: "echo_onMessage K c t w = Inr (shutdownInLoop K c (?y\<lparr>strings := ?S\<rparr>))" .
  have "?S = strings w" using loop(4) assms(10) by auto
  have y: "serves l (ConnChan c) p' (?y\<lparr>strings := ?S\<rparr>)"
    by (rule only_io_serves [OF _ sh(3)]) (simp_all add: loop assms)
  have "accepts_writes K (conn_fd c (?y\<lparr>strings := ?S\<rparr>))" using assms(9) loop(2) sh(6) assms(8) loop(3) by simp
  then have "\<exists>m w' tr r. m \<le> length (pending c (?y\<lparr>strings := ?S\<rparr>))
      \<and> passes (handleWrite K c) m (shutdownInLoop K c (?y\<lparr>strings := ?S\<rparr>)) = Inr w'
      \<and> pending c w' = [] \<and> ktrace w' = tr @ [EvShutdown (conn_fd c w) r] \<and> written (conn_fd c w) tr = stream c w @ ?msg"
    using graceful_tail [OF _ y assms(2,3)] sh(2,4,5,6,8) loop assms(8) fr(4) by simp
  moreover have "tc_state (conns (shutdownInLoop K c (?y\<lparr>strings := ?S\<rparr>)) c) = kDisconnecting"
    "Buffer_content (tc_inputBuffer (conns (shutdownInLoop K c (?y\<lparr>strings := ?S\<rparr>)) c)) = []"
    "strings (shutdownInLoop K c (?y\<lparr>strings := ?S\<rparr>)) = strings w"
    using input b(3) sh(5) loop(3) assms(8) \<open>?S = strings w\<close>
    by (simp_all add: shutdownInLoop_spec(2) setState_def del: strings_update(7)) (simp_all add: shutdownInLoop_spec(2) setState_def)
  ultimately show ?thesis using x by blast
qed

text \<open>The demonstration connection with \<open>hi\<close> in its input buffer and \<open>he\<close> still unsent.\<close>

definition demo_asked :: tworld where
  "demo_asked = map_conn 0 (\<lambda>t. t\<lparr>tc_inputBuffer :=
     \<lparr>buf = replicate 8 (CHR 0x00) @ ''hi'', readerIndex = 8, writerIndex = 10\<rparr>\<rparr>) (demo_tworld kConnected ''he'')"

theorem echo_reply_witness:
  "\<exists>x m w' tr r. echo_onMessage (plain_kernel 1 []) 0 Timestamp_default demo_asked = Inr x
    \<and> passes (handleWrite (plain_kernel 1 []) 0) m x = Inr w' \<and> ktrace w' = tr @ [EvShutdown 7 r]
    \<and> written 7 tr = ''hehi''"
proof -
  let ?K = "plain_kernel 1 []" and ?d = "demo_tworld kConnected ''he''"
  have acc: "accepts_writes ?K (conn_fd 0 demo_asked)" by (auto simp: accepts_writes_def plain_kernel_def)
  have io: "only_io ?d demo_asked" by (simp add: demo_asked_def)
  have inv: "conn_inv 0 ?d" "private_fd 0 ?d" "serves 0 (ConnChan 0) demo_conn_poller ?d" by simp_all
  have f: "tc_state (conns demo_asked 0) = kConnected" "isInLoopThread (tc_loop (conns demo_asked 0)) demo_asked"
    "0 \<in> live demo_asked" "strings demo_asked (next_string demo_asked) = None" "pending 0 demo_asked = ''he''"
    "Buffer_content (tc_inputBuffer (conns demo_asked 0)) = ''hi''" "conn_fd 0 demo_asked = 7" "stream 0 demo_asked = ''he''"
  proof -
    have p: "pending 0 demo_asked = pending 0 ?d" "conn_fd 0 demo_asked = conn_fd 0 ?d" "ktrace demo_asked = ktrace ?d"
      "isInLoopThread l demo_asked = isInLoopThread l ?d" for l
      by (simp_all add: demo_asked_def pending_def conn_fd_def isInLoopThread_def)
    then show "pending 0 demo_asked = ''he''" "conn_fd 0 demo_asked = 7" "stream 0 demo_asked = ''he''"
      "isInLoopThread (tc_loop (conns demo_asked 0)) demo_asked"
      by (simp_all add: stream_def) (simp add: demo_asked_def)
    show "tc_state (conns demo_asked 0) = kConnected" "0 \<in> live demo_asked" "strings demo_asked (next_string demo_asked) = None"
      "Buffer_content (tc_inputBuffer (conns demo_asked 0)) = ''hi''"
      by (simp_all add: demo_asked_def Buffer_content_def)
  qed
  have "Buffer_inv (tc_inputBuffer (conns demo_asked 0))"
    by (simp add: demo_asked_def Buffer_inv_def kCheapPrepend_def max_size_def)
  then have ci: "conn_inv 0 demo_asked" using inv(1) f(5) by (simp add: conn_inv_def) (simp add: demo_asked_def)
  have pf: "private_fd 0 demo_asked" using inv(2) by (simp add: demo_asked_def private_fd_def conn_fd_def)
  show ?thesis
    using echo_reply [OF only_io_serves [OF io inv(3)] plain_kernel_laws(3,1) ci pf f(1-3) acc f(4), of Timestamp_default] f(5-8)
    by (simp add: max_size_def) blast
qed

end
