(* ===== verification/Startup.thy ===== *)
theory Startup
  imports System EchoServer
begin

text \<open>
  From the start of the process to the running server: the first loop, the acceptor, the loops of the pool,
  \<^verbatim>\<open>listen\<close>.  Every operation succeeds when the kernel gives what it is asked for, and ends in an
  \<open>initial\<close> configuration of the theory \<open>System\<close>.
\<close>

section \<open>A new loop\<close>

text \<open>The socket can be opened, bound to the address and put to listening.\<close>

definition listens_law :: "kernel \<Rightarrow> bool" where
  "listens_law K \<longleftrightarrow> (\<forall>tr. \<exists>s. k_socket K tr = Ok s) \<and> (\<forall>tr s a. k_bind K tr s a = Ok ())
     \<and> (\<forall>tr s n. k_listen K tr s n = Ok ())"

definition starts_law :: "kernel \<Rightarrow> int \<Rightarrow> bool" where
  "starts_law K main \<longleftrightarrow> epoll_ctl_law K \<and> fresh_law K \<and> opens_law K \<and> listens_law K \<and> clone_law K main"

definition new_poller :: "loop_id \<Rightarrow> fd \<Rightarrow> Poller" where
  "new_poller l ep = \<lparr>pl_channels = Map.empty, pl_owner = l, pl_epollfd = ep,
     pl_events = replicate kInitEventListSize zero_event\<rparr>"

lemma new_loop_more:
  "conns (new_loop_world l ep f w) = conns w" "live (new_loop_world l ep f w) = live w"
  "server (new_loop_world l ep f w) = server w" "next_conn (new_loop_world l ep f w) = next_conn w"
  "strings (new_loop_world l ep f w) = strings w"
proof -
  have m: "lworld.more (new_loop_world l ep f w) = lworld.more w" by (rule new_loop_world_fields(6))
  show "conns (new_loop_world l ep f w) = conns w" "live (new_loop_world l ep f w) = live w"
    "strings (new_loop_world l ep f w) = strings w" by (rule tworld_more [OF m])+
  show "server (new_loop_world l ep f w) = server w" "next_conn (new_loop_world l ep f w) = next_conn w"
    by (rule sworld_more [OF tworld_more(5) [OF m]])+
qed

lemma new_loop_sound:
  assumes sd: "sound w" and no: "el_poller (loops w l) = None" and law: "fresh_law K"
    and ep: "k_epoll_create K (ktrace w) = Ok ep" and f: "k_eventfd K (ktrace w @ [EvEpollCreate (Ok ep)]) = Ok f"
  shows "sound (new_loop_world l ep f w)"
proof -
  let ?n = "new_loop_world l ep f w" and ?W = "WakeupChan l"
  note F = new_loop_world_fields and M = new_loop_more [of l ep f w]
  have fds: "fds_ok w" and rg: "regs w" and cs: "conns_ok w" and tb: "table_ok w" and q: "queues_ok w"
    using sd by (auto simp: sound_def)
  have ep_new: "ep \<notin> open_fds (ktrace w)" "2 < ep" using law ep unfolding fresh_law_def by blast+
  have "f \<notin> open_fds (ktrace w @ [EvEpollCreate (Ok ep)])" "2 < f" using law f unfolding fresh_law_def by blast+
  then have f_new: "f \<notin> open_fds (ktrace w)" "f \<noteq> ep" "2 < f" by simp_all
  have opn: "open_fds (ktrace ?n) = insert f (insert ep (open_fds (ktrace w)))" by (simp add: F open_fds_append)
  have ch: "chans ?n c = chans w c" if "c \<noteq> ?W" for c using that by (simp add: F)
  have W: "ch_fd (chans ?n ?W) = f" "ch_loop (chans ?n ?W) = l" "ch_index (chans ?n ?W) = kNew"
    by (simp_all add: F Channel_ctor_def index_defs)
  have lo: "loops ?n k = loops w k" if "k \<noteq> l" for k using that by (simp add: F)
  have L: "el_poller (loops ?n l) = Some (new_poller l ep)" "el_wakeupFd (loops ?n l) = f"
    "el_pendingFunctors (loops ?n l) = []" "el_functors (loops ?n l) = []" by (simp_all add: F new_poller_def)
  have pre: "present ?n c \<longleftrightarrow> c = ?W \<or> present w c" for c
    by (cases c) (auto simp: L M lo F)
  have notW: "\<not> present w ?W" using no by simp
  have other: "c \<noteq> ?W" if "present w c" for c using notW that by blast
  have oldfd: "ch_fd (chans w c) \<in> open_fds (ktrace w)" "2 < ch_fd (chans w c)" if "present w c" for c
    using fds that by (auto simp: fds_ok_def)
  have oldep: "pl_epollfd p \<in> open_fds (ktrace w)" "k \<noteq> l" if "el_poller (loops w k) = Some p" for k p
    using fds no that by (auto simp: fds_ok_def)
  have "fds_ok ?n"
    unfolding fds_ok_def pre
  proof (intro conjI allI impI)
    fix c assume c: "c = ?W \<or> present w c"
    show "ch_fd (chans ?n c) \<in> open_fds (ktrace ?n)" "2 < ch_fd (chans ?n c)"
      using c oldfd [of c] ch [of c] by (cases "c = ?W"; simp add: W opn f_new)+
    fix d assume d: "d = ?W \<or> present w d" and e: "ch_fd (chans ?n c) = ch_fd (chans ?n d)"
    consider "c = ?W" "d = ?W" | "c \<noteq> ?W" "d \<noteq> ?W" | "c = ?W" "d \<noteq> ?W" | "c \<noteq> ?W" "d = ?W" by blast
    then show "c = d"
    proof cases
      case 2
      then show ?thesis using c d e fds ch by (auto simp: fds_ok_def)
    next
      case 3
      then show ?thesis using d e oldfd(1) [of d] ch [of d] f_new(1) by (auto simp: W)
    next
      case 4
      then show ?thesis using c e oldfd(1) [of c] ch [of c] f_new(1) by (auto simp: W)
    qed simp
  next
    fix c assume "ch_index (chans ?n c) \<noteq> kNew"
    then show "c = ?W \<or> present w c" using fds ch [of c] by (cases "c = ?W") (auto simp: fds_ok_def)
  next
    fix k show "if el_poller (loops ?n k) = None then el_wakeupFd (loops ?n k) \<le> 2
        else ch_fd (chans ?n (WakeupChan k)) = el_wakeupFd (loops ?n k)"
    proof (cases "k = l")
      case True
      then show ?thesis by (simp add: L W)
    next
      case False
      then show ?thesis using fds lo [OF False] ch [of "WakeupChan k"] unfolding fds_ok_def by simp
    qed
  next
    fix k p assume p: "el_poller (loops ?n k) = Some p"
    have cases: "k = l \<and> p = new_poller l ep \<or> k \<noteq> l \<and> el_poller (loops w k) = Some p"
      using p lo [of k] L(1) by (cases "k = l") simp_all
    have old: "pl_epollfd p \<in> open_fds (ktrace w)" if "k \<noteq> l" using cases that oldep(1) by blast
    show "pl_epollfd p \<in> open_fds (ktrace ?n)" using cases old by (auto simp: opn new_poller_def)
    show "ch_fd (chans ?n c) \<noteq> pl_epollfd p" if c: "c = ?W \<or> present w c" for c
    proof (cases "c = ?W")
      case True
      then show ?thesis using cases old f_new by (auto simp: W new_poller_def)
    next
      case False
      then have "present w c" using c by blast
      then show ?thesis using cases oldfd(1) ch [OF False] ep_new(1) fds by (auto simp: new_poller_def fds_ok_def)
    qed
    show "k' = k" if p': "el_poller (loops ?n k') = Some p'" "pl_epollfd p' = pl_epollfd p" for k' p'
    proof -
      have cases': "k' = l \<and> p' = new_poller l ep \<or> k' \<noteq> l \<and> el_poller (loops w k') = Some p'"
        using p'(1) lo [of k'] L(1) by (cases "k' = l") simp_all
      have "pl_epollfd p' \<in> open_fds (ktrace w)" if "k' \<noteq> l" using cases' that oldep(1) by blast
      then show ?thesis using cases cases' old p'(2) ep_new(1) fds by (auto simp: new_poller_def fds_ok_def)
    qed
  qed
  moreover have "regs ?n"
    unfolding regs_def pre
  proof (intro conjI allI impI ballI)
    fix k p assume p: "el_poller (loops ?n k) = Some p"
    have "pl_owner p = k \<and> poller_inv p ?n"
    proof (cases "k = l")
      case True
      have "\<forall>c. ch_loop (chans w c) = l \<longrightarrow> ch_index (chans w c) = kNew"
        using rg fds no unfolding regs_def fds_ok_def by blast
      from new_loop_serves [OF this, of ep f] True p L(1) show ?thesis by (auto simp: serves_def new_poller_def)
    next
      case False
      then have pw: "el_poller (loops w k) = Some p" using p lo by simp
      then have inv: "pl_owner p = k" "poller_inv p w" using rg by (auto simp: regs_def)
      have "ep \<noteq> pl_epollfd p" using oldep(1) [OF pw] ep_new(1) by metis
      then have int: "interest (pl_epollfd p) (ktrace ?n) = interest (pl_epollfd p) (ktrace w)"
        by (simp add: F interest_append)
      have "ch_index (chans w ?W) = kNew" using fds notW by (auto simp: fds_ok_def)
      from poller_inv_construct [OF inv(2) this _ F(4) int] show ?thesis
        using inv(1) by (simp add: Channel_ctor_def index_defs)
    qed
    then show "pl_owner p = k" "poller_inv p ?n" by auto
  next
    fix c assume "c = ?W \<or> present w c"
    then show "el_poller (loops ?n (ch_loop (chans ?n c))) \<noteq> None"
      using rg ch [of c] lo L(1) W(2) unfolding regs_def by (cases "c = ?W"; cases "ch_loop (chans w c) = l") auto
  next
    fix k assume "k \<in> set (server_loops ?n)"
    then have "k \<in> set (server_loops w)" by (simp add: server_loops_def M)
    then show "el_poller (loops ?n k) \<noteq> None" using rg lo L(1) unfolding regs_def by (cases "k = l") auto
  qed
  moreover have "conns_ok ?n"
    unfolding conns_ok_def pre M(2)
  proof (intro conjI ballI allI impI)
    fix c assume "c \<in> live w"
    then show "conn_ok c ?n" using cs by (simp add: conns_ok_def conn_ok_def M server_loops_def ch)
  next
    fix c assume "c = ?W \<or> present w c"
    then show "bound_ok c (chans ?n c)"
      using cs ch [of c] by (cases "c = ?W") (auto simp: conns_ok_def F Channel_ctor_def)
  qed
  moreover have "table_ok ?n" using tb by (simp add: table_ok_def M)
  moreover have "queues_ok ?n"
    unfolding queues_ok_def
  proof (intro allI ballI)
    fix k g assume g: "g \<in> set (el_pendingFunctors (loops ?n k) @ el_functors (loops ?n k))"
    then have k: "k \<noteq> l" using L by auto
    then have "functor_ok k g w" using q g lo by (simp add: queues_ok_def)
    then show "functor_ok k g ?n" by (rule functor_ok_mono) (simp_all add: M)
  qed
  ultimately show ?thesis by (simp add: sound_def)
qed

section \<open>The pool\<close>

definition idle_loops :: "'z lworld_scheme \<Rightarrow> bool" where
  "idle_loops w \<longleftrightarrow> (\<forall>l. el_pendingFunctors (loops w l) = [] \<and> el_functors (loops w l) = []
     \<and> \<not> el_callingPendingFunctors (loops w l) \<and> \<not> el_quit (loops w l))"

definition watching :: "nat \<Rightarrow> 'z cworld_scheme \<Rightarrow> bool" where
  "watching n w \<longleftrightarrow> (\<forall>l < n. ch_index (chans w (WakeupChan l)) = kAdded \<and> ch_events (chans w (WakeupChan l)) = kReadEvent)"

text \<open>Loops 0 to \<open>n\<close> - 1 have been constructed, each in a thread of its own; thread \<open>m\<close> is running.\<close>

definition booting :: "int \<Rightarrow> nat \<Rightarrow> 'z sworld_scheme \<Rightarrow> bool" where
  "booting m n w \<longleftrightarrow> sound w \<and> watching n w \<and> live w = {} \<and> strings_ok w \<and> idle_loops w \<and> (\<forall>l. el_poller (loops w l) = None \<longleftrightarrow> n \<le> l)
     \<and> (\<forall>l < n. el_threadId (loops w l) \<in> insert m (cloned (ktrace w))) \<and> inj_on (\<lambda>l. el_threadId (loops w l)) {..<n}
     \<and> threads_known m w \<and> cur_tid w = m \<and> el_threadId (loops w 0) = m \<and> ch_loop (chans w AcceptChan) = 0"

lemma sound_numCreated: "sound w \<Longrightarrow> sound (w\<lparr>numCreated := k\<rparr>)"
  by (erule sound_elsewhere) simp_all

lemma sound_clone: "sound w \<Longrightarrow> sound (record_event (EvClone t) w)"
  by (erule sound_elsewhere) simp_all

lemma EventLoop_ctor_sound:
  assumes law: "epoll_ctl_law K" "fresh_law K" "opens_law K" and sd: "sound w" and no: "el_poller (loops w l) = None"
    and free: "loopInThread w (cur_tid w) = None" and r: "EventLoop_ctor K l w = Inr w'"
  shows "sound w'" "\<And>k. el_poller (loops w' k) = None \<longleftrightarrow> k \<noteq> l \<and> el_poller (loops w k) = None"
    "idle_loops w \<Longrightarrow> idle_loops w'" "live w' = live w" "server w' = server w" "next_conn w' = next_conn w"
    "strings w' = strings w" "watching l w \<Longrightarrow> watching (Suc l) w'" "chans w' AcceptChan = chans w AcceptChan"
proof -
  obtain ep where ep: "k_epoll_create K (ktrace w) = Ok ep" using law(3) by (auto simp: opens_law_def)
  obtain f where f: "k_eventfd K (ktrace w @ [EvEpollCreate (Ok ep)]) = Ok f" using law(3) unfolding opens_law_def by meson
  have poll: "\<not> k_getenv_poll K" using law(3) by (simp add: opens_law_def)
  let ?n = "new_loop_world l ep f w"
  have sn: "sound ?n" by (rule new_loop_sound [OF sd no law(2) ep f])
  have en: "enableReading K (WakeupChan l) ?n = Inr w'" using r EventLoop_ctor_opens [OF poll ep f free] by simp
  have pr: "present ?n (WakeupChan l)" by (simp add: new_loop_world_fields)
  have up: "sound w'" "channel_op read_on (WakeupChan l) ?n w'"
    "\<And>k. (el_poller (loops w' k) = None) = (el_poller (loops ?n k) = None)"
    using switch_sound(1) [OF sn pr law(1) en] by auto
  show "sound w'" by (rule up(1))
  show "el_poller (loops w' k) = None \<longleftrightarrow> k \<noteq> l \<and> el_poller (loops w k) = None" for k
    unfolding up(3) by (simp add: new_loop_world_fields)
  obtain q where "loops w' = (loops ?n)(l := (loops ?n l)\<lparr>el_poller := q\<rparr>)"
    using up(2) by (auto simp: channel_op_def new_loop_world_fields Channel_ctor_def)
  then show "idle_loops w \<Longrightarrow> idle_loops w'" by (auto simp: idle_loops_def new_loop_world_fields)
  show "live w' = live w" "server w' = server w" "next_conn w' = next_conn w" "strings w' = strings w"
    using channel_op_world [OF up(2)] new_loop_more [of l ep f w] by simp_all
  have "\<forall>ch. ch_loop (chans w ch) = l \<longrightarrow> ch_index (chans w ch) = kNew"
    using sd no unfolding sound_def regs_def fds_ok_def by blast
  from EventLoop_ctor_total [OF law(1) poll ep f free this] r
  have new: "chans w' (WakeupChan l) = set_index kAdded (read_on ((Channel_ctor l f)\<lparr>ch_readCallback := Some (Bind_EventLoop_handleRead l)\<rparr>))"
    by auto
  show "chans w' AcceptChan = chans w AcceptChan" using channel_opD(6) [OF up(2), of AcceptChan] by (simp add: new_loop_world_fields)
  have "chans w' (WakeupChan k) = chans w (WakeupChan k)" if "k \<noteq> l" for k
    using channel_opD(6) [OF up(2), of "WakeupChan k"] that by (simp add: new_loop_world_fields)
  then show "watching l w \<Longrightarrow> watching (Suc l) w'"
    using new by (auto simp: watching_def less_Suc_eq) (auto simp: Channel_ctor_def set_index_def read_on_def)
qed

lemma booting_next:
  assumes law: "starts_law K m" and b: "booting m n w" and cb: "et_callback t = None" and n: "0 < n"
  shows "\<exists>t' w'. EventLoopThread_startLoop K U n t w = Inr (n, t', w') \<and> booting m (Suc n) w' \<and> server w' = server w
    \<and> next_conn w' = next_conn w"
proof -
  note B = b [unfolded booting_def]
  have laws: "epoll_ctl_law K" "fresh_law K" "opens_law K" "clone_law K m" using law by (simp_all add: starts_law_def)
  have cb': "init_law U (et_callback t)" using cb by (simp add: init_law_def)
  have un: "unused_from n w"
    unfolding unused_from_def
  proof (intro allI impI)
    fix ch assume "n \<le> ch_loop (chans w ch)"
    then show "ch_index (chans w ch) = kNew" using B unfolding sound_def regs_def fds_ok_def by blast
  qed
  obtain t' w' where r: "EventLoopThread_startLoop K U n t w = Inr (n, t', w')"
    "th_tid (et_thread t') \<notin> insert m (cloned (ktrace w))" "th_tid (et_thread t') \<in> cloned (ktrace w')"
    "el_threadId (loops w' n) = th_tid (et_thread t')"
    "\<forall>k. k \<noteq> n \<longrightarrow> el_threadId (loops w' k) = el_threadId (loops w k)"
    "cur_tid w' = cur_tid w" "cloned (ktrace w) \<subseteq> cloned (ktrace w')" "threads_known m w'"
    using startLoop_new [OF laws(1,3,4) cb' _ un] B by blast
  let ?i = "k_clone K (ktrace w)"
  let ?v = "(record_event (EvClone ?i) w)\<lparr>cur_tid := ?i\<rparr>"
  obtain x where x: "EventLoop_ctor K n ?v = Inr x" "w' = x\<lparr>cur_tid := cur_tid w\<rparr>"
    using r(1) cb by (auto simp: EventLoopThread_startLoop_def Thread_start_def sys_clone_def run_in_def threadFunc_begin_def
        Let_def record_event_def)
  have "sound w" using B by blast
  then have sv: "sound ?v" using sound_clone [of w ?i] by simp
  have no: "el_poller (loops ?v n) = None" using B by simp
  have free: "loopInThread ?v (cur_tid ?v) = None"
  proof -
    have "?i \<notin> insert m (cloned (ktrace w))" using laws(4) by (simp add: clone_law_def)
    then show ?thesis using B by (auto simp: threads_known_def domIff subset_iff)
  qed
  note C = EventLoop_ctor_sound [OF laws(1-3) sv no free x(1)]
  have "idle_loops ?v" using B by (simp add: idle_loops_def)
  then have idle: "idle_loops w'" using C(3) by (simp add: idle_loops_def x(2))
  have "booting m (Suc n) w'"
    unfolding booting_def
  proof (intro conjI allI impI)
    show "sound w'" using C(1) by (simp add: x(2))
    show "live w' = {}" using C(4) B by (simp add: x(2))
    show "length s \<le> max_size" if "strings w' p = Some s" for p s using that C(7) B by (simp add: x(2))
    have "watching n ?v" using B by (simp add: watching_def)
    then show "watching (Suc n) w'" using C(8) by (simp add: watching_def x(2))
    show "idle_loops w'" by (rule idle)
    show "ch_loop (chans w' AcceptChan) = 0" using C(9) B by (simp add: x(2))
    show "el_poller (loops w' l) = None \<longleftrightarrow> Suc n \<le> l" for l using C(2) [of l] B by (auto simp: x(2))
    show "el_threadId (loops w' l) \<in> insert m (cloned (ktrace w'))" if "l < Suc n" for l
    proof (cases "l = n")
      case False
      then have "el_threadId (loops w l) \<in> insert m (cloned (ktrace w))" using that B by simp
      then show ?thesis using r(5,7) False by auto
    qed (use r(3,4) in simp)
    show "inj_on (\<lambda>l. el_threadId (loops w' l)) {..<Suc n}"
    proof (rule inj_onI)
      fix k l assume kl: "k \<in> {..<Suc n}" "l \<in> {..<Suc n}" "el_threadId (loops w' k) = el_threadId (loops w' l)"
      have old: "el_threadId (loops w' j) \<noteq> el_threadId (loops w' n)" if "j < n" for j
        using that r(2,4,5) B by auto
      consider "k = n" "l = n" | "k < n" "l < n" | "k = n" "l < n" | "k < n" "l = n" using kl(1,2) by force
      then show "k = l"
      proof cases
        case 2
        then show ?thesis using kl(3) r(5) B by (auto simp: inj_on_def)
      qed (use old kl(3) in auto)
    qed
  qed (use r(5,6,8) B n in auto)
  moreover have "server w' = server w" "next_conn w' = next_conn w" using C(5,6) by (simp_all add: x(2))
  ultimately show ?thesis using r(1) by blast
qed

lemma start_one_boots:
  assumes law: "starts_law K m" and b: "booting m (Suc (length (tp_loops p))) w"
  shows "\<exists>t w'. start_one K U None i (p, w)
      = Inr (p\<lparr>tp_threads := tp_threads p @ [t], tp_loops := tp_loops p @ [Suc (length (tp_loops p))]\<rparr>, w')
    \<and> booting m (Suc (Suc (length (tp_loops p)))) w' \<and> server w' = server w \<and> next_conn w' = next_conn w"
proof -
  obtain th v where c: "Thread_ctor (thread_name p (int i)) w = (th, v)" by force
  obtain k where v: "v = w\<lparr>numCreated := k\<rparr>" using Thread_ctor_world [of "thread_name p (int i)" w] c by auto
  let ?t = "\<lparr>et_loop = None, et_exiting = False, et_thread = th, et_callback = None :: user_fun option\<rparr>"
  have "booting m (Suc (length (tp_loops p))) v"
    using b by (simp add: booting_def v idle_loops_def threads_known_def watching_def sound_numCreated)
  from booting_next [OF law this, of ?t U] obtain t' w' where
    "EventLoopThread_startLoop K U (Suc (length (tp_loops p))) ?t v = Inr (Suc (length (tp_loops p)), t', w')"
    "booting m (Suc (Suc (length (tp_loops p)))) w'" "server w' = server v" "next_conn w' = next_conn v"
    by auto
  then show ?thesis using c by (auto simp: start_one_def EventLoopThread_ctor_def v)
qed

lemma pool_boots:
  assumes law: "starts_law K m" and b: "booting m 1 w" and p: "tp_loops p = []"
  shows "\<exists>ts w'. foldE (start_one K U None) [0..<n] (p, w) = Inr (p\<lparr>tp_threads := ts, tp_loops := [1..<Suc n]\<rparr>, w')
    \<and> booting m (Suc n) w' \<and> server w' = server w \<and> next_conn w' = next_conn w"
proof (induction n)
  case 0
  have "p = p\<lparr>tp_threads := tp_threads p, tp_loops := []\<rparr>" using p by simp
  then have "foldE (start_one K U None) [0..<0] (p, w) = Inr (p\<lparr>tp_threads := tp_threads p, tp_loops := [1..<Suc 0]\<rparr>, w)" by simp
  moreover have "booting m (Suc 0) w" using b by simp
  ultimately show ?case by blast
next
  case (Suc n)
  then obtain ts v where v: "foldE (start_one K U None) [0..<n] (p, w) = Inr (p\<lparr>tp_threads := ts, tp_loops := [1..<Suc n]\<rparr>, v)"
    "booting m (Suc n) v" "server v = server w" "next_conn v = next_conn w" by blast
  let ?p = "p\<lparr>tp_threads := ts, tp_loops := [1..<Suc n]\<rparr>"
  have len: "length (tp_loops ?p) = n" by simp
  from start_one_boots [OF law, of ?p v U n] v(2) obtain t w' where
    "start_one K U None n (?p, v) = Inr (?p\<lparr>tp_threads := ts @ [t], tp_loops := [1..<Suc n] @ [Suc n]\<rparr>, w')"
    "booting m (Suc (Suc n)) w'" "server w' = server v" "next_conn w' = next_conn v"
    unfolding len by auto
  moreover have "[1..<Suc (Suc n)] = [1..<Suc n] @ [Suc n]" by simp
  ultimately show ?case using v by (auto simp: foldE_append)
qed

section \<open>The first loop and the server\<close>

text \<open>A process before its first loop: no channel is registered, no thread has a loop.\<close>

definition blank :: "'z sworld_scheme \<Rightarrow> bool" where
  "blank w \<longleftrightarrow> live w = {} \<and> strings_ok w \<and> loopInThread w = Map.empty \<and> (\<forall>ch. ch_index (chans w ch) = kNew)
     \<and> (\<forall>l. el_poller (loops w l) = None \<and> el_wakeupFd (loops w l) \<le> 2) \<and> idle_loops w"

text \<open>One loop with its wakeup channel, the acceptor's channel, and nothing else.\<close>

definition first_loop :: "fd \<Rightarrow> fd \<Rightarrow> fd \<Rightarrow> 'z sworld_scheme \<Rightarrow> bool" where
  "first_loop ep f s w \<longleftrightarrow> distinct [ep, f, s] \<and> 2 < f \<and> 2 < s \<and> {ep, f, s} \<subseteq> open_fds (ktrace w)
     \<and> live w = {} \<and> strings_ok w \<and> idle_loops w \<and> (\<forall>l \<noteq> 0. el_poller (loops w l) = None \<and> el_wakeupFd (loops w l) \<le> 2)
     \<and> (\<exists>p. el_poller (loops w 0) = Some p \<and> pl_owner p = 0 \<and> poller_inv p w \<and> pl_epollfd p = ep)
     \<and> el_wakeupFd (loops w 0) = f \<and> ch_fd (chans w (WakeupChan 0)) = f \<and> ch_fd (chans w AcceptChan) = s
     \<and> watching 1 w \<and> ch_loop (chans w AcceptChan) = 0 \<and> bound_ok (WakeupChan 0) (chans w (WakeupChan 0)) \<and> bound_ok AcceptChan (chans w AcceptChan)
     \<and> (\<forall>ch. ch_index (chans w ch) \<noteq> kNew \<longrightarrow> ch = WakeupChan 0) \<and> server_loops w = [0] \<and> server_ok (server w)
     \<and> tp_baseLoop (sv_threadPool (server w)) = 0 \<and> sv_connections (server w) = []"

lemma first_loop_sound:
  assumes "first_loop ep f s w"
  shows "sound w"
proof -
  note F = assms [unfolded first_loop_def]
  obtain p where p: "el_poller (loops w 0) = Some p" "pl_owner p = 0" "poller_inv p w" "pl_epollfd p = ep" using F by blast
  have pre: "present w ch \<longleftrightarrow> ch = WakeupChan 0 \<or> ch = AcceptChan" for ch
    using F p(1) by (cases ch) (auto simp: neq0_conv)
  have one: "el_poller (loops w l) = Some q \<longleftrightarrow> l = 0 \<and> q = p" for l q using F p(1) by (cases "l = 0") auto
  have wl: "ch_loop (chans w (WakeupChan 0)) = 0" using F by simp
  have dis: "ep \<noteq> f" "ep \<noteq> s" "f \<noteq> s" using F by simp_all
  have fds: "ch_fd (chans w ch) = (if ch = WakeupChan 0 then f else s)" if "present w ch" for ch
    using that F unfolding pre by auto
  have "fds_ok w"
    unfolding fds_ok_def
  proof (intro conjI allI impI)
    fix ch assume ch: "present w ch"
    show "ch_fd (chans w ch) \<in> open_fds (ktrace w)" "2 < ch_fd (chans w ch)" using fds [OF ch] F by auto
    fix ch' assume "present w ch'" "ch_fd (chans w ch) = ch_fd (chans w ch')"
    then show "ch = ch'" using ch dis F unfolding pre by auto
  next
    fix ch assume "ch_index (chans w ch) \<noteq> kNew"
    then show "present w ch" using F unfolding pre by blast
  next
    fix l show "if el_poller (loops w l) = None then el_wakeupFd (loops w l) \<le> 2
        else ch_fd (chans w (WakeupChan l)) = el_wakeupFd (loops w l)"
      using F p(1) by (cases "l = 0") auto
  next
    fix l q assume q: "el_poller (loops w l) = Some q"
    show "pl_epollfd q \<in> open_fds (ktrace w)" using q F p(4) one by auto
    show "ch_fd (chans w ch) \<noteq> pl_epollfd q" if "present w ch" for ch
      using fds [OF that] q p(4) dis one by (auto split: if_splits)
    show "l' = l" if "el_poller (loops w l') = Some q'" for l' q' using that q one by simp
  qed
  moreover have "regs w" using p F wl unfolding regs_def pre one by (auto simp: one)
  moreover have "conns_ok w" using F unfolding conns_ok_def pre by auto
  moreover have "table_ok w" using F by (auto simp: table_ok_def server_loops_def)
  moreover have "queues_ok w" using F by (simp add: queues_ok_def idle_loops_def)
  ultimately show ?thesis by (simp add: sound_def)
qed

lemma server_boots:
  assumes law: "starts_law K m" and b: "blank w" and m: "cur_tid w = m"
  shows "\<exists>w1 w2. EventLoop_ctor K 0 w = Inr w1 \<and> TcpServer_ctor K (Some 0) a name opt w1 = Inr w2 \<and> booting m 1 w2
    \<and> sv_loop (server w2) = 0 \<and> sv_threadPool (server w2) = EventLoopThreadPool_ctor 0 name \<and> sv_started (server w2) = 0
    \<and> sv_threadInitCallback (server w2) = None \<and> sv_nextConnId (server w2) = 1 \<and> sv_connections (server w2) = []
    \<and> ac_newConnectionCallback (sv_acceptor (server w2)) = Some Bind_TcpServer_newConnection"
proof -
  note B = b [unfolded blank_def]
  have laws: "epoll_ctl_law K" "fresh_law K" "opens_law K" "listens_law K" using law by (simp_all add: starts_law_def)
  obtain ep where ep: "k_epoll_create K (ktrace w) = Ok ep" using laws(3) by (auto simp: opens_law_def)
  obtain f where f: "k_eventfd K (ktrace w @ [EvEpollCreate (Ok ep)]) = Ok f" using laws(3) unfolding opens_law_def by meson
  have poll: "\<not> k_getenv_poll K" using laws(3) by (simp add: opens_law_def)
  let ?n = "new_loop_world 0 ep f w"
  obtain p w1 where w1: "EventLoop_ctor K 0 w = Inr w1" "serves 0 (WakeupChan 0) p w1" "pl_epollfd p = ep"
    "chans w1 (WakeupChan 0) = set_index kAdded (read_on ((Channel_ctor 0 f)\<lparr>ch_readCallback := Some (Bind_EventLoop_handleRead 0)\<rparr>))"
    "channel_op read_on (WakeupChan 0) ?n w1"
    using EventLoop_ctor_total [OF laws(1) poll ep f, of 0] B by auto
  have ch1: "chans w1 c = chans w c" if "c \<noteq> WakeupChan 0" for c
    using channel_opD(6) [OF w1(5), of c] that by (simp add: new_loop_world_fields)
  have opn1: "open_fds (ktrace w1) = insert f (insert ep (open_fds (ktrace w)))"
    using channel_opD(1) [OF w1(5)] by (simp add: new_loop_world_fields open_fds_append)
  have el1: "el_poller (loops w1 0) = Some p" "pl_owner p = 0" "poller_inv p w1" using w1(2) by (auto simp: serves_def)
  obtain q where "loops w1 = (loops ?n)(0 := (loops ?n 0)\<lparr>el_poller := q\<rparr>)"
    using w1(5) by (auto simp: channel_op_def new_loop_world_fields Channel_ctor_def)
  then have lo1: "loops w1 l = (if l = 0 then loops w1 0 else loops w l)" "el_wakeupFd (loops w1 0) = f"
    "el_threadId (loops w1 0) = m" "idle_loops w1" for l
    using B m by (auto simp: new_loop_world_fields idle_loops_def)
  obtain s where s: "k_socket K (ktrace w1) = Ok s" using laws(4) unfolding listens_law_def by meson
  have bd: "k_bind K tr x y = Ok ()" for tr x y using laws(4) by (simp add: listens_law_def)
  have ep': "ep \<notin> open_fds (ktrace w)" using laws(2) ep unfolding fresh_law_def by blast
  have "f \<notin> open_fds (ktrace w @ [EvEpollCreate (Ok ep)]) \<and> 2 < f" using laws(2) f unfolding fresh_law_def by blast
  then have f': "f \<noteq> ep" "2 < f" by simp_all
  have "s \<notin> open_fds (ktrace w1) \<and> 2 < s" using laws(2) s unfolding fresh_law_def by blast
  then have s': "s \<noteq> f" "s \<noteq> ep" "2 < s" by (simp_all add: opn1)
  have "pl_channels p s = None"
  proof (rule ccontr)
    assume "pl_channels p s \<noteq> None"
    then obtain c where "pl_channels p s = Some c" by blast
    note slot = poller_inv_slot [OF el1(3) this]
    have "ch_index (chans w1 c) \<noteq> kNew" using slot(3) by (auto simp: index_defs)
    then have "c = WakeupChan 0" using ch1 [of c] B by metis
    then show False using slot(1) s'(1) by (simp add: w1(4) set_index_def read_on_def Channel_ctor_def)
  qed
  then obtain v where v: "Acceptor_ctor K 0 a (opt = kReusePort) w1 = Inr (\<lparr>ac_loop = 0, ac_acceptSocket = s,
        ac_newConnectionCallback = None, ac_listening = False\<rparr>, v)" "serves 0 AcceptChan p v"
    "open_fds (ktrace v) = insert s (open_fds (ktrace w1))"
    using Acceptor_ctor_serves [OF s bd el1, where reuseport = "opt = kReusePort" and listenAddr = a] ch1 [of AcceptChan] B by auto
  obtain v' where v': "Acceptor_ctor K 0 a (opt = kReusePort) w1 = Inr (\<lparr>ac_loop = 0, ac_acceptSocket = s,
        ac_newConnectionCallback = None, ac_listening = False\<rparr>, v')"
    "chans v' = (chans w1)(AcceptChan := (Channel_ctor 0 s)\<lparr>ch_readCallback := Some Bind_Acceptor_handleRead\<rparr>)"
    "cur_tid v' = cur_tid w1" "cworld.more v' = cworld.more w1"
    "ktrace v' = ktrace w1 @ [EvSocket (Ok s), EvSetsockopt s SO_REUSEADDR 1, EvSetsockopt s SO_REUSEPORT 1,
        EvBind s (InetAddress_getSockAddr a) (Ok ())]"
    using Acceptor_ctor_opens [OF s bd, where loop = 0 and reuseport = "opt = kReusePort"] by blast
  have vv: "v' = v" using v(1) v'(1) by simp
  have W: "loops v = loops w1" "loopInThread v = loopInThread w1" "live v = {}" "lworld.more v = lworld.more w1"
    "strings v = strings w"
    using v'(4) channel_opD(5) [OF w1(5)] B tworld_more(2,3) [of v w1] lworld_more [of v w1] channel_op_world(2,5) [OF w1(5)]
      new_loop_more(2,5) [of 0 ep f w]
    by (simp_all add: vv)
  obtain ip where ip: "InetAddress_toIpPort a = Inr ip" "length ip \<le> 21" "CHR 0x00 \<notin> set ip" using toIpPort_total [of a] by blast
  let ?sv = "\<lparr>sv_loop = 0, sv_ipPort = ip, sv_name = name,
       sv_acceptor = Acceptor_setNewConnectionCallback Bind_TcpServer_newConnection
         \<lparr>ac_loop = 0, ac_acceptSocket = s, ac_newConnectionCallback = None, ac_listening = False\<rparr>,
       sv_threadPool = EventLoopThreadPool_ctor 0 name,
       sv_connectionCallback = None, sv_messageCallback = None, sv_writeCompeleteCallback = None,
       sv_threadInitCallback = None, sv_started = 0, sv_nextConnId = 1, sv_connections = []\<rparr>"
  let ?w2 = "v\<lparr>server := ?sv\<rparr>"
  have r: "TcpServer_ctor K (Some 0) a name opt w1 = Inr ?w2"
    using v(1) ip(1) by (simp add: TcpServer_ctor_def server_CheckLoopNotNull_def)
  have "server_ok ?sv" using ip by (simp add: server_ok_def pool_inv_def EventLoopThreadPool_ctor_def INT_MAX_def)
  note sok = this
  have pi: "poller_inv p ?w2" using v(2) poller_inv_same [of p v ?w2] by (simp add: serves_def)
  have cW: "chans ?w2 (WakeupChan 0) = set_index kAdded (read_on ((Channel_ctor 0 f)\<lparr>ch_readCallback := Some (Bind_EventLoop_handleRead 0)\<rparr>))"
    and cA: "chans ?w2 AcceptChan = (Channel_ctor 0 s)\<lparr>ch_readCallback := Some Bind_Acceptor_handleRead\<rparr>"
    and cO: "\<And>c. c \<noteq> WakeupChan 0 \<Longrightarrow> c \<noteq> AcceptChan \<Longrightarrow> chans ?w2 c = chans w c"
    using v'(2) w1(4) ch1 by (simp_all add: vv)
  have fl: "first_loop ep f s ?w2"
    unfolding first_loop_def
  proof (intro conjI allI impI)
    show "distinct [ep, f, s]" "2 < f" "2 < s" using s' f' by auto
    show "{ep, f, s} \<subseteq> open_fds (ktrace ?w2)" using v(3) opn1 by simp
    show "length x \<le> max_size" if "strings ?w2 a = Some x" for a x using that B W(5) by simp
    show "idle_loops ?w2" using lo1(4) W(1) by (simp add: idle_loops_def)
    show "el_poller (loops ?w2 l) = None" "el_wakeupFd (loops ?w2 l) \<le> 2" if "l \<noteq> 0" for l
      using B W(1) lo1(1) [of l] that by simp_all
    show "\<exists>p. el_poller (loops ?w2 0) = Some p \<and> pl_owner p = 0 \<and> poller_inv p ?w2 \<and> pl_epollfd p = ep"
      using pi el1 W(1) w1(3) by auto
    show "watching 1 ?w2"
      unfolding watching_def less_one by (simp only: cW simp_thms) (simp add: Channel_ctor_def set_index_def read_on_def)
    show "ch_fd (chans ?w2 (WakeupChan 0)) = f" "ch_fd (chans ?w2 AcceptChan) = s" "ch_loop (chans ?w2 AcceptChan) = 0"
      "bound_ok (WakeupChan 0) (chans ?w2 (WakeupChan 0))" "bound_ok AcceptChan (chans ?w2 AcceptChan)"
      unfolding cW cA by (simp_all add: Channel_ctor_def set_index_def read_on_def)
    show "c = WakeupChan 0" if "ch_index (chans ?w2 c) \<noteq> kNew" for c
    proof (rule ccontr)
      assume c: "c \<noteq> WakeupChan 0"
      then have "ch_index (chans ?w2 c) = kNew"
        using cA cO [OF c] B by (cases "c = AcceptChan") (simp_all add: Channel_ctor_def index_defs)
      with that show False by simp
    qed
  qed (use W(1,3) lo1(2) sok in \<open>simp_all add: server_loops_def EventLoopThreadPool_ctor_def\<close>)
  have thread: "loopInThread ?w2 = [m \<mapsto> 0]" "cur_tid ?w2 = m" "el_threadId (loops ?w2 0) = m"
    using v'(3) channel_opD(4,8) [OF w1(5)] B m W(1,2) lo1(3) by (simp_all add: vv new_loop_world_fields)
  have "booting m 1 ?w2"
    unfolding booting_def
  proof (intro conjI allI impI)
    show "sound ?w2" by (rule first_loop_sound [OF fl])
    show "el_poller (loops ?w2 l) = None \<longleftrightarrow> 1 \<le> l" for l using fl by (cases "l = 0") (auto simp: first_loop_def)
    show "threads_known m ?w2" by (simp add: threads_known_def thread(1))
    show "inj_on (\<lambda>l. el_threadId (loops ?w2 l)) {..<1}" by (simp add: inj_on_def)
  qed (use fl thread in \<open>auto simp: first_loop_def\<close>)
  moreover have "ac_newConnectionCallback (sv_acceptor (server ?w2)) = Some Bind_TcpServer_newConnection"
    by (simp add: Acceptor_setNewConnectionCallback_def)
  ultimately show ?thesis using w1(1) r by auto
qed

section \<open>Listening\<close>

lemma sound_pool:
  assumes sd: "sound w" and lv: "live w = {}" and id: "idle_loops w" and ok: "server_ok (f (server w))"
    and sv: "tp_baseLoop (sv_threadPool (f (server w))) = sv_loop (f (server w))" "sv_connections (f (server w)) = []"
    and lo: "\<forall>l \<in> set (server_loops (map_server f w)). el_poller (loops w l) \<noteq> None"
  shows "sound (map_server f w)"
proof -
  let ?v = "map_server f w"
  have pre: "present ?v c = present w c" for c by (rule present_cong) simp_all
  have fds: "fds_ok w" and rg: "regs w" and cs: "conns_ok w" using sd by (auto simp: sound_def)
  have pi: "poller_inv p ?v = poller_inv p w" for p using poller_inv_same [of p w ?v] poller_inv_same [of p ?v w] by auto
  have "fds_ok ?v" using fds unfolding fds_ok_def pre by simp
  moreover have "regs ?v" using rg lo unfolding regs_def pre by (simp add: pi)
  moreover have "conns_ok ?v" using cs lv unfolding conns_ok_def pre by simp
  moreover have "table_ok ?v" using ok sv lv by (simp add: table_ok_def)
  moreover have "queues_ok ?v" using id by (simp add: queues_ok_def idle_loops_def)
  ultimately show ?thesis by (simp add: sound_def)
qed

lemma listen_boots:
  assumes law: "starts_law K m" and b: "booting m n w" and lp: "sv_loop (server w) = 0"
  shows "\<exists>w'. server_listen K w = Inr w' \<and> booting m n w' \<and> ac_listening (sv_acceptor (server w'))
    \<and> isReading (chans w' AcceptChan) \<and> ch_index (chans w' AcceptChan) = kAdded
    \<and> server w' = (server w)\<lparr>sv_acceptor := (sv_acceptor (server w))\<lparr>ac_listening := True\<rparr>\<rparr>"
proof -
  let ?a = "sv_acceptor (server w)"
  let ?v = "record_event (EvListen (ac_acceptSocket ?a) 1024 (Ok ())) w"
  have laws: "epoll_ctl_law K" "listens_law K" using law by (simp_all add: starts_law_def)
  have l: "Socket_listen K (ac_acceptSocket ?a) w = Inr ?v"
    using laws(2) by (simp add: Socket_listen_def sys_listen_def listens_law_def Let_def)
  have "sound ?v" by (rule sound_event) (use b in \<open>simp_all add: booting_def\<close>)
  note sv = this
  from present_serves [OF this, of AcceptChan] obtain p where "serves (ch_loop (chans ?v AcceptChan)) AcceptChan p ?v" by auto
  note t = enable_totals(1) [OF this laws(1)]
  have "ch_events (chans ?v AcceptChan) OR kReadEvent \<noteq> kNoneEvent" by (simp add: or_eq_0_iff kReadEvent_def kNoneEvent_def event_bits)
  with t obtain w2 where e: "enableReading K AcceptChan ?v = Inr w2"
    "chans w2 AcceptChan = set_index kAdded (read_on (chans ?v AcceptChan))" by auto
  note op = channel_ops(1) [OF e(1)]
  note up = switch_sound(1) [OF sv _ laws(1) e(1), simplified]
  let ?w = "map_server (\<lambda>s. s\<lparr>sv_acceptor := ?a\<lparr>ac_listening := True\<rparr>\<rparr>) w2"
  have r: "server_listen K w = Inr ?w" using l e(1) by (simp add: server_listen_def Acceptor_listen_def Let_def)
  have sd: "sound ?w"
    using code_run_sound [OF server_listen_run [OF r, of False "{}"] _ laws(1)] b by (simp add: booting_def)
  obtain q where lo: "loops w2 = (loops w)(ch_loop (chans w AcceptChan) := (loops w (ch_loop (chans w AcceptChan)))\<lparr>el_poller := q\<rparr>)"
    using op by (auto simp: channel_op_def)
  then have th: "el_threadId (loops w2 k) = el_threadId (loops w k)" for k by simp
  obtain tr where tr: "ktrace w2 = ktrace ?v @ tr" using op by (auto simp: channel_op_def)
  then have cl: "cloned (ktrace w) \<subseteq> cloned (ktrace w2)" by (auto simp: cloned_append)
  have "booting m n ?w"
    unfolding booting_def
  proof (intro conjI allI impI)
    show "idle_loops ?w" using b lo by (auto simp: booting_def idle_loops_def)
    show "watching n ?w" using b channel_opD(6) [OF op] by (simp add: booting_def watching_def)
    show "el_poller (loops ?w k) = None \<longleftrightarrow> n \<le> k" for k using up b by (simp add: booting_def)
    show "threads_known m ?w" using b cl channel_opD(8) [OF op] by (auto simp: booting_def threads_known_def)
    show "el_threadId (loops ?w k) \<in> insert m (cloned (ktrace ?w))" if "k < n" for k
      using b cl that by (auto simp: booting_def th)
    show "length x \<le> max_size" if "strings ?w a = Some x" for a x
      using that b channel_op_world(5) [OF op] by (simp add: booting_def)
    show "live ?w = {}" "cur_tid ?w = m" using b channel_op_world(2) [OF op] channel_opD(4) [OF op] by (simp_all add: booting_def)
    show "ch_loop (chans ?w AcceptChan) = 0" using b e(2) by (simp add: booting_def set_index_def read_on_def)
  qed (use sd b in \<open>simp_all add: booting_def th\<close>)
  moreover have "server w2 = server w" using channel_op_world(3) [OF op] by simp
  moreover have "isReading (chans w2 AcceptChan)" "ch_index (chans w2 AcceptChan) = kAdded" unfolding e(2)
    by (simp_all add: channel_bits isReading_def set_index_def) (simp add: channel_bits flip: isReading_def)
  ultimately show ?thesis using r by simp
qed

lemma start_boots:
  assumes law: "starts_law K m" and b: "booting m 1 w" and n: "int n \<le> INT_MAX"
    and sv: "sv_loop (server w) = 0" "sv_threadPool (server w) = setThreadNum (int n) (EventLoopThreadPool_ctor 0 name)"
      "sv_started (server w) = 0" "sv_threadInitCallback (server w) = None" "sv_connections (server w) = []"
  shows "\<exists>w'. TcpServer_start K U w = Inr w' \<and> initial (\<lambda>l. Polling, w') \<and> server_loops w' = [0..<Suc n]
    \<and> isReading (chans w' AcceptChan) \<and> ch_index (chans w' AcceptChan) = kAdded \<and> ac_listening (sv_acceptor (server w'))
    \<and> server w' = (server w)\<lparr>sv_started := 1, sv_threadPool := sv_threadPool (server w'),
        sv_acceptor := (sv_acceptor (server w))\<lparr>ac_listening := True\<rparr>\<rparr>
    \<and> isInLoopThread 0 w' \<and> idle_loops w' \<and> ch_loop (chans w' AcceptChan) = 0"
proof -
  let ?p = "(setThreadNum (int n) (EventLoopThreadPool_ctor 0 name))\<lparr>tp_started := True\<rparr>"
  let ?w = "map_server (\<lambda>s. s\<lparr>sv_started := atomic_incr 0\<rparr>) w"
  have one: "atomic_incr 0 = 1" by (simp add: atomic_incr_def)
  have sw: "sound w" using b by (simp add: booting_def)
  have sd: "sound w" "server_ok (server w)" using sw soundD(3) [OF sw] by (simp_all add: table_ok_def)
  have same: "server_ok (s\<lparr>sv_started := k\<rparr>) = server_ok s" for s k by (simp add: server_ok_def name_of_def)
  have "sound ?w" using sound_server [OF sd(1), of "\<lambda>s. s\<lparr>sv_started := atomic_incr 0\<rparr>"] sd(2) by (simp add: same)
  then have b1: "booting m 1 ?w" using b by (simp add: booting_def idle_loops_def threads_known_def watching_def)
  have "tp_loops ?p = []" by (simp add: setThreadNum_def EventLoopThreadPool_ctor_def)
  from pool_boots [OF law b1 this, of U n] obtain ts v where v:
    "foldE (start_one K U None) [0..<n] (?p, ?w) = Inr (?p\<lparr>tp_threads := ts, tp_loops := [1..<Suc n]\<rparr>, v)"
    "booting m (Suc n) v" "server v = server ?w" by blast
  let ?q = "?p\<lparr>tp_threads := ts, tp_loops := [1..<Suc n]\<rparr>"
  have nt: "nat (tp_numThreads ?p) = n" by (simp add: setThreadNum_def)
  have st: "EventLoopThreadPool_start K U None (sv_threadPool (server ?w)) ?w = Inr (?q, v)"
    using v(1) nt sv(2) by (simp add: EventLoopThreadPool_start_def setThreadNum_def)
  let ?v = "map_server (\<lambda>s. s\<lparr>sv_threadPool := ?q\<rparr>) v"
  note B = v(2) [unfolded booting_def]
  have sl: "server_loops ?v = [0..<Suc n]"
    using sv(1) v(3) by (simp add: server_loops_def upt_conv_Cons del: upt_Suc)
  have "pool_inv ?q" using n by (simp add: pool_inv_def setThreadNum_def EventLoopThreadPool_ctor_def del: upt_Suc)
  then have ok: "server_ok ((server v)\<lparr>sv_threadPool := ?q\<rparr>)" using sd(2) v(3) by (simp add: server_ok_def name_of_def)
  have "sound ?v"
    by (rule sound_pool) (use B ok sv v(3) sl in \<open>auto simp: setThreadNum_def EventLoopThreadPool_ctor_def simp del: upt_Suc\<close>)
  then have b2: "booting m (Suc n) ?v" using v(2) by (simp add: booting_def idle_loops_def threads_known_def watching_def)
  have "sv_loop (server ?v) = 0" using v(3) sv(1) by simp
  from listen_boots [OF law b2 this] obtain w' where w': "server_listen K ?v = Inr w'" "booting m (Suc n) w'"
    "ac_listening (sv_acceptor (server w'))" "isReading (chans w' AcceptChan)" "ch_index (chans w' AcceptChan) = kAdded"
    "server w' = (server ?v)\<lparr>sv_acceptor := (sv_acceptor (server ?v))\<lparr>ac_listening := True\<rparr>\<rparr>" by blast
  have "isInLoopThread 0 ?v" using b2 by (simp add: booting_def isInLoopThread_def)
  then have r: "TcpServer_start K U w = Inr w'"
    using w'(1) st sv v(3) by (simp add: TcpServer_start_def runInLoop_def Let_def)
  have sl': "server_loops w' = [0..<Suc n]" using sl w'(6) by (simp add: server_loops_def del: upt_Suc)
  have "watched w'" using w'(2) by (simp add: watched_def watching_def booting_def sl' del: upt_Suc)
  then have "initial (\<lambda>l. Polling, w')"
    using w'(2) by (simp add: initial_def booting_def idle_loops_def own_threads_def sl' lessThan_atLeast0 del: upt_Suc)
  then show ?thesis
    using r sl' w'(2-6) v(3) one by (simp add: booting_def isInLoopThread_def del: upt_Suc)
qed

lemma fields_after:
  assumes "t = s\<lparr>sv_started := k, sv_threadPool := p, sv_acceptor := (sv_acceptor s)\<lparr>ac_listening := b\<rparr>\<rparr>"
  shows "sv_started t = k" "sv_connectionCallback t = sv_connectionCallback s" "sv_messageCallback t = sv_messageCallback s"
    "sv_nextConnId t = sv_nextConnId s" "ac_newConnectionCallback (sv_acceptor t) = ac_newConnectionCallback (sv_acceptor s)"
  by (simp_all add: assms)

lemma echo_boots:
  assumes "starts_law K (cur_tid w)" "blank w"
  shows "\<exists>w'. echo_begin K w = Inr w' \<and> initial (\<lambda>l. Polling, w') \<and> server_loops w' = [0, 1, 2, 3]
    \<and> isReading (chans w' AcceptChan) \<and> ch_index (chans w' AcceptChan) = kAdded \<and> ac_listening (sv_acceptor (server w'))
    \<and> sv_started (server w') = 1 \<and> isInLoopThread 0 w' \<and> idle_loops w' \<and> ch_loop (chans w' AcceptChan) = 0
    \<and> sv_connectionCallback (server w') = Some onConnection_cb \<and> sv_messageCallback (server w') = Some onMessage_cb
    \<and> sv_nextConnId (server w') = 1 \<and> ac_newConnectionCallback (sv_acceptor (server w')) = Some Bind_TcpServer_newConnection"
proof -
  obtain w1 w2 where w: "EventLoop_ctor K 0 w = Inr w1"
    "TcpServer_ctor K (Some 0) (InetAddress_ctor 8000 ''127.0.0.1'') ''EchoServer'' kNoReusePort w1 = Inr w2"
    "booting (cur_tid w) 1 w2" "sv_loop (server w2) = 0" "sv_threadPool (server w2) = EventLoopThreadPool_ctor 0 ''EchoServer''"
    "sv_started (server w2) = 0" "sv_threadInitCallback (server w2) = None" "sv_connections (server w2) = []"
    "sv_nextConnId (server w2) = 1" "ac_newConnectionCallback (sv_acceptor (server w2)) = Some Bind_TcpServer_newConnection"
    using server_boots [OF assms refl] by blast
  let ?f = "\<lambda>s. TcpServer_setThreadNum 3 (server_setMessageCallback onMessage_cb (server_setConnectionCallback onConnection_cb s))"
  have m: "map_server (TcpServer_setThreadNum 3) (map_server (server_setMessageCallback onMessage_cb)
      (map_server (server_setConnectionCallback onConnection_cb) w2)) = map_server ?f w2" by (simp add: map_server_def)
  have f: "sv_loop (?f s) = sv_loop s" "sv_threadPool (?f s) = setThreadNum 3 (sv_threadPool s)" "sv_started (?f s) = sv_started s"
    "sv_threadInitCallback (?f s) = sv_threadInitCallback s" "sv_connections (?f s) = sv_connections s"
    "sv_connectionCallback (?f s) = Some onConnection_cb" "sv_messageCallback (?f s) = Some onMessage_cb"
    "sv_nextConnId (?f s) = sv_nextConnId s" "sv_acceptor (?f s) = sv_acceptor s" for s
    by (simp_all add: TcpServer_setThreadNum_def server_setMessageCallback_def server_setConnectionCallback_def)
  have b2: "booting (cur_tid w) 1 w2" by (rule w(3))
  have sd: "sound w2" using b2 by (simp add: booting_def)
  have ok: "server_ok (server w2)" using soundD(3) [OF sd] by (simp add: table_ok_def)
  have ok': "server_ok (?f (server w2))"
    using ok w(5) by (auto simp: server_ok_def name_of_def TcpServer_setThreadNum_def server_setMessageCallback_def
        server_setConnectionCallback_def setThreadNum_def EventLoopThreadPool_ctor_def pool_inv_def)
  have "sound (map_server ?f w2)"
    by (rule sound_pool [OF sd]) (use ok' b2 w f in \<open>auto simp: booting_def server_loops_def setThreadNum_def EventLoopThreadPool_ctor_def\<close>)
  then have "booting (cur_tid w) 1 (map_server ?f w2)"
    using b2 by (simp add: booting_def idle_loops_def threads_known_def watching_def)
  from start_boots [OF assms(1) this, of 3 "''EchoServer''" "echo_user K"] f w
  obtain w' where st: "TcpServer_start K (echo_user K) (map_server ?f w2) = Inr w'" "initial (\<lambda>l. Polling, w')"
    "server_loops w' = [0..<Suc 3]" "isReading (chans w' AcceptChan)" "ch_index (chans w' AcceptChan) = kAdded"
    "ac_listening (sv_acceptor (server w'))" "isInLoopThread 0 w'" "idle_loops w'" "ch_loop (chans w' AcceptChan) = 0"
    "server w' = (?f (server w2))\<lparr>sv_started := 1, sv_threadPool := sv_threadPool (server w'),
        sv_acceptor := (sv_acceptor (?f (server w2)))\<lparr>ac_listening := True\<rparr>\<rparr>"
    by (auto simp: INT_MAX_def simp del: upt_Suc)
  have "[0..<Suc 3] = [0, 1, 2, 3]" by (simp add: numeral_3_eq_3)
  moreover have "sv_started (server w') = 1" "sv_connectionCallback (server w') = Some onConnection_cb"
    "sv_messageCallback (server w') = Some onMessage_cb" "sv_nextConnId (server w') = 1"
    "ac_newConnectionCallback (sv_acceptor (server w')) = Some Bind_TcpServer_newConnection"
    using fields_after [OF st(10)] f(6-9) w(9,10) by simp_all
  ultimately show ?thesis
    using st(1-9) w(1,2) m by (simp add: echo_begin_def EchoServer_ctor_def EchoServer_start_def Let_def)
qed

lemma plain_starts: "starts_law (plain_kernel cap input) 1"
  by (simp add: starts_law_def listens_law_def) (simp add: plain_kernel_def)

lemma start_sworld_blank: "blank start_sworld"
  by (simp add: blank_def idle_loops_def start_world_def Channel_ctor_def index_defs)

text \<open>
  C11: the program of the example comes up: from a blank process, given what it asks the kernel for,
  \<^verbatim>\<open>main\<close> reaches its call of \<^verbatim>\<open>loop\<close> with the acceptor listening and registered, three pool loops each in a
  thread of its own, the running thread that of the main loop, and no loop with anything queued: a
  configuration from which the invariants of the running system hold.
\<close>

theorem echo_server_starts:
  assumes "starts_law K (cur_tid w)" "blank w"
  shows "\<exists>w'. echo_begin K w = Inr w' \<and> initial (\<lambda>l. Polling, w') \<and> server_loops w' = [0, 1, 2, 3]
    \<and> isReading (chans w' AcceptChan) \<and> ch_index (chans w' AcceptChan) = kAdded \<and> ac_listening (sv_acceptor (server w'))
    \<and> sv_started (server w') = 1 \<and> isInLoopThread 0 w' \<and> idle_loops w'
    \<and> sv_connectionCallback (server w') = Some onConnection_cb \<and> sv_messageCallback (server w') = Some onMessage_cb"
  using echo_boots [OF assms] by blast

theorem echo_server_starts_witness:
  "\<exists>w'. echo_begin (plain_kernel 4 []) start_sworld = Inr w' \<and> initial (\<lambda>l. Polling, w') \<and> server_loops w' = [0, 1, 2, 3]"
  using echo_server_starts [of "plain_kernel 4 []" start_sworld] plain_starts start_sworld_blank by auto

end
