(* ===== verification/Running.thy ===== *)
theory Running
  imports Startup
begin

text \<open>
  What holds of the server while it runs: of every configuration reachable from the start by any
  interleaving of its loops and of threads outside them, for any lawful user.
\<close>

section \<open>A configuration to look at\<close>

text \<open>The example has started, and a thread outside the loops has queued a functor for loop 1.\<close>

lemma outside_thread: "\<exists>t. t \<notin> (\<lambda>l. el_threadId (loops w l)) ` set (server_loops w)"
  using ex_new_if_finite [of "(\<lambda>l. el_threadId (loops w l)) ` set (server_loops w)"] infinite_UNIV_int by blast

lemma queued_functor:
  assumes laws: "system_laws K U" "starts_law K 1"
  shows "\<exists>w. reachable K U (\<lambda>l. Polling, w) \<and> server_loops w = [0, 1, 2, 3]
    \<and> el_pendingFunctors (loops (w :: sworld) 1) = [User_functor 0] \<and> live w = {} \<and> \<not> el_quit (loops w 1)"
proof -
  obtain w where w: "initial (\<lambda>l. Polling, w :: sworld)" "server_loops w = [0, 1, 2, 3]" "idle_loops w"
    using echo_boots [of K start_sworld] laws(2) start_sworld_blank by auto
  obtain t where t: "t \<notin> (\<lambda>l. el_threadId (loops w l)) ` set (server_loops w)" using outside_thread by blast
  let ?x = "queueInLoop K 1 (User_functor 0) (w\<lparr>cur_tid := t\<rparr>)"
  have "sys_step K U (\<lambda>l. Polling, w) (\<lambda>l. Polling, ?x)" by (rule ss_outside [OF t api_queue])
  then have "reachable K U (\<lambda>l. Polling, ?x)" using re_step [OF re_start [OF w(1)]] by blast
  moreover have "el_pendingFunctors (loops ?x 1) = [User_functor 0]" "live ?x = {}" "\<not> el_quit (loops ?x 1)"
    using w(1,3) by (simp_all add: queueInLoop_spec(1) initial_def idle_loops_def)
  moreover have "server_loops ?x = [0, 1, 2, 3]" using w(2) by (simp add: server_loops_def)
  ultimately show ?thesis by blast
qed

section \<open>References\<close>

lemma referenced_live:
  assumes "sound w" "referenced c w"
  shows "c \<in> live w"
proof -
  from assms(2) consider x where "x \<in> set (sv_connections (server w))" "snd x = c"
    | l f where "f \<in> set (el_pendingFunctors (loops w l) @ el_functors (loops w l))" "functor_owner f = Some c"
    by (force simp: referenced_def held_by_def)
  then show ?thesis
  proof cases
    case 1
    then show ?thesis using soundD(3) [OF assms(1)] by (auto simp: table_ok_def)
  next
    case 2
    then show ?thesis using soundD(4) [OF assms(1)] unfolding queues_ok_def functor_ok_def by blast
  qed
qed

text \<open>
  C3: connections live exactly as long as something refers to them: in every reachable configuration the
  live connections are those in the server's table or held by a functor of a loop, so none is destroyed
  under a reference and none outlives its last one; the functors still to be called and the events still
  to be handled only concern what is there, each on the loop it belongs to.
\<close>

theorem lifetime_exact:
  assumes "reachable K U (ph, w)" "system_laws K U"
  shows "(\<forall>c. c \<in> live w \<longleftrightarrow> referenced c w)
    \<and> (\<forall>l f c. f \<in> set (work ph w l) \<longrightarrow> functor_owner f = Some c \<longrightarrow> c \<in> live w \<and> l \<in> set (server_loops w))
    \<and> (\<forall>l ch. ch \<in> set (events (ph l)) \<longrightarrow> present w ch \<and> ch_loop (chans w ch) = l \<and> bound_ok ch (chans w ch))"
proof -
  note ok = reachable_ok [OF assms]
  note D = sys_okD [OF ok]
  have "c \<in> live w \<longleftrightarrow> referenced c w" for c using D(8) [of c] referenced_live [OF D(1), of c] by blast
  moreover have "c \<in> live w \<and> l \<in> set (server_loops w)" if "f \<in> set (work ph w l)" "functor_owner f = Some c" for l f c
    using work_functor [OF ok that(1)] owner_loop [OF D(1) _ that(2)] that(2) by (auto simp: functor_ok_def)
  moreover have "present w ch \<and> ch_loop (chans w ch) = l \<and> bound_ok ch (chans w ch)" if "ch \<in> set (events (ph l))" for l ch
    using D(5,6) [OF that] armed_present soundD(2) [OF D(1)] by blast
  ultimately show ?thesis by blast
qed

section \<open>Registration\<close>

lemma server_poller:
  assumes "sound w" "l \<in> set (server_loops w)"
  shows "\<exists>p. el_poller (loops w l) = Some p \<and> pl_owner p = l \<and> poller_inv p w"
proof -
  have rg: "regs w" using assms(1) by (simp add: sound_def)
  have "el_poller (loops w l) \<noteq> None" using rg assms(2) by (simp add: regs_def)
  then obtain p where p: "el_poller (loops w l) = Some p" by (cases "el_poller (loops w l)") simp_all
  have "pl_owner p = l \<and> poller_inv p w" using rg p unfolding regs_def by simp
  with p show ?thesis by simp
qed

text \<open>
  C6: what the program believes about \<^verbatim>\<open>epoll\<close> is what the kernel has: in every reachable configuration each
  loop's poller watches, in the kernel, exactly the interest of the channels in its map, whose entries are
  exactly the registered channels of this loop; every existing channel has an open descriptor of its own.
\<close>

theorem registration_exact:
  assumes "reachable K U (ph, w)" "system_laws K U"
  shows "(\<forall>l \<in> set (server_loops w). \<exists>p. el_poller (loops w l) = Some p \<and> pl_owner p = l
        \<and> interest (pl_epollfd p) (ktrace w) = expected_interest p w
        \<and> (\<forall>ch. hasChannel ch p w \<longleftrightarrow> ch_loop (chans w ch) = l \<and> ch_index (chans w ch) \<noteq> kNew))
    \<and> (\<forall>ch. present w ch \<longrightarrow> ch_fd (chans w ch) \<in> open_fds (ktrace w))
    \<and> (\<forall>ch ch'. present w ch \<longrightarrow> present w ch' \<longrightarrow> ch_fd (chans w ch) = ch_fd (chans w ch') \<longrightarrow> ch = ch')
    \<and> (\<forall>ch. ch_index (chans w ch) \<noteq> kNew \<longrightarrow> present w ch)"
proof -
  have sd: "sound w" by (rule sys_okD(1) [OF reachable_ok [OF assms]])
  have fds: "fds_ok w" and rg: "regs w" using sd by (simp_all add: sound_def)
  have "\<exists>p. el_poller (loops w l) = Some p \<and> pl_owner p = l \<and> interest (pl_epollfd p) (ktrace w) = expected_interest p w
        \<and> (\<forall>ch. hasChannel ch p w \<longleftrightarrow> ch_loop (chans w ch) = l \<and> ch_index (chans w ch) \<noteq> kNew)"
    if l: "l \<in> set (server_loops w)" for l
  proof -
    obtain p where p: "el_poller (loops w l) = Some p" and inv: "pl_owner p = l" "poller_inv p w"
      using server_poller [OF sd l] by blast
    have "hasChannel ch p w \<longleftrightarrow> ch_loop (chans w ch) = l \<and> ch_index (chans w ch) \<noteq> kNew" for ch
    proof
      assume "hasChannel ch p w"
      then have "pl_channels p (ch_fd (chans w ch)) = Some ch" by (auto simp: hasChannel_def split: option.splits)
      from poller_inv_slot [OF inv(2) this] inv(1) show "ch_loop (chans w ch) = l \<and> ch_index (chans w ch) \<noteq> kNew"
        by (auto simp: index_defs)
    next
      assume "ch_loop (chans w ch) = l \<and> ch_index (chans w ch) \<noteq> kNew"
      then show "hasChannel ch p w" using poller_inv_back [OF inv(2), of ch] inv(1) by (simp add: hasChannel_def)
    qed
    then show ?thesis using p inv by (auto simp: poller_inv_def)
  qed
  moreover have "ch_fd (chans w ch) \<in> open_fds (ktrace w)" if "present w ch" for ch using fds that by (simp add: fds_ok_def)
  moreover have "ch = ch'" if "present w ch" "present w ch'" "ch_fd (chans w ch) = ch_fd (chans w ch')" for ch ch'
    using fds that by (simp add: fds_ok_def)
  moreover have "present w ch" if "ch_index (chans w ch) \<noteq> kNew" for ch using fds that by (simp add: fds_ok_def)
  ultimately show ?thesis by blast
qed

section \<open>Wakeups\<close>

lemma wakeup_watched:
  assumes "sound w" "watched w" "l \<in> set (server_loops w)"
  shows "\<exists>p. el_poller (loops w l) = Some p
    \<and> interest (pl_epollfd p) (ktrace w) (el_wakeupFd (loops w l)) = Some \<lparr>ev_events = kReadEvent, ev_ptr = Some (WakeupChan l)\<rparr>"
proof -
  have rg: "regs w" and fds: "fds_ok w" using assms(1) by (simp_all add: sound_def)
  obtain p where p: "el_poller (loops w l) = Some p" and inv: "pl_owner p = l" "poller_inv p w"
    using server_poller [OF assms(1,3)] by blast
  have pr: "present w (WakeupChan l)" using p by simp
  have "ch_loop (chans w (WakeupChan l)) = l" using soundD(2) [OF assms(1) pr] by simp
  moreover have W: "ch_index (chans w (WakeupChan l)) = kAdded" "ch_events (chans w (WakeupChan l)) = kReadEvent"
    using assms(2,3) by (auto simp: watched_def)
  moreover have "if el_poller (loops w l) = None then el_wakeupFd (loops w l) \<le> 2
      else ch_fd (chans w (WakeupChan l)) = el_wakeupFd (loops w l)" using fds unfolding fds_ok_def by blast
  then have "ch_fd (chans w (WakeupChan l)) = el_wakeupFd (loops w l)" using p by simp
  ultimately have "pl_channels p (el_wakeupFd (loops w l)) = Some (WakeupChan l)"
    using poller_inv_back [OF inv(2), of "WakeupChan l"] inv(1) by (simp add: index_defs)
  then have "interest (pl_epollfd p) (ktrace w) (el_wakeupFd (loops w l)) = Some \<lparr>ev_events = kReadEvent, ev_ptr = Some (WakeupChan l)\<rparr>"
    using inv(2) W by (simp add: poller_inv_def expected_interest_def)
  then show ?thesis using p by blast
qed

text \<open>
  C7: no wakeup is lost: whenever a loop is about to poll, or is blocked in its poll, with functors in its
  queue, its eventfd has been written since it was last read and is watched for reading by the loop's
  own poller, so that the poll does not block.
\<close>

theorem no_lost_wakeup:
  assumes "reachable K U (ph, w)" "system_laws K U" "l \<in> set (server_loops w)" "ph l = Polling"
    and "el_pendingFunctors (loops w l) \<noteq> []"
  shows "\<exists>p. el_poller (loops w l) = Some p \<and> signalled (el_wakeupFd (loops w l)) (ktrace w)
    \<and> interest (pl_epollfd p) (ktrace w) (el_wakeupFd (loops w l)) = Some \<lparr>ev_events = kReadEvent, ev_ptr = Some (WakeupChan l)\<rparr>"
proof -
  note D = sys_okD [OF reachable_ok [OF assms(1,2)]]
  have "seen (ph l) l w" using D(10) assms(3) by blast
  then have "signalled (el_wakeupFd (loops w l)) (ktrace w)" using assms(4,5) by (simp add: seen_def woken_def)
  then show ?thesis using wakeup_watched [OF D(1,11) assms(3)] by blast
qed

section \<open>The life of a connection\<close>

text \<open>
  C10: the callbacks of a connection come in order and on its own loop: \<open>connectEstablished\<close> waits there at
  most once, for a connection that is connecting and not yet registered; events are handled there only once
  it has been established, on a channel tied to it; \<open>connectDestroyed\<close> waits there only when it has been
  closed; and a live connection is in the server's table, or about to be destroyed, or closed and
  unregistered.  Different loops run in different threads.
\<close>

theorem connection_lifecycle:
  assumes "reachable K U (ph, w)" "system_laws K U"
  shows "(\<forall>l c. Bind_connectEstablished c \<in> set (work ph w l) \<longrightarrow> l = tc_loop (conns w c) \<and> tc_state (conns w c) = kConnecting
        \<and> ch_index (chans w (ConnChan c)) = kNew \<and> count_list (work ph w l) (Bind_connectEstablished c) = 1)
    \<and> (\<forall>l c. ConnChan c \<in> set (events (ph l)) \<longrightarrow> l = tc_loop (conns w c) \<and> tc_state (conns w c) \<noteq> kConnecting
        \<and> ch_tied (chans w (ConnChan c)) \<and> ch_tie (chans w (ConnChan c)) = Some c)
    \<and> (\<forall>l c. Bind_connectDestroyed c \<in> set (work ph w l) \<longrightarrow> l = tc_loop (conns w c) \<and> tc_state (conns w c) = kDisconnected)
    \<and> (\<forall>c \<in> live w. (tc_name (conns w c), c) \<in> set (sv_connections (server w))
        \<or> Bind_connectDestroyed c \<in> set (work ph w (tc_loop (conns w c)))
        \<or> ch_index (chans w (ConnChan c)) = kNew \<and> tc_state (conns w c) = kDisconnected)
    \<and> inj_on (\<lambda>l. el_threadId (loops w l)) (set (server_loops w))"
proof -
  note ok = reachable_ok [OF assms]
  note D = sys_okD [OF ok]
  have est: "l = tc_loop (conns w c) \<and> tc_state (conns w c) = kConnecting
        \<and> ch_index (chans w (ConnChan c)) = kNew \<and> count_list (work ph w l) (Bind_connectEstablished c) = 1"
    if f: "Bind_connectEstablished c \<in> set (work ph w l)" for l c
  proof -
    have c: "c \<in> live w" "tc_state (conns w c) = kConnecting" using D(3) [OF f] by simp_all
    moreover have "l = tc_loop (conns w c)" using work_functor [OF ok f] by (simp add: functor_ok_def)
    moreover have "ch_index (chans w (ConnChan c)) = kNew" using soundD(1) [OF D(1) c(1)] c(2) by (simp add: conn_ok_def)
    moreover have "count_list (work ph w l) (Bind_connectEstablished c) \<noteq> 0" using f by (simp add: count_list_0_iff)
    ultimately show ?thesis using D(4) [of l c] by linarith
  qed
  have ev: "l = tc_loop (conns w c) \<and> tc_state (conns w c) \<noteq> kConnecting
        \<and> ch_tied (chans w (ConnChan c)) \<and> ch_tie (chans w (ConnChan c)) = Some c" if e: "ConnChan c \<in> set (events (ph l))" for l c
  proof -
    have c: "c \<in> live w" "tc_state (conns w c) \<noteq> kConnecting" using D(5) [OF e] by simp_all
    moreover have "conn_ok c w" by (rule soundD(1) [OF D(1) c(1)])
    moreover have "bound_ok (ConnChan c) (chans w (ConnChan c))" by (rule soundD(2) [OF D(1)]) (simp add: c(1))
    ultimately show ?thesis using D(6) [OF e] by (simp add: conn_ok_def)
  qed
  have des: "l = tc_loop (conns w c) \<and> tc_state (conns w c) = kDisconnected"
    if f: "Bind_connectDestroyed c \<in> set (work ph w l)" for l c
    using D(3) [OF f] work_functor [OF ok f] by (simp add: functor_ok_def)
  have "(tc_name (conns w c), c) \<in> set (sv_connections (server w)) \<or> Bind_connectDestroyed c \<in> set (work ph w (tc_loop (conns w c)))
        \<or> ch_index (chans w (ConnChan c)) = kNew \<and> tc_state (conns w c) = kDisconnected" if c: "c \<in> live w" for c
    using D(7) [OF c] soundD(3) [OF D(1)] by (auto simp: accounted_def removed_def table_ok_def)
  then show ?thesis using est ev des D(9) unfolding own_threads_def by blast
qed

section \<open>Dispatch\<close>

lemma handled_in_order:
  assumes "reachable K U (ph, w)" "system_laws K U" "ph l = Dispatching (ch # chs)"
  shows "handleEvent K alive (run_cb K U) t ch (in_thread l w) =
    foldE (\<lambda>cb. run_cb K U cb t) (selected (chans w ch))
      (LOG K INFO ''Channel handleEvent revents : %d\<newline>'' [AInt (sint (ch_revents (chans w ch)))] (in_thread l w))"
proof -
  have ok: "sys_ok (ph, in_thread l w)" using reachable_ok [OF assms(1,2)] by (simp add: in_thread_def)
  note D = sys_okD [OF ok]
  have e: "ch \<in> set (events (ph l))" using assms(3) by simp
  have fit: "fit K U ch (in_thread l w)" using D(1) D(5) [OF e] assms(2) by (simp add: fit_def system_laws_def)
  have "handleEvent K alive (run_cb K U) t ch (in_thread l w) = handleEventWithGuard K (run_cb K U) t ch (in_thread l w)"
  proof (cases ch)
    case (ConnChan c)
    have c: "c \<in> live (in_thread l w)" using D(5) [OF e] ConnChan by simp
    have "bound_ok ch (chans (in_thread l w) ch)" by (rule soundD(2) [OF D(1) armed_present [OF D(5) [OF e]]])
    then show ?thesis using c ConnChan by (auto simp: handleEvent_def alive_def)
  qed (use soundD(2) [OF D(1) armed_present [OF D(5) [OF e]]] in \<open>simp_all add: handleEvent_def\<close>)
  also have "\<dots> = foldE (\<lambda>cb. run_cb K U cb t) (selected (chans (in_thread l w) ch))
      (LOG K INFO ''Channel handleEvent revents : %d\<newline>'' [AInt (sint (ch_revents (chans (in_thread l w) ch)))] (in_thread l w))"
    by (rule cr.guarded_dispatch [OF fit])
  finally show ?thesis by (simp add: in_thread_def)
qed

text \<open>
  C17: a reported event reaches exactly the callbacks its bits select, in the order close, error, read, write,
  with nothing in between: in every reachable configuration the object a channel is tied to is alive when
  one of its events is handled, so the guard of \<open>handleEvent\<close> never drops an event.
\<close>

theorem dispatch_in_order:
  assumes "reachable K U (ph, w)" "system_laws K U" "ph l = Dispatching (ch # chs)"
  shows "handleEvent K alive (run_cb K U) t ch (in_thread l w) =
    foldE (\<lambda>cb. run_cb K U cb t) (selected (chans w ch))
      (LOG K INFO ''Channel handleEvent revents : %d\<newline>'' [AInt (sint (ch_revents (chans w ch)))] (in_thread l w))"
  by (rule handled_in_order [OF assms])

section \<open>Errors\<close>

lemma established_error:
  assumes "sound w" "epoll_ctl_law K" "c \<in> live w" "connectEstablished K U c w = Inl e"
  shows "\<exists>v. call_connection U c v = Inl e"
proof -
  let ?v = "map_chan (ConnChan c) (Channel_tie c) (map_conn c (setState kConnected) w)"
  have sv: "sound ?v" by (rule sound_establish [OF assms(1,3)])
  have "present ?v (ConnChan c)" using assms(3) by simp
  then obtain p where "serves (ch_loop (chans ?v (ConnChan c))) (ConnChan c) p ?v" using present_serves [OF sv] by blast
  from enable_totals(1) [OF this assms(2)] obtain x where "enableReading K (ConnChan c) ?v = Inr x" by blast
  then show ?thesis using assms(4) by (auto simp: connectEstablished_def Let_def)
qed

lemma destroyed_total:
  assumes "sound w" "epoll_ctl_law K" "c \<in> live w" "tc_state (conns w c) = kDisconnected"
  shows "\<exists>w'. connectDestroyed K U c w = Inr w'"
proof -
  have "present w (ConnChan c)" using assms(3) by simp
  then obtain p where "serves (ch_loop (chans w (ConnChan c))) (ConnChan c) p w" using present_serves [OF assms(1)] by blast
  from Channel_remove_total [OF this assms(2)] show ?thesis using assms(4) by (auto simp: connectDestroyed_def)
qed

text \<open>
  What can go wrong when a queued functor is called: a functor bound to a raw pointer (a send or a shutdown
  asked for from another thread) may find the connection, or the string, gone; \<^verbatim>\<open>listen\<close> may fail; user code
  may fail.  Every other functor of the library succeeds, in every reachable configuration.
\<close>

lemma functor_errors:
  assumes "reachable K U (ph, w)" "system_laws K U" "ph l = Calling (f # fs)"
    and "run_functor K U f (in_thread l w) = Inl e"
  shows "functor_raw f \<noteq> None \<or> f = Bind_Acceptor_listen
    \<or> (\<exists>c v. f = Bind_connectEstablished c \<and> call_connection U c v = Inl e)
    \<or> (\<exists>u c. f = Bind_writeComplete u c \<and> u_writeComplete U u c (in_thread l w) = Inl e)
    \<or> (\<exists>u c n. f = Bind_highWaterMark u c n \<and> u_highWaterMark U u c n (in_thread l w) = Inl e)
    \<or> (\<exists>u. f = User_functor u \<and> u_functor U u (in_thread l w) = Inl e)"
proof -
  have ok: "sys_ok (ph, in_thread l w)" using reachable_ok [OF assms(1,2)] by (simp add: in_thread_def)
  have law: "epoll_ctl_law K" using assms(2) by (simp add: system_laws_def)
  have f: "ready f (in_thread l w)" using sys_okD(3) [OF ok, of f l] assms(3) by (simp add: work_def)
  show ?thesis
  proof (cases f)
    case (Bind_connectEstablished c)
    then show ?thesis using established_error [OF sys_okD(1) [OF ok] law] f assms(4) by auto
  next
    case (Bind_connectDestroyed c)
    then show ?thesis using destroyed_total [OF sys_okD(1) [OF ok] law, of c U] f assms(4) by auto
  qed (use assms(4) in auto)
qed

section \<open>A pass through the loop\<close>

lemma in_thread_self: "cur_tid w = el_threadId (loops w l) \<Longrightarrow> in_thread l w = w"
  by (cases w) (simp add: in_thread_def)

text \<open>Loop \<open>l\<close> is running, in a reachable configuration.\<close>

definition at_loop :: "kernel \<Rightarrow> 'z sworld_scheme user \<Rightarrow> loop_id \<Rightarrow> phases \<times> 'z sworld_scheme \<Rightarrow> bool" where
  "at_loop K U l s \<longleftrightarrow> reachable K U s \<and> l \<in> set (server_loops (snd s)) \<and> cur_tid (snd s) = el_threadId (loops (snd s) l)"

lemma at_loopD:
  assumes "at_loop K U l (ph, w)"
  shows "reachable K U (ph, w)" "l \<in> set (server_loops w)" "in_thread l w = w"
  using assms in_thread_self by (auto simp: at_loop_def)

lemma at_loop_step:
  assumes "at_loop K U l (ph, w)" "sys_step K U (ph, w) (ph', x)" "keeps rm A w x"
  shows "at_loop K U l (ph', x)"
  using assms(1) re_step [OF _ assms(2)] keepsD(5) [OF assms(3), of l] keepsD(10) [OF assms(3)]
  by (auto simp: at_loop_def loop_frame_def)

lemma events_steps:
  assumes laws: "system_laws K U" and a: "at_loop K U l (ph, w)" "ph l = Dispatching chs"
    and r: "foldE (\<lambda>ch w. handleEvent K alive (run_cb K U) (el_pollReturnTime (loops w l)) ch w) chs w = Inr v"
  shows "(sys_step K U)\<^sup>*\<^sup>* (ph, w) (ph(l := Dispatching []), v) \<and> at_loop K U l (ph(l := Dispatching []), v)"
  using a r
proof (induction chs arbitrary: ph w)
  case Nil
  then have "ph(l := Dispatching []) = ph" "v = w" by auto
  then show ?case using Nil.prems(1) by simp
next
  case (Cons ch chs)
  obtain x where x: "handleEvent K alive (run_cb K U) (el_pollReturnTime (loops w l)) ch w = Inr x"
    "foldE (\<lambda>ch w. handleEvent K alive (run_cb K U) (el_pollReturnTime (loops w l)) ch w) chs x = Inr v"
    using Cons.prems(3) by (auto simp: bindE_eq_Inr)
  note at = at_loopD [OF Cons.prems(1)]
  have st: "sys_step K U (ph, w) (ph(l := Dispatching chs), x)"
    by (rule ss_event [where l = l and ph = ph and chs = chs and ch = ch])
      (use at(2) Cons.prems(2) in \<open>simp_all add: at(3) x(1)\<close>)
  have ok: "sys_ok (ph, w)" by (rule reachable_ok [OF at(1) laws])
  have ch: "ch \<in> set (events (ph l))" using Cons.prems(2) by simp
  have "fit K U ch w" using laws sys_okD(1) [OF ok] sys_okD(5) [OF ok ch] by (simp add: fit_def system_laws_def)
  from handleEvent_run [OF this x(1)] obtain A where "keeps False A w x" by (auto simp: own_run_def)
  from at_loop_step [OF Cons.prems(1) st this]
  have "(sys_step K U)\<^sup>*\<^sup>* (ph(l := Dispatching chs), x) ((ph(l := Dispatching chs))(l := Dispatching []), v)
      \<and> at_loop K U l ((ph(l := Dispatching chs))(l := Dispatching []), v)"
    by (rule Cons.IH) (simp_all add: x(2))
  then show ?case using converse_rtranclp_into_rtranclp [of "sys_step K U", OF st] by (simp only: fun_upd_upd)
qed

lemma functors_steps:
  assumes laws: "system_laws K U" and a: "at_loop K U l (ph, w)" "ph l = Calling fs"
    and r: "foldE (run_functor K U) fs w = Inr v"
  shows "(sys_step K U)\<^sup>*\<^sup>* (ph, w) (ph(l := Calling []), v) \<and> at_loop K U l (ph(l := Calling []), v)
    \<and> el_functors (loops v l) = el_functors (loops w l)"
  using a r
proof (induction fs arbitrary: ph w)
  case Nil
  then have "ph(l := Calling []) = ph" "v = w" by auto
  then show ?case using Nil.prems(1) by simp
next
  case (Cons f fs)
  obtain x where x: "run_functor K U f w = Inr x" "foldE (run_functor K U) fs x = Inr v"
    using Cons.prems(3) by (auto simp: bindE_eq_Inr)
  note at = at_loopD [OF Cons.prems(1)]
  have st: "sys_step K U (ph, w) (ph(l := Calling fs), x)"
    by (rule ss_functor [where l = l and ph = ph and fs = fs and f = f])
      (use at(2) Cons.prems(2) in \<open>simp_all add: at(3) x(1)\<close>)
  have ok: "sys_ok (ph, w)" by (rule reachable_ok [OF at(1) laws])
  have "ready f w" using sys_okD(3) [OF ok, of f l] Cons.prems(2) by (simp add: work_def)
  from run_functor_run [OF _ x(1) this] code_run_sound sys_okD(1) [OF ok] laws
  have k: "keeps (functor_rm f) (functor_for f) w x" unfolding system_laws_def by blast
  from at_loop_step [OF Cons.prems(1) st this]
  have "(sys_step K U)\<^sup>*\<^sup>* (ph(l := Calling fs), x) ((ph(l := Calling fs))(l := Calling []), v)
      \<and> at_loop K U l ((ph(l := Calling fs))(l := Calling []), v) \<and> el_functors (loops v l) = el_functors (loops x l)"
    by (rule Cons.IH) (simp_all add: x(2))
  moreover have "el_functors (loops x l) = el_functors (loops w l)" using keepsD(5) [OF k, of l] by (simp add: loop_frame_def)
  ultimately show ?case using converse_rtranclp_into_rtranclp [of "sys_step K U", OF st] by (simp only: fun_upd_upd)
qed

lemma at_loop_start:
  assumes "reachable K U s" "l \<in> set (server_loops (snd s))" "cur_tid (snd s) = el_threadId (loops (snd s) l)"
  shows "at_loop K U l s"
  using assms by (simp add: at_loop_def)

lemma body_steps:
  assumes laws: "system_laws K U" and r: "reachable K U (ph, w)" "l \<in> set (server_loops w)" "ph l = Polling" "\<not> el_quit (loops w l)"
    and b: "body K U l (in_thread l w) = Inr x"
  shows "(sys_step K U)\<^sup>*\<^sup>* (ph, w) (ph, x)"
proof -
  let ?u = "map_loop l (\<lambda>e. e\<lparr>el_activeChannels := []\<rparr>) (in_thread l w)"
  obtain p where p: "el_poller (loops ?u l) = Some p" using b by (auto simp: body_def loop_body_def Let_def split: option.splits)
  obtain t active p' z where z: "EPollPoller_poll K kPollTimeMs p ?u = Inr (t, active, p', z)"
    using b p by (auto simp: body_def loop_body_def Let_def)
  let ?z = "map_loop l (\<lambda>e. e\<lparr>el_poller := Some p', el_pollReturnTime := t, el_activeChannels := active\<rparr>) z"
  obtain v where v: "foldE (\<lambda>ch w. handleEvent K alive (run_cb K U) (el_pollReturnTime (loops w l)) ch w) active ?z = Inr v"
    "doPendingFunctors (run_functor K U) (release K) l v = Inr x"
    using b p z by (auto simp: body_def loop_body_def Let_def)
  have st: "sys_step K U (ph, w) (ph(l := Dispatching active), ?z)"
    by (rule ss_poll [where l = l and ph = ph and p = p and p' = p' and t = t and active = active and z = z])
      (use r(2-4) p z in \<open>simp_all add: in_thread_def\<close>)
  have "lworld.more z = lworld.more ?u" by (rule lworld_more(3) [OF poll_alike(4) [OF z]])
  then have sv: "server ?z = server w" using sworld_more(2) [OF tworld_more(5)] by (simp add: in_thread_def)
  have "cur_tid ?z = el_threadId (loops ?z l)"
    using poll_alike(5) [OF z] poll_loop_frame(2) [OF z] by (simp add: in_thread_def)
  then have a1: "at_loop K U l (ph(l := Dispatching active), ?z)"
    using re_step [OF r(1) st] r(2) sv by (simp add: at_loop_def server_loops_def)
  from events_steps [OF laws a1 _ v(1)]
  have s2: "(sys_step K U)\<^sup>*\<^sup>* (ph(l := Dispatching active), ?z) (ph(l := Dispatching []), v)"
    and a2: "at_loop K U l (ph(l := Dispatching []), v)" by simp_all
  note at2 = at_loopD [OF a2]
  let ?fs = "el_pendingFunctors (loops v l)" and ?b = "take_batch l v"
  obtain y where y: "foldE (run_functor K U) ?fs ?b = Inr y" "release K ?fs (end_batch l y) = Inr x"
    using v(2) by (auto simp: doPendingFunctors_def take_batch_def Let_def)
  have s3: "sys_step K U (ph(l := Dispatching []), v) (ph(l := Calling ?fs), ?b)"
    using ss_batch [OF at2(2), of "ph(l := Dispatching [])"] at2(3) by simp
  have "server_loops ?b = server_loops v" "cur_tid ?b = cur_tid v" "el_threadId (loops ?b l) = el_threadId (loops v l)"
    by (simp_all add: take_batch_def server_loops_def)
  then have a3: "at_loop K U l (ph(l := Calling ?fs), ?b)" using a2 re_step [OF at2(1) s3] by (simp add: at_loop_def)
  from functors_steps [OF laws a3 _ y(1)]
  have s4: "(sys_step K U)\<^sup>*\<^sup>* (ph(l := Calling ?fs), ?b) (ph(l := Calling []), y)"
    and a4: "at_loop K U l (ph(l := Calling []), y)" and f4: "el_functors (loops y l) = ?fs" by (simp_all add: take_batch_def)
  note at4 = at_loopD [OF a4]
  have "sys_step K U (ph(l := Calling []), y) ((ph(l := Calling []))(l := Polling), x)"
    by (rule ss_release [OF at4(2)]) (simp_all add: at4(3) f4 y(2))
  moreover have "ph(l := Polling) = ph" using r(3) by auto
  ultimately have s5: "sys_step K U (ph(l := Calling []), y) (ph, x)" by simp
  show ?thesis using st s2 s3 s4 s5 by (meson converse_rtranclp_into_rtranclp rtranclp.rtrancl_into_rtrancl rtranclp_trans)
qed

text \<open>
  C16: the steps are what the code of the loop does: a pass through the body of its \<^verbatim>\<open>while\<close> that completes is a
  sequence of steps, from a configuration about to poll to one about to poll, so that whatever holds of
  the reachable configurations holds after every pass.
\<close>

theorem pass_refines:
  assumes "reachable K U (ph, w)" "system_laws K U" "l \<in> set (server_loops w)" "ph l = Polling" "\<not> el_quit (loops w l)"
    and "body K U l (in_thread l w) = Inr x"
  shows "(sys_step K U)\<^sup>*\<^sup>* (ph, w) (ph, x) \<and> sound x"
proof -
  have s: "(sys_step K U)\<^sup>*\<^sup>* (ph, w) (ph, x)" by (rule body_steps [OF assms(2,1,3-6)])
  from this assms(1) have "reachable K U (ph, x)" by (induction rule: rtranclp_induct) (auto intro: re_step)
  then show ?thesis using s sys_okD(1) [OF reachable_ok [OF _ assms(2)]] by blast
qed

section \<open>A client arrives\<close>

text \<open>
  An environment in which a client is waiting: \<^verbatim>\<open>epoll_wait\<close> reports the acceptor's descriptor, if it is
  registered.
\<close>

definition visit_event :: "fd \<Rightarrow> ktrace \<Rightarrow> kevent \<Rightarrow> epoll_event option" where
  "visit_event ep tr e = (case e of
     EvEpollCtl ep' opn f ev r \<Rightarrow>
       (if interest ep tr f = Some ev \<and> ev_ptr ev = Some AcceptChan then Some (ev\<lparr>ev_events := kReadEvent\<rparr>) else None)
   | _ \<Rightarrow> None)"

definition visitor_kernel :: kernel where
  "visitor_kernel = (plain_kernel 4 [])\<lparr>k_epoll_wait :=
     (\<lambda>tr ep n t. Ok (take (min 1 n) (List.map_filter (visit_event ep tr) tr)))\<rparr>"

lemma visitor_starts: "starts_law visitor_kernel 1"
  using plain_starts [of 4 "[]"]
  by (simp add: visitor_kernel_def starts_law_def listens_law_def epoll_ctl_law_def fresh_law_def opens_law_def clone_law_def)

lemma map_filter_member: "x \<in> set (List.map_filter f xs) \<longleftrightarrow> (\<exists>y \<in> set xs. f y = Some x)"
  by (force simp: List.map_filter_def)

lemma visitor_wait: "epoll_wait_law visitor_kernel"
  unfolding epoll_wait_law_def
proof (intro allI impI conjI ballI)
  fix tr ep n t evs assume e: "k_epoll_wait visitor_kernel tr ep n t = Ok evs"
  then show "length evs \<le> n" by (auto simp: visitor_kernel_def)
  fix ev assume "ev \<in> set evs"
  then have "ev \<in> set (List.map_filter (visit_event ep tr) tr)" using e by (auto simp: visitor_kernel_def dest: in_set_takeD)
  then obtain x where "visit_event ep tr x = Some ev" using map_filter_member by metis
  then obtain f ev' where "interest ep tr f = Some ev'" "ev_ptr ev' = Some AcceptChan" "ev = ev'\<lparr>ev_events := kReadEvent\<rparr>"
    by (cases x) (auto simp: visit_event_def split: if_splits)
  then show "\<exists>f ev'. interest ep tr f = Some ev' \<and> ev_ptr ev = ev_ptr ev'"
    by (intro exI [of _ f] exI [of _ ev']) simp
qed

lemma visitor_laws: "system_laws visitor_kernel (echo_user visitor_kernel)"
  using visitor_starts visitor_wait echo_user_law by (simp add: system_laws_def starts_law_def)

lemma interest_ctl:
  assumes "interest ep tr f = Some ev"
  shows "\<exists>e opn r. EvEpollCtl e opn f ev r \<in> set tr"
  using assms
proof (induction tr rule: rev_induct)
  case (snoc e tr)
  show ?case
  proof (cases "(ep, e, interest ep tr)" rule: interest_after.cases)
  qed (use snoc in \<open>auto split: if_splits\<close>)
qed simp

lemma visitor_reports:
  assumes "interest ep tr f = Some ev" "ev_ptr ev = Some AcceptChan" "0 < n"
  shows "\<exists>ev. k_epoll_wait visitor_kernel tr ep n t = Ok [ev] \<and> ev_ptr ev = Some AcceptChan \<and> ev_events ev = kReadEvent"
proof -
  let ?es = "List.map_filter (visit_event ep tr) tr"
  obtain e opn r where "EvEpollCtl e opn f ev r \<in> set tr" using interest_ctl [OF assms(1)] by blast
  moreover have "visit_event ep tr (EvEpollCtl e opn f ev r) = Some (ev\<lparr>ev_events := kReadEvent\<rparr>)"
    using assms(1,2) by (simp add: visit_event_def)
  ultimately have "?es \<noteq> []" using map_filter_member by (metis empty_iff list.set(1))
  then obtain ev' rest where es: "?es = ev' # rest" by (cases ?es) auto
  then have "ev' \<in> set ?es" by simp
  then obtain x where "visit_event ep tr x = Some ev'" by (auto simp: map_filter_member)
  then have "ev_ptr ev' = Some AcceptChan \<and> ev_events ev' = kReadEvent"
    by (cases x) (auto simp: visit_event_def split: if_splits)
  moreover have "k_epoll_wait visitor_kernel tr ep n t = Ok [ev']" using assms(3) es by (cases n) (simp_all add: visitor_kernel_def)
  ultimately show ?thesis by blast
qed

lemma visitor_polled:
  defines "K \<equiv> visitor_kernel"
  defines "U \<equiv> echo_user K"
  shows "\<exists>w. reachable K U ((\<lambda>l. Polling)(0 := Dispatching [AcceptChan]), w :: sworld) \<and> server_loops w = [0, 1, 2, 3]
    \<and> in_thread 0 w = w \<and> ch_revents (chans w AcceptChan) = kReadEvent \<and> live w = {} \<and> idle_loops w
    \<and> sv_nextConnId (server w) = 1 \<and> ac_newConnectionCallback (sv_acceptor (server w)) = Some Bind_TcpServer_newConnection
    \<and> sv_connectionCallback (server w) = Some onConnection_cb \<and> ch_loop (chans w AcceptChan) = 0"
proof -
  have st: "starts_law K 1" "system_laws K U" by (simp_all add: K_def U_def visitor_starts visitor_laws)
  obtain w where w: "initial (\<lambda>l. Polling, w :: sworld)" "server_loops w = [0, 1, 2, 3]" "isReading (chans w AcceptChan)"
    "ch_index (chans w AcceptChan) = kAdded" "isInLoopThread 0 w" "idle_loops w" "ch_loop (chans w AcceptChan) = 0"
    "sv_nextConnId (server w) = 1" "ac_newConnectionCallback (sv_acceptor (server w)) = Some Bind_TcpServer_newConnection"
    "sv_connectionCallback (server w) = Some onConnection_cb"
    using echo_boots [of K start_sworld] st(1) start_sworld_blank by auto
  have sd: "sound w" "live w = {}" using w(1) by (simp_all add: initial_def)
  have l: "0 \<in> set (server_loops w)" using w(2) by simp
  obtain p where p: "el_poller (loops w 0) = Some p" "pl_owner p = 0" "poller_inv p w" using server_poller [OF sd(1) l] by blast
  let ?u = "map_loop 0 (\<lambda>e. e\<lparr>el_activeChannels := []\<rparr>) w"
  have iu: "poller_inv p ?u" by (rule poller_inv_same [OF p(3)]) simp_all
  have "pl_channels p (ch_fd (chans w AcceptChan)) = Some AcceptChan"
    using poller_inv_back [OF p(3), of AcceptChan] p(2) w(4,7) by (simp add: index_defs)
  then have "expected_interest p w (ch_fd (chans w AcceptChan)) = Some \<lparr>ev_events = ch_events (chans w AcceptChan), ev_ptr = Some AcceptChan\<rparr>"
    using w(4) by (simp add: expected_interest_def)
  moreover have pe: "interest (pl_epollfd p) (ktrace w) = expected_interest p w" "0 < length (pl_events p)"
    using p(3) unfolding poller_inv_def by blast+
  ultimately have "interest (pl_epollfd p) (ktrace w) (ch_fd (chans w AcceptChan)) = Some \<lparr>ev_events = ch_events (chans w AcceptChan), ev_ptr = Some AcceptChan\<rparr>"
    by simp
  then obtain ev where ev: "k_epoll_wait K (ktrace ?u) (pl_epollfd p) (length (pl_events p)) kPollTimeMs = Ok [ev]"
    "ev_ptr ev = Some AcceptChan" "ev_events ev = kReadEvent"
    using visitor_reports [OF _ _ pe(2), of "pl_epollfd p" "ktrace w"] unfolding K_def by fastforce
  have ew: "epoll_wait_law K" using st(2) by (simp add: system_laws_def)
  obtain t active p' z where z: "EPollPoller_poll K kPollTimeMs p ?u = Inr (t, active, p', z)" "map Some active = map ev_ptr [ev]"
    "distinct active \<longrightarrow> ch_revents (chans z (the (ev_ptr ev))) = ev_events ev"
    using poll_spec [OF iu ew, of kPollTimeMs] unfolding ev(1) by auto
  have a: "active = [AcceptChan]" using z(2) ev(2) by auto
  let ?x = "map_loop 0 (\<lambda>e. e\<lparr>el_poller := Some p', el_pollReturnTime := t, el_activeChannels := active\<rparr>) z"
  have it: "in_thread 0 w = w" by (rule in_thread_self) (use w(5) in \<open>simp add: isInLoopThread_def\<close>)
  have "sys_step K U (\<lambda>l. Polling, w) ((\<lambda>l. Polling)(0 := Dispatching active), ?x)"
    by (rule ss_poll [where l = 0 and p = p and p' = p' and t = t and active = active and z = z])
      (use w(1,6) p z l in \<open>simp_all add: it idle_loops_def\<close>)
  then have r: "reachable K U ((\<lambda>l. Polling)(0 := Dispatching [AcceptChan]), ?x)"
    using re_step [OF re_start [OF w(1)]] unfolding a by blast
  have lm: "lworld.more z = lworld.more ?u" by (rule lworld_more(3) [OF poll_alike(4) [OF z(1)]])
  have sv: "server ?x = server w" "live ?x = {}" using sworld_more(2) [OF tworld_more(5) [OF lm]] tworld_more(2) [OF lm] sd(2) by (simp_all add: map_loop_def)
  have lo: "loops z = loops ?u" by (rule poll_loop_frame(2) [OF z(1)])
  have "in_thread 0 ?x = ?x"
    by (rule in_thread_self) (use poll_alike(5) [OF z(1)] lo w(5) in \<open>simp add: isInLoopThread_def\<close>)
  moreover have "idle_loops ?x" using w(6) by (simp add: idle_loops_def map_loop_def lo)
  moreover have "ch_revents (chans ?x AcceptChan) = kReadEvent" using z(3) a ev(2,3) by simp
  moreover have "server_loops ?x = [0, 1, 2, 3]" using w(2) sv(1) by (simp add: server_loops_def)
  moreover have "ch_loop (chans ?x AcceptChan) = 0" using poll_alike(1) [OF z(1), of AcceptChan] w(7) by (simp add: alike_def)
  ultimately show ?thesis using r sv w(8-10) by auto
qed

lemma visitor_connects:
  defines "K \<equiv> visitor_kernel"
  defines "U \<equiv> echo_user K"
  shows "\<exists>ph w c l. reachable K U (ph, w :: sworld) \<and> live w = {c} \<and> l \<in> set (server_loops w) \<and> ph l = Polling
    \<and> el_pendingFunctors (loops w l) = [Bind_connectEstablished c] \<and> \<not> el_quit (loops w l) \<and> l \<noteq> 0
    \<and> ch_loop (chans w AcceptChan) = 0 \<and> tc_connectionCallback (conns w c) = Some onConnection_cb
    \<and> server_loops w = [0, 1, 2, 3]"
proof -
  let ?ph = "(\<lambda>l. Polling)(0 := Dispatching [AcceptChan])"
  obtain w where w: "reachable K U (?ph, w :: sworld)" "server_loops w = [0, 1, 2, 3]" "in_thread 0 w = w"
    "ch_revents (chans w AcceptChan) = kReadEvent" "live w = {}" "idle_loops w" "sv_nextConnId (server w) = 1"
    "ac_newConnectionCallback (sv_acceptor (server w)) = Some Bind_TcpServer_newConnection"
    "sv_connectionCallback (server w) = Some onConnection_cb" "ch_loop (chans w AcceptChan) = 0"
    using visitor_polled unfolding K_def U_def by blast
  have laws: "system_laws K U" by (simp add: K_def U_def visitor_laws)
  note D = sys_okD [OF reachable_ok [OF w(1) laws]]
  have "bound_ok AcceptChan (chans w AcceptChan)" using soundD(2) [OF D(1), of AcceptChan] by simp
  then have sel: "selected (chans w AcceptChan) = [Bind_Acceptor_handleRead]"
    using w(4) by (simp add: selected_def has_bits_def kReadEvent_def event_bits Let_def)
  let ?t = "el_pollReturnTime (loops w 0)"
  let ?v = "LOG K INFO ''Channel handleEvent revents : %d\<newline>'' [AInt (sint (ch_revents (chans w AcceptChan)))] w"
  let ?a = "sv_acceptor (server w)"
  obtain f sa where f: "k_accept K (ktrace w) (ac_acceptSocket ?a) = Ok (f, sa)" by (auto simp: K_def visitor_kernel_def plain_kernel_def)
  let ?u = "record_event (EvAccept (ac_acceptSocket ?a) (Ok (f, sa))) ?v"
  have ok: "server_ok (server ?u)" "sv_nextConnId (server ?u) < INT_MAX"
    using soundD(3) [OF D(1)] w(7) by (simp_all add: table_ok_def INT_MAX_def)
  obtain l x where x: "l \<in> set (getAllLoops (sv_threadPool (server ?u)))" "registered_conn l f ?u x"
    "newConnection K U f (InetAddress_setSockAddr sa InetAddress_default) ?u
      = runInLoop K (run_functor K U) l (Bind_connectEstablished (next_conn ?u)) x"
    using newConnection_runs [OF ok] by blast
  have l: "l \<in> {1, 2, 3}" using x(1) w(2) by (auto simp: server_loops_def getAllLoops_def)
  then have lw: "l \<in> set (server_loops w)" "0 \<in> set (server_loops w)" "l \<noteq> 0" using w(2) by auto
  have "loops x = loops w" "cur_tid x = cur_tid w" "live x = {next_conn w}" "server_loops x = server_loops w"
    using x(2) w(5) by (auto simp: registered_conn_def Let_def server_loops_def getNextLoop_def split: if_splits)
  note X = this
  have tid: "cur_tid w = el_threadId (loops w 0)" by (subst (1) w(3) [symmetric]) (simp add: in_thread_def)
  have "el_threadId (loops w l) \<noteq> el_threadId (loops w 0)" using D(9) lw unfolding own_threads_def by (meson inj_on_eq_iff)
  then have nt: "\<not> isInLoopThread l x" using tid by (simp add: isInLoopThread_def X)
  let ?y = "queueInLoop K l (Bind_connectEstablished (next_conn w)) x"
  have "handleEvent K alive (run_cb K U) ?t AcceptChan (in_thread 0 w) = run_cb K U Bind_Acceptor_handleRead ?t ?v"
    using handled_in_order [OF w(1) laws, of 0 AcceptChan "[]" ?t] by (simp add: sel w(3))
  also have "\<dots> = newConnection K U f (InetAddress_setSockAddr sa InetAddress_default) ?u"
    using f w(8) by (simp add: Acceptor_handleRead_def Socket_accept_def sys_accept_def Let_def)
  also have "\<dots> = Inr ?y" using x(3) nt by (simp add: runInLoop_def)
  finally have h: "handleEvent K alive (run_cb K U) ?t AcceptChan (in_thread 0 w) = Inr ?y" .
  have "sys_step K U (?ph, w) (?ph(0 := Dispatching []), ?y)"
    by (rule ss_event [where l = 0 and ph = ?ph and chs = "[]" and ch = AcceptChan]) (use lw h in simp_all)
  then have "reachable K U (?ph(0 := Dispatching []), ?y)" by (rule re_step [OF w(1)])
  moreover have "live ?y = {next_conn w}" by (simp add: X)
  moreover have "server_loops ?y = server_loops w" using X(4) by (simp add: server_loops_def)
  moreover have "el_pendingFunctors (loops ?y l) = [Bind_connectEstablished (next_conn w)]"
    using w(6) X(1) by (simp add: queueInLoop_spec(1) idle_loops_def)
  moreover have "(?ph(0 := Dispatching [])) l = Polling" using lw(3) by simp
  moreover have "\<not> el_quit (loops ?y l)" using w(6) X(1) by (simp add: queueInLoop_spec(1) idle_loops_def)
  moreover have "ch_loop (chans ?y AcceptChan) = 0" "tc_connectionCallback (conns ?y (next_conn w)) = Some onConnection_cb"
    using x(2) w(9,10) by (auto simp: registered_conn_def Let_def)
  ultimately show ?thesis using lw(1,3) w(2) by metis
qed

text \<open>The loop of the connection polls, finds its functor and establishes the connection.\<close>

lemma nothing_elsewhere:
  assumes "poller_inv p w" "ch_loop (chans w AcceptChan) \<noteq> pl_owner p"
  shows "k_epoll_wait visitor_kernel (ktrace w) (pl_epollfd p) n t = Ok []"
proof -
  have no: "visit_event (pl_epollfd p) (ktrace w) e = None" for e
  proof (rule ccontr)
    assume "visit_event (pl_epollfd p) (ktrace w) e \<noteq> None"
    then obtain f ev where ev: "interest (pl_epollfd p) (ktrace w) f = Some ev" "ev_ptr ev = Some AcceptChan"
      by (cases e) (auto simp: visit_event_def split: if_splits)
    have "interest (pl_epollfd p) (ktrace w) = expected_interest p w" using assms(1) unfolding poller_inv_def by blast
    then have "pl_channels p f = Some AcceptChan"
      using ev by (auto simp: expected_interest_def split: option.splits if_splits)
    from poller_inv_slot(2) [OF assms(1) this] assms(2) show False by simp
  qed
  have "List.map_filter (visit_event (pl_epollfd p) (ktrace w)) xs = []" for xs by (induction xs) (simp_all add: map_filter_simps no)
  then show ?thesis by (simp add: visitor_kernel_def)
qed

lemma echo_established:
  assumes sd: "sound w" and law: "epoll_ctl_law K" and c: "c \<in> live w" "tc_state (conns w c) = kConnecting"
    and cb: "tc_connectionCallback (conns w c) = Some onConnection_cb"
  shows "\<exists>x. connectEstablished K (echo_user K) c w = Inr x \<and> live x = live w \<and> tc_state (conns x c) = kConnected"
proof -
  let ?v = "map_chan (ConnChan c) (Channel_tie c) (map_conn c (setState kConnected) w)"
  have sv: "sound ?v" by (rule sound_establish [OF sd c(1)])
  have pr: "present ?v (ConnChan c)" using c by simp
  obtain p where "serves (ch_loop (chans ?v (ConnChan c))) (ConnChan c) p ?v" using present_serves [OF sv pr] by blast
  from enable_totals(1) [OF this law] obtain x where x: "enableReading K (ConnChan c) ?v = Inr x" by blast
  note W = channel_op_world [OF channel_ops(1) [OF x]]
  have t: "conns x c = setState kConnected (conns w c)" "live x = live w" by (simp_all add: W)
  obtain s where s: "InetAddress_toIpPort (tc_peerAddr (conns w c)) = Inr s" using toIpPort_total by blast
  have "call_connection (echo_user K) c x = Inr (LOG K INFO ''Connection UP : %s'' [AStr (c_str s)] x)"
    using t c cb s by (simp add: call_connection_def echo_user_def echo_onConnection_def setState_def connected_def)
  then have "connectEstablished K (echo_user K) c w = Inr (LOG K INFO ''Connection UP : %s'' [AStr (c_str s)] x)"
    using x by (simp add: connectEstablished_def Let_def)
  then show ?thesis using t by (simp add: setState_def)
qed

lemma visitor_established:
  defines "K \<equiv> visitor_kernel"
  defines "U \<equiv> echo_user K"
  shows "\<exists>ph w ph' x c. reachable K U (ph, w :: sworld) \<and> (sys_step K U)\<^sup>*\<^sup>* (ph, w) (ph', x) \<and> live w = {c} \<and> live x = {c}
    \<and> tc_state (conns w c) = kConnecting \<and> tc_state (conns x c) = kConnected"
proof -
  obtain ph w c l where w: "reachable K U (ph, w :: sworld)" "live w = {c}" "l \<in> set (server_loops w)" "ph l = Polling"
    "el_pendingFunctors (loops w l) = [Bind_connectEstablished c]" "\<not> el_quit (loops w l)" "l \<noteq> 0"
    "ch_loop (chans w AcceptChan) = 0" "tc_connectionCallback (conns w c) = Some onConnection_cb"
    using visitor_connects unfolding K_def U_def by blast
  have laws: "system_laws K U" by (simp add: K_def U_def visitor_laws)
  then have el: "epoll_ctl_law K" by (simp add: system_laws_def)
  note ok = reachable_ok [OF w(1) laws]
  have st: "tc_state (conns w c) = kConnecting" using sys_okD(3) [OF ok, of "Bind_connectEstablished c" l] w(4,5) by (simp add: work_def)
  obtain p where p: "el_poller (loops w l) = Some p" "pl_owner p = l" "poller_inv p w" using server_poller [OF sys_okD(1) [OF ok] w(3)] by blast
  let ?u = "map_loop l (\<lambda>e. e\<lparr>el_activeChannels := []\<rparr>) (in_thread l w)"
  have iu: "poller_inv p ?u" by (rule poller_inv_same [OF p(3)]) (simp_all add: in_thread_def)
  have "k_epoll_wait K (ktrace ?u) (pl_epollfd p) (length (pl_events p)) kPollTimeMs = Ok []"
    unfolding K_def by (rule nothing_elsewhere [OF iu]) (use w(7,8) p(2) in \<open>simp add: in_thread_def\<close>)
  from poll_nothing [OF this] obtain t z where z: "EPollPoller_poll K kPollTimeMs p ?u = Inr (t, [], p, z)" by blast
  let ?x = "map_loop l (\<lambda>e. e\<lparr>el_poller := Some p, el_pollReturnTime := t, el_activeChannels := []\<rparr>) z"
  let ?p1 = "ph(l := Dispatching [])"
  have s1: "sys_step K U (ph, w) (?p1, ?x)"
    by (rule ss_poll [where l = l and p = p and p' = p and t = t and active = "[]" and z = z]) (use w p(1) z in simp_all)
  have lm: "lworld.more z = lworld.more ?u" by (rule lworld_more(3) [OF poll_alike(4) [OF z]])
  have x: "conns ?x = conns w" "live ?x = {c}" "server_loops ?x = server_loops w"
    using tworld_more(1,2) [OF lm] sworld_more(2) [OF tworld_more(5) [OF lm]] w(2) by (simp_all add: in_thread_def server_loops_def map_loop_def)
  have px: "el_pendingFunctors (loops ?x l) = [Bind_connectEstablished c]"
    using poll_loop_frame(2) [OF z] w(5) by (simp add: in_thread_def)
  let ?p2 = "?p1(l := Calling [Bind_connectEstablished c])" and ?y = "take_batch l (in_thread l ?x)"
  have lx: "l \<in> set (server_loops ?x)" using w(3) x(3) by simp
  have s2: "sys_step K U (?p1, ?x) (?p2, ?y)" using ss_batch [OF lx, of ?p1 K U] px by simp
  have r2: "reachable K U (?p2, ?y)" using re_step [OF re_step [OF w(1) s1] s2] .
  have y: "conns ?y = conns w" "live ?y = {c}" "server_loops ?y = server_loops w"
    using x by (simp_all add: take_batch_def in_thread_def map_loop_def server_loops_def)
  have "sound (in_thread l ?y)" using sys_okD(1) [OF reachable_ok [OF r2 laws]] by (simp add: in_thread_def)
  from echo_established [OF this el] obtain v where v: "connectEstablished K U c (in_thread l ?y) = Inr v" "live v = {c}"
    "tc_state (conns v c) = kConnected" using y st w(9) unfolding U_def by (auto simp: in_thread_def)
  have "sys_step K U (?p2, ?y) (?p2(l := Calling []), v)"
    by (rule ss_functor [where l = l and ph = ?p2 and fs = "[]" and f = "Bind_connectEstablished c"]) (use w(3) y(3) v(1) in simp_all)
  then have "(sys_step K U)\<^sup>*\<^sup>* (ph, w) (?p2(l := Calling []), v)" using s1 s2
    by (meson converse_rtranclp_into_rtranclp rtranclp.rtrancl_refl)
  then show ?thesis using w(1,2) st v(2,3) by blast
qed

theorem lifetime_exact_witness:
  "\<exists>ph w c. reachable visitor_kernel (echo_user visitor_kernel) (ph, w :: sworld) \<and> live w = {c} \<and> referenced c w"
proof -
  obtain ph w c l where w: "reachable visitor_kernel (echo_user visitor_kernel) (ph, w :: sworld)" "live w = {c}"
    using visitor_connects by blast
  have "c \<in> live w" using w(2) by simp
  then have "referenced c w" using lifetime_exact [OF w(1) visitor_laws] by blast
  then show ?thesis using w by blast
qed

theorem registration_exact_witness:
  "\<exists>ph w c. reachable visitor_kernel (echo_user visitor_kernel) (ph, w :: sworld) \<and> live w = {c}
    \<and> ch_fd (chans w (ConnChan c)) \<in> open_fds (ktrace w) \<and> ch_fd (chans w (ConnChan c)) \<noteq> ch_fd (chans w AcceptChan)"
proof -
  obtain ph w c l where w: "reachable visitor_kernel (echo_user visitor_kernel) (ph, w :: sworld)" "live w = {c}"
    using visitor_connects by blast
  have p: "present w (ConnChan c)" "present w AcceptChan" using w(2) by simp_all
  have "ch_fd (chans w (ConnChan c)) \<in> open_fds (ktrace w) \<and> ch_fd (chans w (ConnChan c)) \<noteq> ch_fd (chans w AcceptChan)"
    using registration_exact [OF w(1) visitor_laws] p by blast
  then show ?thesis using w by blast
qed

theorem no_lost_wakeup_witness:
  "\<exists>ph w c l. reachable visitor_kernel (echo_user visitor_kernel) (ph, w :: sworld)
    \<and> el_pendingFunctors (loops w l) = [Bind_connectEstablished c] \<and> signalled (el_wakeupFd (loops w l)) (ktrace w)"
proof -
  obtain ph w c l where w: "reachable visitor_kernel (echo_user visitor_kernel) (ph, w :: sworld)" "l \<in> set (server_loops w)"
    "ph l = Polling" and q: "el_pendingFunctors (loops w l) = [Bind_connectEstablished c]" using visitor_connects by blast
  have "el_pendingFunctors (loops w l) \<noteq> []" using q by simp
  from no_lost_wakeup [OF w(1) visitor_laws w(2,3) this] show ?thesis using w(1) q by blast
qed

theorem connection_lifecycle_witness:
  "\<exists>ph w c l. reachable visitor_kernel (echo_user visitor_kernel) (ph, w :: sworld) \<and> live w = {c}
    \<and> el_pendingFunctors (loops w l) = [Bind_connectEstablished c] \<and> l = tc_loop (conns w c) \<and> tc_state (conns w c) = kConnecting"
proof -
  obtain ph w c l where w: "reachable visitor_kernel (echo_user visitor_kernel) (ph, w :: sworld)" "live w = {c}"
    and q: "el_pendingFunctors (loops w l) = [Bind_connectEstablished c]" using visitor_connects by blast
  then have "Bind_connectEstablished c \<in> set (work ph w l)" by (simp add: work_def)
  then have "l = tc_loop (conns w c)" "tc_state (conns w c) = kConnecting" using connection_lifecycle [OF w(1) visitor_laws] by blast+
  then show ?thesis using w q by blast
qed

theorem dispatch_in_order_witness:
  "\<exists>ph w t. reachable visitor_kernel (echo_user visitor_kernel) (ph, w :: sworld) \<and> ph 0 = Dispatching [AcceptChan]
    \<and> handleEvent visitor_kernel alive (run_cb visitor_kernel (echo_user visitor_kernel)) t AcceptChan (in_thread 0 w) =
      foldE (\<lambda>cb. run_cb visitor_kernel (echo_user visitor_kernel) cb t) (selected (chans w AcceptChan))
        (LOG visitor_kernel INFO ''Channel handleEvent revents : %d\<newline>'' [AInt (sint (ch_revents (chans w AcceptChan)))] (in_thread 0 w))"
proof -
  let ?ph = "(\<lambda>l. Polling)(0 := Dispatching [AcceptChan])"
  obtain w where w: "reachable visitor_kernel (echo_user visitor_kernel) (?ph, w :: sworld)" using visitor_polled by blast
  have p: "?ph 0 = Dispatching [AcceptChan]" by simp
  show ?thesis using w p dispatch_in_order [OF w visitor_laws p] by blast
qed

text \<open>An environment in which nothing happens.\<close>

lemma plain_poll: "\<exists>t v. EPollPoller_poll (plain_kernel 4 []) n p w = Inr (t, [], p, v) \<and> reports w v"
  by (rule poll_nothing) (simp add: plain_kernel_def)

lemma plain_system: "user_law (plain_kernel 4 []) U \<Longrightarrow> system_laws (plain_kernel 4 []) U"
  by (simp add: system_laws_def)

lemma queued_pass:
  assumes "el_poller (loops w 1) = Some p" "el_pendingFunctors (loops (w :: sworld) 1) = [User_functor 0]"
  shows "\<exists>x. body (plain_kernel 4 []) (echo_user (plain_kernel 4 [])) 1 (in_thread 1 w) = Inr x \<and> el_pendingFunctors (loops x 1) = []"
proof -
  let ?K = "plain_kernel 4 []"
  let ?u = "map_loop 1 (\<lambda>e. e\<lparr>el_activeChannels := []\<rparr>) (in_thread 1 w)"
  obtain t v where v: "EPollPoller_poll ?K kPollTimeMs p ?u = Inr (t, [], p, v)" using plain_poll by blast
  have "el_pendingFunctors (loops v 1) = [User_functor 0]" using poll_loop_frame(2) [OF v] assms(2) by (simp add: in_thread_def)
  with v assms(1) show ?thesis
    by (simp add: body_def loop_body_def doPendingFunctors_def take_batch_def end_batch_def release_def map_filter_simps
        echo_user_def idle_user_def in_thread_def Let_def)
qed

theorem pass_refines_witness:
  "\<exists>w x. (sys_step (plain_kernel 4 []) (echo_user (plain_kernel 4 [])))\<^sup>*\<^sup>* (\<lambda>l. Polling, w :: sworld) (\<lambda>l. Polling, x)
    \<and> el_pendingFunctors (loops w 1) = [User_functor 0] \<and> el_pendingFunctors (loops x 1) = []"
proof -
  let ?K = "plain_kernel 4 []" and ?U = "echo_user (plain_kernel 4 [])"
  have laws: "system_laws ?K ?U" by (rule plain_system [OF echo_user_law])
  obtain w where w: "reachable ?K ?U (\<lambda>l. Polling, w :: sworld)" "server_loops w = [0, 1, 2, 3]"
    "el_pendingFunctors (loops w 1) = [User_functor 0]" "\<not> el_quit (loops w 1)"
    using queued_functor [OF laws plain_starts] by blast
  have l: "1 \<in> set (server_loops w)" using w(2) by simp
  obtain p where p: "el_poller (loops w 1) = Some p"
    using server_poller [OF sys_okD(1) [OF reachable_ok [OF w(1) laws]] l] by blast
  obtain x where x: "body ?K ?U 1 (in_thread 1 w) = Inr x" "el_pendingFunctors (loops x 1) = []"
    using queued_pass [OF p w(3)] by blast
  show ?thesis using pass_refines [OF w(1) laws l _ w(4) x(1)] w(3) x(2) by blast
qed

end
