(* ===== verification/Streams.thy ===== *)
theory Streams
  imports Running
begin

text \<open>
  What connections send, in the running server: the invariant of \<open>ConnectionOutput\<close> holds of every live
  connection at every moment, the bytes of a connection are only ever added to, and while there are unsent
  ones the connection's loop watches the descriptor for writability.
\<close>

section \<open>Flow\<close>

text \<open>From \<open>u\<close> to \<open>w\<close> the bytes of the connections that are still there were only added to.\<close>

definition flows :: "'z sworld_scheme \<Rightarrow> 'z sworld_scheme \<Rightarrow> bool" where
  "flows u w \<longleftrightarrow> conns_inv w \<and> (\<forall>c \<in> live u \<inter> live w. \<exists>d. stream c w = stream c u @ d)"

lemma flows_refl: "conns_inv w \<Longrightarrow> flows w w"
  by (simp add: flows_def)

lemma flows_trans:
  assumes "flows u v" "flows v w" "live u \<inter> live w \<subseteq> live v"
  shows "flows u w"
proof -
  have "\<exists>d. stream c w = stream c u @ d" if "c \<in> live u" "c \<in> live w" for c
  proof -
    from assms that obtain d1 d2 where "stream c v = stream c u @ d1" "stream c w = stream c v @ d2"
      unfolding flows_def by (meson IntI subsetD)
    then show ?thesis by simp
  qed
  then show ?thesis using assms(2) by (simp add: flows_def)
qed

lemma advances_flows: "advances u w \<Longrightarrow> flows u w"
  by (simp add: advances_def flows_def)

text \<open>A step that leaves the connections and their channels alone, but for the registration.\<close>

lemma flows_quiet:
  assumes inv: "conns_inv u" and lv: "live w \<subseteq> live u" and str: "strings w = strings u"
    and cs: "\<And>c. c \<in> live w \<Longrightarrow> conns w c = conns u c"
    and ch: "\<And>c. c \<in> live w \<Longrightarrow> alike (chans u (ConnChan c)) (chans w (ConnChan c))"
    and wf: "\<And>l. el_wakeupFd (loops w l) = el_wakeupFd (loops u l)"
    and wr: "\<And>f. \<forall>l. el_wakeupFd (loops u l) \<noteq> f \<Longrightarrow> written f (ktrace w) = written f (ktrace u)"
  shows "flows u w"
proof -
  have C: "conn_fd c w = conn_fd c u" "pending c w = pending c u" "conn_inv c w = conn_inv c u"
    "private_fd c w = private_fd c u" if "c \<in> live w" for c
    using cs [OF that] ch [OF that]
    by (simp_all add: conn_fd_def pending_def conn_inv_def private_fd_def wf alike_def isWriting_def)
  have "conns_inv w" using inv lv C unfolding conns_inv_def str by (simp add: subset_iff)
  moreover have "stream c w = stream c u" if "c \<in> live w" for c
  proof -
    have "private_fd c u" using inv that lv by (auto simp: conns_inv_def)
    then show ?thesis using wr [of "conn_fd c u"] C [OF that] by (simp add: stream_def private_fd_def)
  qed
  ultimately show ?thesis by (simp add: flows_def)
qed

section \<open>Functors\<close>

lemma advances_server:
  assumes "conns_inv w"
  shows "advances w (map_server f w)"
  using assms by (intro advances_elsewhere) (auto simp: conns_inv_def loop_frame_same)

lemma advances_removeConnectionInLoop:
  assumes "conns_inv w"
  shows "advances w (removeConnectionInLoop K c w)"
proof -
  let ?u = "LOG K INFO ''TcpServer::removeConnectionInLoop [%s] - connection %s \<newline>''
                [AStr (c_str (sv_name (server w))), AStr (c_str (tc_name (conns w c)))] w"
  let ?v = "map_server (\<lambda>s. s\<lparr>sv_connections := erase (tc_name (conns w c)) (sv_connections s)\<rparr>) ?u"
  have 1: "advances w ?u" by (rule advances_LOG [OF assms])
  have 2: "advances ?u ?v" by (rule advances_server [OF advances_inv [OF 1]])
  have "advances ?v (queueInLoop K (tc_loop (conns w c)) (Bind_connectDestroyed c) ?v)"
    by (rule advances_queue [OF advances_inv [OF 2]])
  with 1 2 have "advances w (queueInLoop K (tc_loop (conns w c)) (Bind_connectDestroyed c) ?v)" by (blast intro: advances_trans)
  then show ?thesis by (simp add: removeConnectionInLoop_def Let_def)
qed

lemma close_law_server: "close_law (run_close K (U :: 'z sworld_scheme user))"
  unfolding close_law_def
proof (intro allI impI)
  fix cb c and w w' :: "'z sworld_scheme"
  assume "run_close K U cb c w = Inr w'" "conns_inv w"
  then show "advances w w'"
    by (cases cb) (auto simp: removeConnection_def runInLoop_def advances_removeConnectionInLoop advances_queue split: if_splits)
qed

lemma advances_channel_off:
  assumes op: "channel_op f AcceptChan w w'" and inv: "conns_inv w"
  shows "flows w w'"
proof -
  note m = tworld_more [OF channel_opD(5) [OF op]]
  have lf: "loop_frame l w w'" for l using op by (rule loop_frame_after) simp
  show ?thesis
    by (rule flows_quiet [OF inv])
      (use m channel_opD(2,6) [OF op] lf in \<open>simp_all add: loop_frame_def\<close>)
qed

lemma flows_listen:
  assumes r: "server_listen K w = Inr w'" and inv: "conns_inv w"
  shows "flows w w'"
proof -
  obtain x v where v: "Socket_listen K (ac_acceptSocket (sv_acceptor (server w))) w = Inr v"
    "enableReading K AcceptChan v = Inr x" "w' = map_server (\<lambda>s. s\<lparr>sv_acceptor := (sv_acceptor (server w))\<lparr>ac_listening := True\<rparr>\<rparr>) x"
    using r by (auto simp: server_listen_def Acceptor_listen_def Let_def)
  have "conns v = conns w" "chans v = chans w" "live v = live w" "strings v = strings w" "loops v = loops w"
    "written f (ktrace v) = written f (ktrace w)" for f
    using v(1) by (auto simp: Socket_listen_def sys_listen_def LOG_FATAL_def Let_def split: sysret.splits)
  then have 1: "flows w v" by (intro flows_quiet [OF inv]) simp_all
  then have "conns_inv v" by (simp add: flows_def)
  from advances_channel_off [OF channel_ops(1) [OF v(2)] this] have 2: "flows v x" .
  have "conns_inv x" using 2 by (simp add: flows_def)
  from advances_flows [OF advances_server [OF this]] have 3: "flows x w'" unfolding v(3) .
  have "live x = live v" by (rule tworld_more(2) [OF channel_opD(5) [OF channel_ops(1) [OF v(2)]]])
  then have "flows v w'" using flows_trans [OF 2 3] by blast
  then show ?thesis using flows_trans [OF 1] \<open>live v = live w\<close> by blast
qed

section \<open>Events\<close>

lemma advances_event:
  assumes inv: "conns_inv w" and q: "\<And>f. written f (ktrace (record_event e w)) = written f (ktrace w)"
  shows "advances w (record_event e w)"
  using inv q by (intro advances_elsewhere) (auto simp: conns_inv_def)

lemma advances_close:
  assumes "conns_inv w"
  shows "advances w (sys_close f w)"
  using advances_event [OF assms] by (simp add: sys_close_def)

text \<open>A connection that has just been registered has an empty stream and a descriptor of its own.\<close>

lemma advances_registered:
  assumes r: "registered_conn l f w x" and inv: "conns_inv w" and sd: "sound w" and sp: "spare_fd f w"
  shows "advances w x"
proof -
  let ?c = "next_conn w"
  have new: "?c \<notin> live w" by (rule next_conn_new [OF sd])
  have x: "live x = insert ?c (live w)" "loops x = loops w" "cur_tid x = cur_tid w" "loopInThread x = loopInThread w"
      "strings x = strings w" "\<exists>tr. ktrace x = ktrace w @ tr"
    using r by (auto simp: registered_conn_def Let_def)
  have wr: "written g (ktrace x) = written g (ktrace w)" for g
    using r by (auto simp: registered_conn_def written_append written_def Let_def)
  have cs: "d \<noteq> ?c \<Longrightarrow> conns x d = conns w d" "ch \<noteq> ConnChan ?c \<Longrightarrow> chans x ch = chans w ch" for d ch
    using r by (auto simp: registered_conn_def Let_def)
  have t: "tc_inputBuffer (conns x ?c) = Buffer_default" "tc_outputBuffer (conns x ?c) = Buffer_default"
      "tc_socket (conns x ?c) = f" "tc_loop (conns x ?c) = l"
    using r by (auto simp: registered_conn_def Let_def)
  have h: "ch_fd (chans x (ConnChan ?c)) = f" "ch_loop (chans x (ConnChan ?c)) = l" "\<not> isWriting (chans x (ConnChan ?c))"
    using r by (auto simp: registered_conn_def Channel_ctor_def isWriting_def has_bits_def event_bits Let_def)
  have fd: "conn_fd d w \<noteq> f" if "d \<in> live w" for d
    using sp that by (auto simp: spare_fd_def conn_fd_def)
  have C: "conn_fd d x = conn_fd d w" "pending d x = pending d w" "conn_inv d x = conn_inv d w"
    "private_fd d x = private_fd d w" if "d \<noteq> ?c" for d
    using cs(1) [OF that] cs(2) [of "ConnChan d"] that x(2) by (simp_all add: conn_fd_def pending_def conn_inv_def private_fd_def)
  have N: "conn_fd ?c x = f" "pending ?c x = []" using t h by (simp_all add: conn_fd_def pending_def Buffer_default_def Buffer_content_def)
  have "conn_inv ?c x" using t h N by (simp add: conn_inv_def)
  moreover have "private_fd ?c x" using sp N x(2) by (simp add: private_fd_def spare_fd_def)
  ultimately have "conns_inv x"
    using inv new fd C N unfolding conns_inv_def x(1,5) by auto metis+
  moreover have "stream d x = stream d w" if "d \<in> live w" for d
    using C [of d] new that wr by (cases "d = ?c") (simp_all add: stream_def)
  moreover have "loop_frame k w x" for k using x by (intro loop_frame_same) auto
  moreover have "conns x d = conns w d" if "d \<in> live w" for d using cs(1) [of d] that new by blast
  moreover have "chans x ch = chans w ch" if "settled ch w" for ch
    using cs(2) [of ch] that new by (cases "ch = ConnChan ?c") (auto simp: settled_def)
  ultimately show ?thesis using x(1) by (auto simp: advances_def same_role_def)
qed

lemma advances_newConnection:
  assumes laws: "user_law K U" "write_law K" and sd: "sound w" and sp: "spare_fd f w" and inv: "conns_inv w"
    and r: "newConnection K U f peer w = Inr w'"
  shows "advances w w'"
proof -
  let ?c = "next_conn w"
  obtain l x where x: "registered_conn l f w x" "?c \<in> live x" "tc_state (conns x ?c) = kConnecting"
    "connectEstablished K U ?c x = Inr w' \<or> w' = queueInLoop K l (Bind_connectEstablished ?c) x"
    using newConnection_registers [OF sd r] by blast
  have 1: "advances w x" by (rule advances_registered [OF x(1) inv sd sp])
  note ix = advances_inv [OF 1]
  have "advances x w'"
    using x(4) advances_connectEstablished [OF _ ix x(2) laws x(3)] advances_queue [OF ix] by blast
  with 1 show ?thesis by (rule advances_trans)
qed

lemma advances_Acceptor_handleRead:
  assumes laws: "user_law K U" "write_law K" "fresh_law K" "epoll_ctl_law K" and sd: "sound w" and inv: "conns_inv w"
    and r: "Acceptor_handleRead K (run_accept K U) a w = Inr w'"
  shows "advances w w'"
proof -
  let ?e = "EvAccept (ac_acceptSocket a) (k_accept K (ktrace w) (ac_acceptSocket a))"
  let ?v = "record_event ?e w"
  have v: "advances w ?v" by (rule advances_event [OF inv]) simp
  note iv = advances_inv [OF v]
  show ?thesis
  proof (cases "k_accept K (ktrace w) (ac_acceptSocket a)")
    case (Fail e)
    let ?x = "LOG K ERROR ''%s:%s:%d accept err:%d \<newline>'' [AStr ''Acceptor.cc'', AStr ''handleRead'', AInt 74, AInt e] ?v"
    let ?y = "LOG K ERROR ''%s:%s:%d sockfd reached limit \<newline>'' [AStr ''Acceptor.cc'', AStr ''handleRead'', AInt 78] ?x"
    have x: "advances w ?x" by (rule advances_trans [OF v advances_LOG [OF iv]])
    have y: "advances w ?y" by (rule advances_trans [OF x advances_LOG [OF advances_inv [OF x]]])
    have w': "w' = (if e = EMFILE then ?y else ?x)"
      using r Fail by (auto simp: Acceptor_handleRead_def Socket_accept_def sys_accept_def Let_def)
    show ?thesis unfolding w' by (rule if_split [where P = "advances w", THEN iffD2]) (use x y in blast)
  next
    case (Ok q)
    obtain f sa where q: "q = (f, sa)" by (cases q)
    have f: "f \<notin> open_fds (ktrace w)" "2 < f" using laws(3) Ok q unfolding fresh_law_def by blast+
    have e: "?e = EvAccept (ac_acceptSocket a) (Ok (f, sa))" by (simp add: Ok q)
    have sp: "spare_fd f ?v" unfolding e by (rule accepted_spare [OF sd f])
    have "code_step K False {} w ?v" unfolding e by (rule cs_accept [OF f])
    then have sv: "sound ?v" by (rule code_step_sound [OF _ sd laws(4)])
    show ?thesis
    proof (cases "ac_newConnectionCallback a")
      case None
      then have "w' = sys_close f ?v" using r Ok
        by (auto simp: Acceptor_handleRead_def Socket_accept_def sys_accept_def q Let_def)
      then show ?thesis using advances_trans [OF v advances_close [OF iv]] by simp
    next
      case (Some cb)
      then obtain peer where "newConnection K U f peer ?v = Inr w'"
        using r Ok by (cases cb) (auto simp: Acceptor_handleRead_def Socket_accept_def sys_accept_def q Let_def)
      from advances_newConnection [OF laws(1,2) sv sp iv this] show ?thesis by (rule advances_trans [OF v])
    qed
  qed
qed

definition stream_laws :: "kernel \<Rightarrow> 'z sworld_scheme user \<Rightarrow> bool" where
  "stream_laws K U \<longleftrightarrow> system_laws K U \<and> write_law K \<and> readv_law K"

lemma stream_lawsD:
  assumes "stream_laws K U"
  shows "system_laws K U" "user_law K U" "epoll_ctl_law K" "fresh_law K" "epoll_wait_law K" "write_law K" "readv_law K"
  using assms by (simp_all add: stream_laws_def system_laws_def)

lemma advances_cb:
  fixes w :: "'z sworld_scheme"
  assumes laws: "stream_laws K U" and fit: "fit K U ch w" "fit K U ch v" and cb: "cb \<in> callbacks (chans w ch)"
    and r: "run_cb K U cb t v = Inr v'" and inv: "conns_inv v"
  shows "advances v v'"
proof -
  note L = stream_lawsD [OF laws]
  have sd: "sound v" and ar: "armed ch v" "armed ch w" "sound w" using fit by (simp_all add: fit_def)
  have "bound_ok ch (chans w ch)" by (rule soundD(2) [OF ar(3) armed_present [OF ar(2)]])
  from bound_callbacks [OF this cb] consider
      (wakeup) l where "cb = Bind_EventLoop_handleRead l" | (accept) "cb = Bind_Acceptor_handleRead"
    | (conn) c where "ch = ConnChan c" "cb \<in> {Bind_TcpConnection_handleRead c, Bind_TcpConnection_handleWrite c,
          Bind_TcpConnection_handleClose c, Bind_TcpConnection_handleError c}" by blast
  then show ?thesis
  proof cases
    case wakeup
    then have v': "v' = EventLoop_handleRead K l v" using r by simp
    let ?x = "record_event (EvRead (el_wakeupFd (loops v l)) 8 (k_read K (ktrace v) (el_wakeupFd (loops v l)) 8)) v"
    have x: "advances v ?x" by (rule advances_event [OF inv]) simp
    have "v' = ?x \<or> (\<exists>args. v' = LOG K ERROR ''EventLoop::handleRead() reads %ld bytes intstead of 8 \<newline>'' args ?x)"
      unfolding v' EventLoop_handleRead_def sys_read_def Let_def prod.case by auto
    then show ?thesis using x advances_trans [OF x advances_LOG [OF advances_inv [OF x]]] by blast
  next
    case accept
    then have "Acceptor_handleRead K (run_accept K U) (sv_acceptor (server v)) v = Inr v'" using r by simp
    then show ?thesis by (rule advances_Acceptor_handleRead [OF L(2,6,4,3) sd inv])
  next
    case conn
    then have c: "c \<in> live v" using ar by simp
    from conn(2) show ?thesis
    proof (elim insertE emptyE)
      assume "cb = Bind_TcpConnection_handleRead c"
      then show ?thesis using r advances_handleRead [OF _ inv c L(2,6) close_law_server L(7)] by simp
    next
      assume "cb = Bind_TcpConnection_handleWrite c"
      then show ?thesis using r advances_handleWrite [OF _ inv c L(6)] by simp
    next
      assume "cb = Bind_TcpConnection_handleClose c"
      then show ?thesis using r advances_handleClose [OF _ inv c L(2,6) close_law_server] by simp
    next
      assume "cb = Bind_TcpConnection_handleError c"
      then show ?thesis using r advances_handleError [OF inv c] by auto
    qed
  qed
qed

lemma advances_handleEvent:
  fixes w :: "'z sworld_scheme"
  assumes laws: "stream_laws K U" and fit: "fit K U ch w" and inv: "conns_inv w"
    and r: "handleEvent K alive (run_cb K U) t ch w = Inr w'"
  shows "advances w w'"
proof -
  define R where "R u v \<longleftrightarrow> (conns_inv u \<longrightarrow> advances u v)" for u v :: "'z sworld_scheme"
  have "R w w' \<and> fit K U ch w'"
  proof (rule cr.dispatch_rel [OF r fit])
    show "R v v" for v unfolding R_def by (blast intro: advances_refl)
    show "R u v \<Longrightarrow> R v x \<Longrightarrow> R u x" for u v x using advances_trans advances_inv unfolding R_def by blast
    show "R w (LOG K lv fmt args w)" for lv fmt args unfolding R_def by (blast intro: advances_LOG)
    show "R v v'" if "fit K U ch v" "cb \<in> set (selected (chans w ch))" "run_cb K U cb t v = Inr v'" for cb v v'
      unfolding R_def using advances_cb [OF laws fit that(1) _ that(3)] selected_callbacks [OF that(2)] by blast
  qed
  then show ?thesis using inv by (simp add: R_def)
qed

lemma flows_functor:
  fixes w :: "'z sworld_scheme"
  assumes laws: "stream_laws K U" and rd: "ready f w" and inv: "conns_inv w" and r: "run_functor K U f w = Inr w'"
  shows "flows w w'"
proof -
  note L = stream_lawsD [OF laws]
  have adv: "advances w w' \<Longrightarrow> flows w w'" by (rule advances_flows)
  show ?thesis
  proof (cases f)
    case (Bind_connectEstablished c)
    then show ?thesis using r rd by (auto intro!: adv advances_connectEstablished [OF _ inv _ L(2,6)])
  next
    case (Bind_connectDestroyed c)
    then show ?thesis using r rd by (auto intro!: adv advances_connectDestroyed [OF _ inv _ L(2,6)])
  next
    case (Bind_removeConnectionInLoop c)
    then show ?thesis using r rd advances_flows [OF advances_removeConnectionInLoop [OF inv]] by auto
  next
    case (Bind_sendInLoop c p n)
    then obtain s d where s: "c \<in> live w" "strings w p = Some s" "vec_read 0 n s = Inr d" "sendInLoop K c d w = Inr w'"
      using r by (auto split: if_splits option.splits)
    have "length s \<le> max_size" using inv s(2) by (simp add: conns_inv_def)
    then have "length d \<le> max_size" using s(3) by (auto simp: vec_read_def split: if_splits)
    then show ?thesis by (rule adv [OF advances_send_data [OF s(4) inv s(1) _ L(6)]])
  next
    case (Bind_shutdownInLoop c)
    then have "c \<in> live w" "w' = shutdownInLoop K c w" using r by (auto split: if_splits)
    then show ?thesis using adv advances_shutdownInLoop [OF inv] by simp
  next
    case Bind_Acceptor_listen
    then show ?thesis using r flows_listen [OF _ inv] by simp
  next
    case (Bind_writeComplete u c)
    then show ?thesis using r adv advances_user(3) [OF L(2,6) inv] by simp
  next
    case (Bind_highWaterMark u c n)
    then show ?thesis using r adv advances_user(4) [OF L(2,6) inv] by simp
  next
    case (User_functor u)
    then show ?thesis using r adv advances_user(5) [OF L(2,6) inv] by simp
  qed
qed

section \<open>Steps\<close>

lemma flows_poll:
  assumes ap: "after_poll l p p' w x" and inv: "conns_inv w" and str: "strings x = strings w"
  shows "flows w x"
proof (rule flows_quiet [OF inv _ str])
  obtain n t r where tr: "ktrace x = ktrace w @ [EvEpollWait (pl_epollfd p) n t r]" using ap by (auto simp: after_poll_def)
  show "written f (ktrace x) = written f (ktrace w)" for f by (simp add: tr)
qed (use ap in \<open>simp_all add: after_poll_def\<close>)

lemma dtor_strings: "strings (TcpConnection_dtor K c w) = strings w"
  by (simp add: TcpConnection_dtor_def Socket_dtor_def sys_close_def Let_def)

lemma flows_release_one:
  assumes "conns_inv w"
  shows "flows w (release_one K c w)"
proof (cases "c \<in> live w \<and> \<not> referenced c w")
  case False
  then show ?thesis using flows_refl [OF assms] by (auto simp: release_one_def)
next
  case True
  have "flows w (TcpConnection_dtor K c w)"
    by (rule flows_quiet [OF assms]) (auto simp: dtor_world dtor_strings)
  then show ?thesis using True by (simp add: release_one_def)
qed

lemma release_one_live: "live (release_one K c w) \<subseteq> live w"
  by (auto simp: release_one_def dtor_world)

lemma flows_released:
  assumes "conns_inv w"
  shows "flows w (fold (release_one K) cs w) \<and> live (fold (release_one K) cs w) \<subseteq> live w"
  using assms
proof (induction cs arbitrary: w)
  case Nil
  then show ?case by (simp add: flows_refl)
next
  case (Cons c cs)
  let ?v = "release_one K c w"
  have v: "flows w ?v" by (rule flows_release_one [OF Cons.prems])
  then have "conns_inv ?v" by (simp add: flows_def)
  from Cons.IH [OF this] have IH: "flows ?v (fold (release_one K) cs ?v)" "live (fold (release_one K) cs ?v) \<subseteq> live ?v" by simp_all
  have "live w \<inter> live (fold (release_one K) cs ?v) \<subseteq> live ?v" using IH(2) by blast
  with v IH release_one_live [of K c w] show ?case using flows_trans by fastforce
qed

lemma flows_loop:
  assumes "conns_inv w" "el_wakeupFd (f (loops w l)) = el_wakeupFd (loops w l)"
  shows "flows w (map_loop l f w)"
  by (rule flows_quiet [OF assms(1)]) (use assms(2) in \<open>auto simp: map_loop_def\<close>)

lemma flows_thread:
  assumes "conns_inv w"
  shows "flows w (w\<lparr>cur_tid := t\<rparr>)"
  by (rule flows_quiet [OF assms]) simp_all

text \<open>Connections are numbered in the order of their creation, and none comes back.\<close>

definition older :: "'z sworld_scheme \<Rightarrow> 'z sworld_scheme \<Rightarrow> bool" where
  "older u w \<longleftrightarrow> next_conn u \<le> next_conn w \<and> (\<forall>c \<in> live w. c < next_conn u \<longrightarrow> c \<in> live u)"

lemma older_trans: "older u v \<Longrightarrow> older v w \<Longrightarrow> older u w"
  by (auto simp: older_def)

lemma older_less: "next_conn x = next_conn w \<Longrightarrow> live x \<subseteq> live w \<Longrightarrow> older w x"
  by (auto simp: older_def)

lemma older_keeps: "keeps rm A u w \<Longrightarrow> older u w"
  using keepsD(2,3) [of rm A u w] by (fastforce simp: older_def)

lemma older_own: "own_run rm F B u w \<Longrightarrow> older u w"
  using older_keeps by (auto simp: own_run_def)

lemma older_released: "older w (fold (release_one K) cs w)"
proof (induction cs arbitrary: w)
  case (Cons c cs)
  have "older w (release_one K c w)" by (rule older_less) (auto simp: release_one_def dtor_world)
  then show ?case using Cons.IH older_trans by fastforce
qed (simp add: older_def)

lemma flows_step:
  fixes w x :: "'z sworld_scheme"
  assumes laws: "stream_laws K U" and ok: "sys_ok (ph, w)" and inv: "conns_inv w" and st: "sys_step K U (ph, w) (ph', x)"
  shows "flows w x \<and> older w x"
proof -
  note L = stream_lawsD [OF laws]
  have it: "sys_ok (ph, in_thread l w)" "conns_inv (in_thread l w)" "flows w (in_thread l w)" "live (in_thread l w) = live w"
    "next_conn (in_thread l w) = next_conn w" for l
    using ok flows_thread [OF inv] by (auto simp: in_thread_def flows_def)
  have from_thread: "flows w x \<and> older w x" if "flows (in_thread l w) x" "older (in_thread l w) x" for l
    using that flows_trans [OF it(3) that(1)] it(4,5) by (auto simp: older_def)
  from st show ?thesis
  proof cases
    case (ss_poll l p t active p' z)
    note ok' = it(1) [of l]
    have p: "el_poller (loops (in_thread l w) l) = Some p" using ss_poll by (simp add: in_thread_def)
    have "poller_inv p (in_thread l w)" using sys_okD(1) [OF ok'] p by (auto simp: sound_def regs_def)
    note ap = poll_after(1) [OF this L(5) p ss_poll(7)]
    have "lworld.more z = lworld.more (map_loop l (\<lambda>e. e\<lparr>el_activeChannels := []\<rparr>) (in_thread l w))"
      by (rule lworld_more(3) [OF poll_alike(4) [OF ss_poll(7)]])
    then have "strings x = strings (in_thread l w)" using tworld_more(3) [of z] ss_poll by (simp add: map_loop_def)
    then have "flows (in_thread l w) x" using flows_poll [OF ap it(2)] ss_poll by simp
    moreover have "older (in_thread l w) x" by (rule older_less) (use ap ss_poll in \<open>simp_all add: after_poll_def\<close>)
    ultimately show ?thesis by (rule from_thread)
  next
    case (ss_event l ch chs)
    have e: "ch \<in> set (events (ph l))" using ss_event by simp
    have fit: "fit K U ch (in_thread l w)" using L sys_okD(1,5) [OF it(1) [of l]] e by (simp add: fit_def)
    have "flows (in_thread l w) x" by (rule advances_flows [OF advances_handleEvent [OF laws fit it(2) ss_event(4)]])
    moreover have "older (in_thread l w) x" using handleEvent_run [OF fit ss_event(4)] older_own by blast
    ultimately show ?thesis by (rule from_thread)
  next
    case (ss_batch l)
    have "flows (in_thread l w) x" unfolding ss_batch take_batch_def by (rule flows_loop [OF it(2)]) simp
    moreover have "older (in_thread l w) x" by (rule older_less) (simp_all add: ss_batch take_batch_def map_loop_def)
    ultimately show ?thesis by (rule from_thread)
  next
    case (ss_functor l f fs)
    have rd: "ready f (in_thread l w)" using sys_okD(3) [OF it(1) [of l], of f l] ss_functor by (simp add: work_def)
    have "flows (in_thread l w) x" by (rule flows_functor [OF laws rd it(2) ss_functor(4)])
    moreover have "older (in_thread l w) x"
      using code_run_sound [OF run_functor_run [OF L(2) ss_functor(4) rd] sys_okD(1) [OF it(1)] L(3)] older_keeps by blast
    ultimately show ?thesis by (rule from_thread)
  next
    case (ss_release l)
    let ?v = "end_batch l (in_thread l w)"
    have v: "flows (in_thread l w) ?v" unfolding end_batch_def by (rule flows_loop [OF it(2)]) simp
    then have iv: "conns_inv ?v" by (simp add: flows_def)
    obtain cs where x: "x = fold (release_one K) cs ?v" using ss_release by (auto simp: release_def)
    have lv: "live ?v = live w" "next_conn ?v = next_conn w" by (simp_all add: end_batch_def in_thread_def map_loop_def)
    have "live x \<subseteq> live ?v" using flows_released [OF iv] x by blast
    then have "flows (in_thread l w) x" using flows_trans [OF v, of x] flows_released [OF iv] x by blast
    moreover have "older (in_thread l w) x" using older_released [of ?v K cs] lv it(4,5) unfolding x older_def by simp
    ultimately show ?thesis by (rule from_thread)
  next
    case (ss_outside t)
    let ?u = "w\<lparr>cur_tid := t\<rparr>"
    have u: "flows w ?u" by (rule flows_thread [OF inv])
    then have "advances ?u x" using advances_api_step [OF ss_outside(3)] L(6) by (simp add: flows_def)
    then have "flows ?u x" by (rule advances_flows)
    moreover have "older w x"
      using code_run_sound [OF api_step_run [OF ss_outside(3)] _ L(3)] sys_okD(1) [OF ok] older_keeps [of False "{}" ?u x]
      by (auto simp: older_def)
    ultimately show ?thesis using flows_trans [OF u] by fastforce
  qed
qed

section \<open>Runs\<close>

lemma initial_conns:
  assumes "initial (ph, w)"
  shows "conns_inv w"
  using assms by (simp add: initial_def conns_inv_def)

lemma reachable_conns:
  assumes "reachable K U s" "stream_laws K U"
  shows "conns_inv (snd s)"
  using assms
proof (induction rule: reachable.induct)
  case (re_start s)
  then show ?case using initial_conns [of "fst s" "snd s"] by simp
next
  case (re_step s s')
  obtain ph w ph' x where s: "s = (ph, w)" "s' = (ph', x)" by (metis surj_pair)
  have "sys_ok (ph, w)" using re_step.hyps(1) reachable_ok stream_lawsD(1) [OF re_step.prems] unfolding s by blast
  from flows_step [OF re_step.prems this _ re_step.hyps(2) [unfolded s]] re_step.IH [OF re_step.prems] show ?case
    by (simp add: s flows_def)
qed

lemma run_flows:
  assumes "(sys_step K U)\<^sup>*\<^sup>* s s'" "reachable K U s" "stream_laws K U"
  shows "flows (snd s) (snd s') \<and> older (snd s) (snd s') \<and> reachable K U s'"
  using assms(1)
proof (induction rule: rtranclp_induct)
  case base
  then show ?case using flows_refl [OF reachable_conns [OF assms(2,3)]] assms(2) by (simp add: older_def)
next
  case (step s1 s2)
  obtain ph v ph' w where s: "s1 = (ph, v)" "s2 = (ph', w)" by (metis surj_pair)
  let ?u = "snd s"
  have IH: "flows ?u v" "older ?u v" "reachable K U (ph, v)" using step.IH by (simp_all add: s)
  have ok: "sys_ok (ph, v)" by (rule reachable_ok [OF IH(3) stream_lawsD(1) [OF assms(3)]])
  have cv: "conns_inv v" using IH(1) by (simp add: flows_def)
  have st: "flows v w" "older v w" using flows_step [OF assms(3) ok cv step.hyps(2) [unfolded s]] by simp_all
  have su: "sound ?u" using sys_okD(1) [of "fst s" ?u] reachable_ok [OF assms(2) stream_lawsD(1) [OF assms(3)]] by simp
  have "live ?u \<inter> live w \<subseteq> live v"
  proof
    fix c assume c: "c \<in> live ?u \<inter> live w"
    then have "c < next_conn ?u" using soundD(1) [OF su] by (simp add: conn_ok_def)
    then show "c \<in> live v" using c IH(2) st(2) by (simp add: older_def)
  qed
  then have "flows ?u w" by (rule flows_trans [OF IH(1) st(1)])
  then show ?case using older_trans [OF IH(2) st(2)] re_step [OF IH(3)] step.hyps(2) by (simp add: s)
qed

lemma visitor_io: "write_law visitor_kernel" "readv_law visitor_kernel"
  using plain_kernel_laws(1,2) [of 4 "[]"] by (simp_all add: visitor_kernel_def write_law_def readv_law_def)

text \<open>
  C2: what a connection sends is only ever added to: between any two moments of the running server, for
  any interleaving, the bytes the kernel took on its descriptor followed by the unsent ones are extended
  at their end, so that nothing sent is lost, repeated or overtaken; no other connection has this descriptor.
\<close>

theorem output_in_order:
  assumes "reachable K U (ph, u)" "system_laws K U" "write_law K" "readv_law K"
    and "(sys_step K U)\<^sup>*\<^sup>* (ph, u) (ph', w)" "c \<in> live u" "c \<in> live w"
  shows "(\<exists>d. stream c w = stream c u @ d) \<and> (\<forall>d \<in> live w. d \<noteq> c \<longrightarrow> conn_fd d w \<noteq> conn_fd c w)"
proof -
  have laws: "stream_laws K U" using assms(2-4) by (simp add: stream_laws_def)
  from run_flows [OF assms(5,1) laws] have "flows u w" by simp
  then show ?thesis using assms(6,7) unfolding flows_def conns_inv_def by blast
qed

theorem output_in_order_witness:
  "\<exists>ph u ph' w c d. (sys_step visitor_kernel (echo_user visitor_kernel))\<^sup>*\<^sup>* (ph, u :: sworld) (ph', w) \<and> live u = {c} \<and> live w = {c}
    \<and> tc_state (conns u c) = kConnecting \<and> tc_state (conns w c) = kConnected \<and> stream c w = stream c u @ d"
proof -
  obtain ph u ph' w c where r: "reachable visitor_kernel (echo_user visitor_kernel) (ph, u :: sworld)"
    "(sys_step visitor_kernel (echo_user visitor_kernel))\<^sup>*\<^sup>* (ph, u) (ph', w)" "live u = {c}" "live w = {c}"
    "tc_state (conns u c) = kConnecting" "tc_state (conns w c) = kConnected"
    using visitor_established by blast
  have l: "write_law visitor_kernel" "readv_law visitor_kernel" by (rule visitor_io)+
  have "c \<in> live u" "c \<in> live w" using r(3,4) by simp_all
  then obtain d where "stream c w = stream c u @ d" using output_in_order [OF r(1) visitor_laws l r(2)] by blast
  then show ?thesis using r by blast
qed

end
