(* ===== verification/Interest.thy ===== *)
theory Interest
  imports Streams
begin

text \<open>
  What the kernel watches of a connection: while it is open, its descriptor for reading and, exactly when
  there are unsent bytes, for writing.
\<close>

section \<open>Open connections are watched\<close>

fun attends :: "StateE \<Rightarrow> Channel \<Rightarrow> bool" where
  "attends kConnecting h \<longleftrightarrow> ch_events h = kNoneEvent"
| "attends kDisconnected h \<longleftrightarrow> True"
| "attends s h \<longleftrightarrow> ch_index h = kAdded \<and> (ch_events h = kReadEvent \<or> ch_events h = kReadEvent OR kWriteEvent)"

definition attentive :: "'z sworld_scheme \<Rightarrow> bool" where
  "attentive w \<longleftrightarrow> (\<forall>c \<in> live w. attends (tc_state (conns w c)) (chans w (ConnChan c)))"

lemma attentive_same:
  assumes "attentive w" "live x \<subseteq> live w" "\<And>c. c \<in> live x \<Longrightarrow> tc_state (conns x c) = tc_state (conns w c)"
    "\<And>c. c \<in> live x \<Longrightarrow> alike (chans w (ConnChan c)) (chans x (ConnChan c))"
  shows "attentive x"
proof -
  have "attends s h = attends s g" if "alike g h" for s g h using that by (cases s) (simp_all add: alike_def)
  then show ?thesis using assms unfolding attentive_def by (metis subsetD)
qed

text \<open>A channel operation on a connection's channel.\<close>

lemma attentive_op:
  assumes at: "attentive w" and op: "channel_op f (ConnChan c) w x" and c: "c \<in> live w"
    and h: "attends (tc_state (conns w c)) (chans x (ConnChan c))"
  shows "attentive x"
proof -
  note W = channel_op_world [OF op]
  have "attends (tc_state (conns x d)) (chans x (ConnChan d))" if "d \<in> live x" for d
    using at h that channel_opD(6) [OF op, of "ConnChan d"] by (cases "d = c") (auto simp: attentive_def W)
  then show ?thesis by (simp add: attentive_def)
qed

lemma read_write_bits:
  "(kReadEvent :: 32 word) OR kWriteEvent \<noteq> kNoneEvent" "(kReadEvent :: 32 word) \<noteq> kNoneEvent"
  "(kReadEvent OR kWriteEvent) OR kWriteEvent = kReadEvent OR kWriteEvent"
  "kReadEvent OR kReadEvent = kReadEvent" "(kReadEvent OR kWriteEvent) OR kReadEvent = kReadEvent OR kWriteEvent"
  "kReadEvent AND NOT kWriteEvent = kReadEvent" "(kReadEvent OR kWriteEvent) AND NOT kWriteEvent = kReadEvent"
  "kNoneEvent OR kReadEvent = kReadEvent"
  by (simp_all add: kReadEvent_def kWriteEvent_def kNoneEvent_def event_bits)

lemma attentive_ops:
  assumes at: "attentive w" and c: "c \<in> live w" "tc_state (conns w c) \<noteq> kConnecting" and sd: "sound w" and law: "epoll_ctl_law K"
  shows "enablewriting K (ConnChan c) w = Inr x \<Longrightarrow> attentive x"
    and "disableWriting K (ConnChan c) w = Inr x \<Longrightarrow> attentive x"
    and "enableReading K (ConnChan c) w = Inr x \<Longrightarrow> attentive x"
proof -
  have pr: "present w (ConnChan c)" using c(1) by simp
  obtain p where p: "serves (ch_loop (chans w (ConnChan c))) (ConnChan c) p w" using present_serves [OF sd pr] by blast
  have h: "attends (tc_state (conns w c)) (chans w (ConnChan c))" using at c(1) by (simp add: attentive_def)
  show "attentive x" if r: "enablewriting K (ConnChan c) w = Inr x"
    by (rule attentive_op [OF at channel_ops(3) [OF r] c(1)])
      (use enable_totals(3) [OF p law] r c(2) h in \<open>cases "tc_state (conns w c)"; auto simp: set_index_def write_on_def read_write_bits\<close>)
  show "attentive x" if r: "disableWriting K (ConnChan c) w = Inr x"
    by (rule attentive_op [OF at channel_ops(4) [OF r] c(1)])
      (use enable_totals(4) [OF p law] r c(2) h in \<open>cases "tc_state (conns w c)"; auto simp: set_index_def write_off_def read_write_bits\<close>)
  show "attentive x" if r: "enableReading K (ConnChan c) w = Inr x"
    by (rule attentive_op [OF at channel_ops(1) [OF r] c(1)])
      (use enable_totals(1) [OF p law] r c(2) h in \<open>cases "tc_state (conns w c)"; auto simp: set_index_def read_on_def read_write_bits\<close>)
qed

lemma attentive_registered:
  assumes r: "registered_conn l f w x" and at: "attentive w" and sd: "sound w"
  shows "attentive x"
proof -
  let ?c = "next_conn w"
  have new: "?c \<notin> live w" by (rule next_conn_new [OF sd])
  have "attends (tc_state (conns x d)) (chans x (ConnChan d))" if "d \<in> live x" for d
    using r at that new by (cases "d = ?c") (auto simp: registered_conn_def attentive_def Channel_ctor_def kNoneEvent_def Let_def)
  then show ?thesis by (simp add: attentive_def)
qed

lemma attends_state: "attends s h \<Longrightarrow> may_state p s s' \<Longrightarrow> attends s' h"
  by auto

lemma attentive_step:
  assumes st: "code_step K rm A w x" and at: "attentive w" and sd: "sound w" and law: "epoll_ctl_law K"
    and A: "\<And>c. c \<in> A \<Longrightarrow> c \<in> live w \<and> tc_state (conns w c) \<noteq> kConnecting"
  shows "attentive x"
  using st
proof cases
  case (cs_conn c f)
  have "attends (tc_state (conns x d)) (chans x (ConnChan d))" if "d \<in> live x" for d
    using at that attends_state cs_conn by (cases "d = c") (auto simp: attentive_def)
  then show ?thesis by (simp add: attentive_def)
next
  case (cs_establish c)
  then show ?thesis using A by blast
next
  case (cs_writing c)
  then show ?thesis using attentive_ops(1) [OF at _ _ sd law] by blast
next
  case (cs_drained c)
  then show ?thesis using attentive_ops(2) [OF at _ _ sd law] A by blast
next
  case (cs_reading c)
  then show ?thesis using attentive_ops(3) [OF at _ _ sd law] A by blast
next
  case (cs_off c)
  then show ?thesis using attentive_op [OF at channel_ops(5)] by fastforce
next
  case (cs_remove c)
  then show ?thesis using attentive_op [OF at Channel_remove_op] by fastforce
next
  case cs_listen
  note op = channel_ops(1) [OF cs_listen]
  show ?thesis by (rule attentive_same [OF at]) (use channel_op_world [OF op] channel_opD(6) [OF op] in simp_all)
next
  case cs_quit
  note t = tworld_more [OF quit_spec(5) [of K _ w]]
  show ?thesis by (rule attentive_same [OF at]) (simp_all add: cs_quit t quit_spec)
next
  case (cs_new f l)
  then show ?thesis using A next_conn_new [OF sd] by blast
next
  case (cs_new_queued f l v)
  have "attentive v" by (rule attentive_registered [OF cs_new_queued(5) at sd])
  then show ?thesis using cs_new_queued by (simp add: attentive_def)
qed (use at in \<open>auto simp: attentive_def sys_close_def\<close>)

lemma attentive_run:
  assumes run: "code_run K rm A u w" and at: "attentive u" and sd: "sound u" and law: "epoll_ctl_law K"
    and A: "\<And>c. c \<in> A \<Longrightarrow> c \<in> live u \<and> tc_state (conns u c) \<noteq> kConnecting"
  shows "attentive w"
proof -
  let ?I = "\<lambda>v. sound v \<and> attentive v \<and> (\<forall>c \<in> A. c \<in> live v \<and> tc_state (conns v c) \<noteq> kConnecting)"
  have "?I w \<and> True"
  proof (rule code_run_rel [where I = ?I and R = "\<lambda>u w. True", OF run])
    show "?I u" using at sd A by blast
    show "?I x \<and> True" if v: "?I v" "code_step K rm A v x" for v x
    proof -
      have k: "keeps rm A v x" "sound x" using code_step_keeps code_step_sound v law by blast+
      have "c \<in> live x \<and> tc_state (conns x c) \<noteq> kConnecting" if "c \<in> A" for c
        using keepsD(1) [OF k(1)] keepsD(4) [OF k(1), of c] v(1) that by (auto simp: conn_keeps_def)
      then show ?thesis using attentive_step [OF v(2) _ _ law] v(1) k(2) by blast
    qed
  qed simp_all
  then show ?thesis by blast
qed

lemma attentive_connectEstablished:
  assumes r: "connectEstablished K U c w = Inr w'" and at: "attentive w" and sd: "sound w"
    and laws: "user_law K U" "epoll_ctl_law K" and c: "c \<in> live w" "tc_state (conns w c) = kConnecting"
  shows "attentive w'"
proof -
  let ?v = "map_chan (ConnChan c) (Channel_tie c) (map_conn c (setState kConnected) w)"
  obtain x where x: "enableReading K (ConnChan c) ?v = Inr x" "call_connection U c x = Inr w'"
    using r by (auto simp: connectEstablished_def Let_def)
  have sv: "sound ?v" by (rule sound_establish [OF sd c(1)])
  have pr: "present ?v (ConnChan c)" using c by simp
  obtain p where "serves (ch_loop (chans ?v (ConnChan c))) (ConnChan c) p ?v" using present_serves [OF sv pr] by blast
  note t = enable_totals(1) [OF this laws(2)] and op = channel_ops(1) [OF x(1)]
  have "ch_events (chans w (ConnChan c)) = kNoneEvent" using at c by (auto simp: attentive_def dest!: bspec [of _ _ c])
  then have h: "attends kConnected (chans x (ConnChan c))"
    using t x(1) by (auto simp: set_index_def read_on_def Channel_tie_def read_write_bits)
  have "attends (tc_state (conns x d)) (chans x (ConnChan d))" if "d \<in> live x" for d
    using h at that channel_opD(6) [OF op, of "ConnChan d"]
    by (cases "d = c") (auto simp: attentive_def channel_op_world [OF op] setState_def)
  then have ax: "attentive x" by (simp add: attentive_def)
  have "code_step K False {c} ?v x" by (rule cs_reading [OF _ _ _ x(1)]) (use c in \<open>simp_all add: setState_def\<close>)
  then have "sound x" by (rule code_step_sound [OF _ sv laws(2)])
  then show ?thesis using attentive_run [OF call_connection_run [OF laws(1) x(2), of False "{}"] ax _ laws(2)] by blast
qed

lemma attentive_newConnection:
  assumes laws: "user_law K U" "epoll_ctl_law K" and sd: "sound w" and sp: "spare_fd f w" and at: "attentive w"
    and r: "newConnection K U f peer w = Inr w'"
  shows "attentive w'"
proof -
  let ?c = "next_conn w"
  obtain l x where x: "l \<in> set (server_loops w)" "registered_conn l f w x" "server_ok (server x)" "?c \<in> live x"
    "tc_state (conns x ?c) = kConnecting"
    "connectEstablished K U ?c x = Inr w' \<or> w' = queueInLoop K l (Bind_connectEstablished ?c) x"
    using newConnection_registers [OF sd r] by blast
  have 1: "attentive x" by (rule attentive_registered [OF x(2) at sd])
  have "code_step K False {?c} w x" by (rule cs_new [OF sp _ x(1-3)]) simp
  then have "sound x" by (rule code_step_sound [OF _ sd laws(2)])
  moreover have "attentive (queueInLoop K l (Bind_connectEstablished ?c) x)" using 1 by (simp add: attentive_def)
  ultimately show ?thesis using x(6) attentive_connectEstablished [OF _ 1 _ laws x(4,5)] by blast
qed

lemma attentive_Acceptor_handleRead:
  assumes laws: "user_law K U" "epoll_ctl_law K" "fresh_law K" and sd: "sound w" and at: "attentive w"
    and r: "Acceptor_handleRead K (run_accept K U) a w = Inr w'"
  shows "attentive w'"
proof (cases "k_accept K (ktrace w) (ac_acceptSocket a)")
  case (Fail e)
  have "code_run K False {} w w'"
    using r Fail by (auto simp: Acceptor_handleRead_def Socket_accept_def sys_accept_def Let_def split: if_splits
        intro!: run_log run_event)
  then show ?thesis by (rule attentive_run [OF _ at sd laws(2)]) blast
next
  case (Ok q)
  obtain f sa where q: "q = (f, sa)" by (cases q)
  let ?v = "record_event (EvAccept (ac_acceptSocket a) (Ok (f, sa))) w"
  have f: "f \<notin> open_fds (ktrace w)" "2 < f" using laws(3) Ok q unfolding fresh_law_def by blast+
  have sp: "spare_fd f ?v" by (rule accepted_spare [OF sd f])
  have "code_step K False {} w ?v" by (rule cs_accept [OF f])
  then have sv: "sound ?v" by (rule code_step_sound [OF _ sd laws(2)])
  have av: "attentive ?v" using at by (simp add: attentive_def)
  show ?thesis
  proof (cases "ac_newConnectionCallback a")
    case None
    then have "w' = sys_close f ?v" using r Ok
      by (auto simp: Acceptor_handleRead_def Socket_accept_def sys_accept_def q Let_def)
    then show ?thesis using av by (simp add: attentive_def sys_close_def)
  next
    case (Some cb)
    then obtain peer where "newConnection K U f peer ?v = Inr w'"
      using r Ok by (cases cb) (auto simp: Acceptor_handleRead_def Socket_accept_def sys_accept_def q Let_def)
    from attentive_newConnection [OF laws(1,2) sv sp av this] show ?thesis .
  qed
qed

lemma attentive_cb:
  fixes w :: "'z sworld_scheme"
  assumes fit: "fit K U ch w" "fit K U ch v" and cb: "cb \<in> callbacks (chans w ch)"
    and r: "run_cb K U cb t v = Inr v'" and at: "attentive v"
  shows "attentive v'"
proof -
  have laws: "user_law K U" "epoll_ctl_law K" "fresh_law K" using fit by (simp_all add: fit_def)
  have sd: "sound v" and ar: "armed ch v" "armed ch w" "sound w" using fit by (simp_all add: fit_def)
  have "bound_ok ch (chans w ch)" by (rule soundD(2) [OF ar(3) armed_present [OF ar(2)]])
  from bound_callbacks [OF this cb] consider
      (wakeup) l where "cb = Bind_EventLoop_handleRead l" | (accept) "cb = Bind_Acceptor_handleRead"
    | (conn) c where "ch = ConnChan c" "cb \<in> {Bind_TcpConnection_handleRead c, Bind_TcpConnection_handleWrite c,
          Bind_TcpConnection_handleClose c, Bind_TcpConnection_handleError c}" by blast
  then show ?thesis
  proof cases
    case wakeup
    then have "v' = EventLoop_handleRead K l v" using r by simp
    then show ?thesis using at by (auto simp: attentive_def EventLoop_handleRead_def sys_read_def Let_def)
  next
    case accept
    then have "Acceptor_handleRead K (run_accept K U) (sv_acceptor (server v)) v = Inr v'" using r by simp
    then show ?thesis by (rule attentive_Acceptor_handleRead [OF laws sd at])
  next
    case conn
    then have c: "c \<in> live v" "tc_state (conns v c) \<noteq> kConnecting" "ch_index (chans v (ConnChan c)) \<noteq> kNew" "c \<in> {c}"
      using ar by simp_all
    from conn(2) have "code_run K False {c} v v'"
    proof (elim insertE emptyE)
      assume "cb = Bind_TcpConnection_handleRead c"
      then show ?thesis using r handleRead_run [OF laws(1,2) sd _ c] by simp
    next
      assume "cb = Bind_TcpConnection_handleWrite c"
      then show ?thesis using r handleWrite_run [OF _ c(1,3,4)] by simp
    next
      assume "cb = Bind_TcpConnection_handleClose c"
      then show ?thesis using r handleClose_run [OF laws(1,2) sd _ c] by simp
    next
      assume "cb = Bind_TcpConnection_handleError c"
      then show ?thesis using r handleError_run [OF cr_done] by auto
    qed
    then show ?thesis by (rule attentive_run [OF _ at sd laws(2)]) (use c in blast)
  qed
qed

lemma attentive_handleEvent:
  fixes w :: "'z sworld_scheme"
  assumes fit: "fit K U ch w" and at: "attentive w" and r: "handleEvent K alive (run_cb K U) t ch w = Inr w'"
  shows "attentive w'"
proof -
  define R where "R u v \<longleftrightarrow> (attentive u \<longrightarrow> attentive v)" for u v :: "'z sworld_scheme"
  have "R w w' \<and> fit K U ch w'"
  proof (rule cr.dispatch_rel [OF r fit])
    show "R v v" "R u v \<Longrightarrow> R v x \<Longrightarrow> R u x" for u v x unfolding R_def by blast+
    show "R w (LOG K lv fmt args w)" for lv fmt args by (simp add: R_def attentive_def)
    show "R v v'" if "fit K U ch v" "cb \<in> set (selected (chans w ch))" "run_cb K U cb t v = Inr v'" for cb v v'
      unfolding R_def using attentive_cb [OF fit that(1) _ that(3)] selected_callbacks [OF that(2)] by blast
  qed
  then show ?thesis using at by (simp add: R_def)
qed

lemma attentive_functor:
  assumes laws: "user_law K U" "epoll_ctl_law K" and sd: "sound w" and rd: "ready f w" and at: "attentive w"
    and r: "run_functor K U f w = Inr w'"
  shows "attentive w'"
proof (cases "\<exists>c. f = Bind_connectEstablished c")
  case True
  then show ?thesis using attentive_connectEstablished [OF _ at sd laws] rd r by auto
next
  case False
  have "c \<in> live w \<and> tc_state (conns w c) \<noteq> kConnecting" if "c \<in> functor_for f" for c
    using that rd False by (cases f) auto
  then show ?thesis by (rule attentive_run [OF run_functor_run [OF laws(1) r rd] at sd laws(2)])
qed

section \<open>In every reachable configuration\<close>

lemma attentive_release_one: "attentive w \<Longrightarrow> attentive (release_one K c w)"
  by (auto simp: attentive_def release_one_def dtor_world)

lemma attentive_released: "attentive w \<Longrightarrow> attentive (fold (release_one K) cs w)"
  by (induction cs arbitrary: w) (simp_all add: attentive_release_one)

lemma attentive_sys_step:
  fixes w x :: "'z sworld_scheme"
  assumes laws: "system_laws K U" and ok: "sys_ok (ph, w)" and at: "attentive w" and st: "sys_step K U (ph, w) (ph', x)"
  shows "attentive x"
proof -
  have L: "user_law K U" "epoll_ctl_law K" "fresh_law K" "epoll_wait_law K" using laws by (simp_all add: system_laws_def)
  have it: "sys_ok (ph, in_thread l w)" "attentive (in_thread l w)" for l
    using ok at by (simp_all add: in_thread_def attentive_def)
  from st show ?thesis
  proof cases
    case (ss_poll l p t active p' z)
    note ok' = it(1) [of l]
    have p: "el_poller (loops (in_thread l w) l) = Some p" using ss_poll by (simp add: in_thread_def)
    have "poller_inv p (in_thread l w)" using sys_okD(1) [OF ok'] p by (auto simp: sound_def regs_def)
    note ap = poll_after(1) [OF this L(4) p ss_poll(7)]
    show ?thesis by (rule attentive_same [OF it(2) [of l]]) (use ap ss_poll in \<open>simp_all add: after_poll_def\<close>)
  next
    case (ss_event l ch chs)
    have e: "ch \<in> set (events (ph l))" using ss_event by simp
    have fit: "fit K U ch (in_thread l w)" using L sys_okD(1,5) [OF it(1) [of l]] e by (simp add: fit_def)
    show ?thesis by (rule attentive_handleEvent [OF fit it(2) ss_event(4)])
  next
    case (ss_batch l)
    then show ?thesis using at by (simp add: attentive_def take_batch_def in_thread_def map_loop_def)
  next
    case (ss_functor l f fs)
    have rd: "ready f (in_thread l w)" using sys_okD(3) [OF it(1) [of l], of f l] ss_functor by (simp add: work_def)
    show ?thesis by (rule attentive_functor [OF L(1,2) sys_okD(1) [OF it(1)] rd it(2) ss_functor(4)])
  next
    case (ss_release l)
    have "attentive (end_batch l (in_thread l w))" using it(2) [of l] by (simp add: attentive_def end_batch_def map_loop_def)
    then show ?thesis using attentive_released ss_release by (auto simp: release_def)
  next
    case (ss_outside t)
    have "sound (w\<lparr>cur_tid := t\<rparr>)" "attentive (w\<lparr>cur_tid := t\<rparr>)" using sys_okD(1) [OF ok] at by (simp_all add: attentive_def)
    then show ?thesis using attentive_run [OF api_step_run [OF ss_outside(3), of False "{}"] _ _ L(2)] by blast
  qed
qed

lemma reachable_attentive:
  assumes "reachable K U s" "system_laws K U"
  shows "attentive (snd s)"
  using assms
proof (induction rule: reachable.induct)
  case (re_start s)
  then show ?case by (cases s) (simp add: initial_def attentive_def)
next
  case (re_step s s')
  obtain ph w ph' x where s: "s = (ph, w)" "s' = (ph', x)" by (metis surj_pair)
  have "sys_ok (ph, w)" using reachable_ok [OF re_step.hyps(1) re_step.prems] by (simp add: s)
  from attentive_sys_step [OF re_step.prems this _ re_step.hyps(2) [unfolded s]] re_step.IH [OF re_step.prems] show ?case
    by (simp add: s)
qed

text \<open>
  C5: an open connection is never forgotten: in every reachable configuration the poller of its own loop
  watches its descriptor, in the kernel and with the connection's channel, for reading, and for writing
  exactly when it has unsent bytes.
\<close>

theorem open_watched:
  assumes "reachable K U (ph, w)" "system_laws K U" "write_law K" "readv_law K"
    and "c \<in> live w" "tc_state (conns w c) \<in> {kConnected, kDisconnecting}"
  shows "\<exists>p. el_poller (loops w (tc_loop (conns w c))) = Some p
    \<and> interest (pl_epollfd p) (ktrace w) (conn_fd c w)
      = Some \<lparr>ev_events = (if pending c w = [] then kReadEvent else kReadEvent OR kWriteEvent), ev_ptr = Some (ConnChan c)\<rparr>"
proof -
  let ?h = "chans w (ConnChan c)" and ?l = "tc_loop (conns w c)"
  have sd: "sound w" by (rule sys_okD(1) [OF reachable_ok [OF assms(1,2)]])
  have ok: "conn_ok c w" by (rule soundD(1) [OF sd assms(5)])
  have "stream_laws K U" using assms(2-4) by (simp add: stream_laws_def)
  then have inv: "conn_inv c w" using reachable_conns [OF assms(1)] assms(5) by (simp add: conns_inv_def)
  have "attends (tc_state (conns w c)) ?h" using reachable_attentive [OF assms(1,2)] assms(5) by (simp add: attentive_def)
  then have h: "ch_index ?h = kAdded" "ch_events ?h = kReadEvent \<or> ch_events ?h = kReadEvent OR kWriteEvent"
    using assms(6) by auto
  have "isWriting ?h \<longleftrightarrow> pending c w \<noteq> []" using inv assms(6) by (auto simp: conn_inv_def)
  then have ev: "ch_events ?h = (if pending c w = [] then kReadEvent else kReadEvent OR kWriteEvent)"
    using h(2) by (auto simp: isWriting_def has_bits_def kReadEvent_def kWriteEvent_def event_bits split: if_splits)
  have "?l \<in> set (server_loops w)" using ok by (simp add: conn_ok_def)
  from server_poller [OF sd this] obtain p where p: "el_poller (loops w ?l) = Some p" "pl_owner p = ?l" "poller_inv p w" by blast
  have "pl_channels p (ch_fd ?h) = Some (ConnChan c)"
    using poller_inv_back [OF p(3), of "ConnChan c"] p(2) h(1) ok by (simp add: conn_ok_def index_defs)
  then have "expected_interest p w (conn_fd c w) = Some \<lparr>ev_events = ch_events ?h, ev_ptr = Some (ConnChan c)\<rparr>"
    using h(1) by (simp add: expected_interest_def conn_fd_def)
  then show ?thesis using p(1,3) unfolding ev poller_inv_def by auto
qed

theorem open_watched_witness:
  "\<exists>ph w c p. reachable visitor_kernel (echo_user visitor_kernel) (ph, w :: sworld) \<and> live w = {c} \<and> tc_state (conns w c) = kConnected
    \<and> el_poller (loops w (tc_loop (conns w c))) = Some p
    \<and> interest (pl_epollfd p) (ktrace w) (conn_fd c w)
      = Some \<lparr>ev_events = (if pending c w = [] then kReadEvent else kReadEvent OR kWriteEvent), ev_ptr = Some (ConnChan c)\<rparr>"
proof -
  obtain ph u ph' w c where r: "reachable visitor_kernel (echo_user visitor_kernel) (ph, u :: sworld)"
    "(sys_step visitor_kernel (echo_user visitor_kernel))\<^sup>*\<^sup>* (ph, u) (ph', w)" "live w = {c}" "tc_state (conns w c) = kConnected"
    using visitor_established by blast
  have "stream_laws visitor_kernel (echo_user visitor_kernel)" using visitor_laws visitor_io by (simp add: stream_laws_def)
  with run_flows [OF r(2,1)] have x: "reachable visitor_kernel (echo_user visitor_kernel) (ph', w)" by blast
  have "c \<in> live w" "tc_state (conns w c) \<in> {kConnected, kDisconnecting}" using r(3,4) by simp_all
  from open_watched [OF x visitor_laws visitor_io this] show ?thesis using x r(3,4) by blast
qed

end
