(* ===== verification/Progress.thy ===== *)
theory Progress
  imports Interest
begin

text \<open>
  What can go wrong while the server runs, and that nothing else can: every step of a loop is possible
  unless user code, a callback the program never set or a limit of the machine stops it.
\<close>

section \<open>Errors of the handlers\<close>

text \<open>Some callback of the user fails with \<open>e\<close>.\<close>

definition user_fails :: "'z sworld_scheme user \<Rightarrow> err \<Rightarrow> bool" where
  "user_fails U e \<longleftrightarrow> (\<exists>u c w. u_connection U u c w = Inl e) \<or> (\<exists>u c t w. u_message U u c t w = Inl e)
     \<or> (\<exists>u c w. u_writeComplete U u c w = Inl e) \<or> (\<exists>u c n w. u_highWaterMark U u c n w = Inl e)
     \<or> (\<exists>u w. u_functor U u w = Inl e)"

text \<open>The errors the library lets happen: those of the user, an empty callback, the limits of a vector and of an \<^verbatim>\<open>int\<close>.\<close>

definition tolerated :: "'z sworld_scheme user \<Rightarrow> err \<Rightarrow> bool" where
  "tolerated U e \<longleftrightarrow> user_fails U e \<or> e \<in> {Bad_function_call, Length_error, Signed_overflow}"

lemma user_errors:
  "u_connection U u c w = Inl e \<Longrightarrow> tolerated U e" "u_message U u c t w = Inl e \<Longrightarrow> tolerated U e"
  "u_writeComplete U u c w = Inl e \<Longrightarrow> tolerated U e" "u_highWaterMark U u c n w = Inl e \<Longrightarrow> tolerated U e"
  "u_functor U u w = Inl e \<Longrightarrow> tolerated U e"
  unfolding tolerated_def user_fails_def by blast+

lemma call_connection_error: "call_connection U c w = Inl e \<Longrightarrow> tolerated U e"
  by (auto simp: call_connection_def tolerated_def user_fails_def split: option.splits)

lemma handleClose_error:
  assumes laws: "user_law K U" "epoll_ctl_law K" and sd: "sound w" and r: "handleClose K U (run_close K U) c w = Inl e"
    and c: "c \<in> live w" "tc_state (conns w c) \<noteq> kConnecting" "ch_index (chans w (ConnChan c)) \<noteq> kNew"
  shows "tolerated U e"
proof -
  let ?u = "LOG K INFO ''fd=%d state=%d \<newline>''
      [AInt (ch_fd (chans w (ConnChan c))), AInt (StateE_num (tc_state (conns w c)))] w"
  let ?v = "map_conn c (setState kDisconnected) ?u"
  have v: "code_run K False {c} w ?v"
    by (rule run_conn) (use c in \<open>auto simp: setState_def keeps_role_def\<close>)
  then have sv: "sound ?v" using code_run_sound [OF v sd laws(2)] by blast
  have st: "c \<in> live ?v" "tc_state (conns ?v c) = kDisconnected" using c(1) by (simp_all add: setState_def)
  have "present ?v (ConnChan c)" using c(1) by simp
  then obtain p where "serves (ch_loop (chans ?v (ConnChan c))) (ConnChan c) p ?v" using present_serves [OF sv] by blast
  from enable_totals(5) [OF this laws(2)] obtain x where x: "disableAll K (ConnChan c) ?v = Inr x" by blast
  have res: "bindE (call_connection U c x) (\<lambda>y. case tc_closeCallback (conns y c) of
      None \<Rightarrow> Inl Bad_function_call | Some cb \<Rightarrow> run_close K U cb c y) = Inl e"
    using r x by (simp add: handleClose_def Let_def)
  show ?thesis
  proof (cases "call_connection U c x")
    case (Inl e')
    then show ?thesis using res call_connection_error by auto
  next
    case (Inr y)
    have "(case tc_closeCallback (conns y c) of None \<Rightarrow> Inl Bad_function_call | Some cb \<Rightarrow> run_close K U cb c y) = Inl e"
      using res Inr by simp
    moreover have "run_close K U cb c y \<noteq> Inl e" for cb
      by (cases cb) (simp add: removeConnection_def runInLoop_def)
    ultimately have "e = Bad_function_call" by (auto split: option.splits)
    then show ?thesis by (simp add: tolerated_def)
  qed
qed

lemma handleRead_error:
  assumes laws: "user_law K U" "epoll_ctl_law K" "readv_law K" and sd: "sound w"
    and r: "handleRead K U (run_close K U) c t w = Inl e" and bi: "Buffer_inv (tc_inputBuffer (conns w c))"
    and c: "c \<in> live w" "tc_state (conns w c) \<noteq> kConnecting" "ch_index (chans w (ConnChan c)) \<noteq> kNew"
  shows "tolerated U e"
proof (cases "readFd K (ch_fd (chans w (ConnChan c))) (tc_inputBuffer (conns w c)) w")
  case (Inl e')
  then show ?thesis using r readFd_error [OF bi laws(3) Inl] by (simp add: handleRead_def tolerated_def)
next
  case (Inr q)
  obtain n err b v where q: "q = (n, err, b, v)" by (cases q)
  have rd: "readFd K (ch_fd (chans w (ConnChan c))) (tc_inputBuffer (conns w c)) w = Inr (n, err, b, v)" using Inr q by simp
  obtain a where v: "v = record_event (EvReadv (ch_fd (chans w (ConnChan c))) (readFd_iov (tc_inputBuffer (conns w c))) a) w"
    using readFd_world [OF rd] by blast
  let ?x = "map_conn c (\<lambda>t. t\<lparr>tc_inputBuffer := b\<rparr>) v"
  have x: "code_run K False {c} w ?x" unfolding v
    by (rule run_conn [OF run_event]) (use c in \<open>auto simp: keeps_role_def\<close>)
  have sx: "sound ?x" using code_run_sound [OF x sd laws(2)] by blast
  have res: "(if 0 < n
        then (case tc_messageCallback (conns ?x c) of
                None \<Rightarrow> Inl Bad_function_call | Some u \<Rightarrow> u_message U u c t ?x)
        else if n = 0 then handleClose K U (run_close K U) c ?x
        else Inr (handleError K c (LOG K ERROR ''TcpConnection::handleRead'' [] ?x))) = Inl e"
    using r rd by (simp add: handleRead_def Let_def)
  have "(\<exists>u. u_message U u c t ?x = Inl e) \<or> e = Bad_function_call \<or> handleClose K U (run_close K U) c ?x = Inl e"
    using res by (cases "0 < n"; cases "n = 0"; cases "tc_messageCallback (conns ?x c)") auto
  moreover have "tolerated U e" if "handleClose K U (run_close K U) c ?x = Inl e"
    by (rule handleClose_error [OF laws(1,2) sx that]) (use c in \<open>simp_all add: v\<close>)
  ultimately show ?thesis by (auto simp: tolerated_def user_fails_def)
qed

lemma connectEstablished_error:
  assumes "sound w" "epoll_ctl_law K" "c \<in> live w" "connectEstablished K U c w = Inl e"
  shows "tolerated U e"
  using established_error [OF assms] call_connection_error by blast

lemma newConnection_error:
  assumes laws: "user_law K U" "epoll_ctl_law K" and sd: "sound w" and sp: "spare_fd f w"
    and r: "newConnection K U f peer w = Inl e"
  shows "tolerated U e"
proof -
  let ?c = "next_conn w"
  have ok: "server_ok (server w)" and base: "tp_baseLoop (sv_threadPool (server w)) = sv_loop (server w)"
    using soundD(3) [OF sd] by (simp_all add: table_ok_def)
  show ?thesis
  proof (cases "sv_nextConnId (server w) < INT_MAX")
    case False
    have pool: "pool_inv (sv_threadPool (server w))" using ok by (simp add: server_ok_def)
    obtain l q where "getNextLoop (sv_threadPool (server w)) = Inr (l, q)" using getNextLoop_total [OF pool] by blast
    then show ?thesis using r False by (simp add: newConnection_def incr_int_def tolerated_def)
  next
    case True
    obtain l x where x: "l \<in> set (server_loops w)" "registered_conn l f w x" "server_ok (server x)"
      "newConnection K U f peer w = runInLoop K (run_functor K U) l (Bind_connectEstablished ?c) x"
      using newConnection_shape [where K = K and U = U and f = f and peer = peer, OF sd True] by blast
    have e: "connectEstablished K U ?c x = Inl e" using r x(4) by (auto simp: runInLoop_def split: if_splits)
    have "code_step K False {?c} w x" by (rule cs_new [OF sp _ x(1-3)]) simp
    then have "sound x" by (rule code_step_sound [OF _ sd laws(2)])
    moreover have "?c \<in> live x" using x(2) by (auto simp: registered_conn_def Let_def)
    ultimately show ?thesis using connectEstablished_error [OF _ laws(2) _ e] by blast
  qed
qed

lemma cb_error:
  fixes w :: "'z sworld_scheme"
  assumes laws: "stream_laws K U" and fit: "fit K U ch w" "fit K U ch v" and cb: "cb \<in> callbacks (chans w ch)"
    and r: "run_cb K U cb t v = Inl e" and inv: "conns_inv v"
  shows "tolerated U e"
proof -
  note L = stream_lawsD [OF laws]
  have sd: "sound v" and ar: "armed ch v" "armed ch w" "sound w" using fit by (simp_all add: fit_def)
  have "bound_ok ch (chans w ch)" by (rule soundD(2) [OF ar(3) armed_present [OF ar(2)]])
  from bound_callbacks [OF this cb] consider
      (wakeup) l where "cb = Bind_EventLoop_handleRead l" | (accept) "cb = Bind_Acceptor_handleRead"
    | (conn) c where "ch = ConnChan c" "cb \<in> {Bind_TcpConnection_handleRead c, Bind_TcpConnection_handleWrite c,
          Bind_TcpConnection_handleClose c, Bind_TcpConnection_handleError c}" by blast
  then show ?thesis
  proof cases
    case wakeup
    then show ?thesis using r by simp
  next
    case accept
    let ?a = "sv_acceptor (server v)"
    have r': "Acceptor_handleRead K (run_accept K U) ?a v = Inl e" using r accept by simp
    then obtain f sa where f: "k_accept K (ktrace v) (ac_acceptSocket ?a) = Ok (f, sa)"
      by (cases "k_accept K (ktrace v) (ac_acceptSocket ?a)")
        (auto simp: Acceptor_handleRead_def Socket_accept_def sys_accept_def Let_def)
    let ?x = "record_event (EvAccept (ac_acceptSocket ?a) (Ok (f, sa))) v"
    obtain cb' peer where "run_accept K U cb' f peer ?x = Inl e"
      using r' f by (auto simp: Acceptor_handleRead_def Socket_accept_def sys_accept_def Let_def split: option.splits)
    then have n: "newConnection K U f peer ?x = Inl e" by (cases cb') simp
    have new: "f \<notin> open_fds (ktrace v)" "2 < f" using L(4) f unfolding fresh_law_def by blast+
    have "code_step K False {} v ?x" by (rule cs_accept [OF new])
    then have "sound ?x" by (rule code_step_sound [OF _ sd L(3)])
    from newConnection_error [OF L(2,3) this accepted_spare [OF sd new] n] show ?thesis .
  next
    case conn
    then have c: "c \<in> live v" "tc_state (conns v c) \<noteq> kConnecting" "ch_index (chans v (ConnChan c)) \<noteq> kNew"
      using ar by simp_all
    have ci: "conn_inv c v" by (rule conns_invD(1) [OF inv c(1)])
    then have bi: "Buffer_inv (tc_inputBuffer (conns v c))" by (simp add: conn_inv_def)
    have "present v (ConnChan c)" using c(1) by simp
    then obtain p where ser: "serves (ch_loop (chans v (ConnChan c))) (ConnChan c) p v" using present_serves [OF sd] by blast
    from conn(2) show ?thesis
    proof (elim insertE emptyE)
      assume "cb = Bind_TcpConnection_handleRead c"
      then show ?thesis using r handleRead_error [OF L(2,3,7) sd _ bi c] by simp
    next
      assume "cb = Bind_TcpConnection_handleWrite c"
      then show ?thesis using r handleWrite_total [OF ser L(3) ci L(6)] by auto
    next
      assume "cb = Bind_TcpConnection_handleClose c"
      then show ?thesis using r handleClose_error [OF L(2,3) sd _ c] by simp
    next
      assume "cb = Bind_TcpConnection_handleError c"
      then show ?thesis using r by simp
    qed
  qed
qed

lemma event_error:
  fixes w :: "'z sworld_scheme"
  assumes laws: "stream_laws K U" and fit: "fit K U ch w" and inv: "conns_inv w"
    and r: "foldE (\<lambda>cb. run_cb K U cb t) (selected (chans w ch)) w = Inl e"
  shows "tolerated U e"
proof -
  let ?P = "\<lambda>v. fit K U ch v \<and> same_dispatch (chans w ch) (chans v ch) \<and> conns_inv v"
  have start: "?P w" using fit inv by simp
  have keep: "?P v'" if "cb \<in> set (selected (chans w ch))" "?P v" "run_cb K U cb t v = Inr v'" for cb v v'
  proof -
    have cb: "cb \<in> callbacks (chans w ch)" using selected_callbacks that(1) by blast
    moreover have "callbacks (chans v ch) = callbacks (chans w ch)" using that(2) same_dispatch_callbacks by blast
    ultimately have "cb \<in> callbacks (chans v ch)" by simp
    then have "fit K U ch v' \<and> same_dispatch (chans v ch) (chans v' ch)" using cr.run_same [OF _ _ that(3)] that(2) by blast
    moreover have "advances v v'" using advances_cb [OF laws fit _ cb that(3)] that(2) by blast
    ultimately show ?thesis using that(2) same_dispatch_trans advances_inv by blast
  qed
  have err: "tolerated U e" if "cb \<in> set (selected (chans w ch))" "?P v" "run_cb K U cb t v = Inl e" for cb v
    using cb_error [OF laws fit _ _ that(3)] selected_callbacks [OF that(1)] that(2) by blast
  show ?thesis by (rule foldE_error [OF r, of ?P, OF start keep err])
qed

lemma event_progress:
  assumes "reachable K U (ph, w)" "stream_laws K U" "ph l = Dispatching (ch # chs)"
    and r: "handleEvent K alive (run_cb K U) t ch (in_thread l w) = Inl e"
  shows "tolerated U e"
proof -
  note L = stream_lawsD [OF assms(2)]
  let ?v = "LOG K INFO ''Channel handleEvent revents : %d\<newline>'' [AInt (sint (ch_revents (chans w ch)))] (in_thread l w)"
  have ok: "sys_ok (ph, in_thread l w)" using reachable_ok [OF assms(1) L(1)] by (simp add: in_thread_def)
  have e: "ch \<in> set (events (ph l))" using assms(3) by simp
  have "fit K U ch (in_thread l w)" using L sys_okD(1,5) [OF ok] e by (simp add: fit_def)
  then have fit: "fit K U ch ?v" by (rule cr.fit_log)
  have "conns_inv w" using reachable_conns [OF assms(1,2)] by simp
  then have "conns_inv (in_thread l w)" using flows_thread by (auto simp: in_thread_def flows_def)
  then have inv: "conns_inv ?v" using advances_inv [OF advances_LOG] by blast
  have "foldE (\<lambda>cb. run_cb K U cb t) (selected (chans ?v ch)) ?v = Inl e"
    using r handled_in_order [OF assms(1) L(1) assms(3)] by (simp add: in_thread_def)
  then show ?thesis by (rule event_error [OF assms(2) fit inv])
qed

section \<open>Every loop moves on\<close>

lemma poll_progress:
  assumes r: "reachable K U (ph, w)" and laws: "system_laws K U" and l: "l \<in> set (server_loops w)" "ph l = Polling" "\<not> el_quit (loops w l)"
  shows "\<exists>active x. sys_step K U (ph, w) (ph(l := Dispatching active), x)"
proof -
  have ok: "sys_ok (ph, in_thread l w)" using reachable_ok [OF r laws] by (simp add: in_thread_def)
  have "l \<in> set (server_loops (in_thread l w))" using l(1) by (simp add: in_thread_def)
  from server_poller [OF sys_okD(1) [OF ok] this] obtain p where p: "el_poller (loops w l) = Some p" "poller_inv p (in_thread l w)"
    by (auto simp: in_thread_def)
  let ?u = "map_loop l (\<lambda>e. e\<lparr>el_activeChannels := []\<rparr>) (in_thread l w)"
  have iu: "poller_inv p ?u" by (rule poller_inv_same [OF p(2)]) simp_all
  have ew: "epoll_wait_law K" using laws by (simp add: system_laws_def)
  obtain t active p' z where "EPollPoller_poll K kPollTimeMs p ?u = Inr (t, active, p', z)"
    using poll_spec [OF iu ew, of kPollTimeMs] by blast
  from ss_poll [where K = K and U = U and ph = ph and l = l, OF l p(1) this] show ?thesis by blast
qed

text \<open>
  C8: nothing in the library can stop a loop: in every reachable configuration each loop of the server can
  take its next step, or has been told to quit, or its next event or functor fails with an error of the
  user's code, an empty callback, \<^verbatim>\<open>std::length_error\<close> or the overflow of the connection number; only a
  functor bound to a raw pointer and the \<^verbatim>\<open>listen\<close> of the start can fail otherwise.
\<close>

theorem loop_progress:
  assumes "reachable K U (ph, w)" "system_laws K U" "write_law K" "readv_law K" "l \<in> set (server_loops w)"
  shows "(ph l = Polling \<and> el_quit (loops w l))
    \<or> (\<exists>p x. p \<noteq> ph l \<and> sys_step K U (ph, w) (ph(l := p), x))
    \<or> (\<exists>ch chs e. ph l = Dispatching (ch # chs)
        \<and> handleEvent K alive (run_cb K U) (el_pollReturnTime (loops w l)) ch (in_thread l w) = Inl e \<and> tolerated U e)
    \<or> (\<exists>f fs e. ph l = Calling (f # fs) \<and> run_functor K U f (in_thread l w) = Inl e
        \<and> (tolerated U e \<or> functor_raw f \<noteq> None \<or> f = Bind_Acceptor_listen))"
proof (cases "ph l")
  case Polling
  then show ?thesis using poll_progress [OF assms(1,2,5)] by (metis phase.distinct(1))
next
  case d: (Dispatching chs)
  show ?thesis
  proof (cases chs)
    case Nil
    then show ?thesis using ss_batch [OF assms(5)] d by (metis phase.distinct(5))
  next
    case (Cons ch chs')
    have laws: "stream_laws K U" using assms(2-4) by (simp add: stream_laws_def)
    have p: "ph l = Dispatching (ch # chs')" using d Cons by simp
    show ?thesis
    proof (cases "handleEvent K alive (run_cb K U) (el_pollReturnTime (loops w l)) ch (in_thread l w)")
      case (Inl e)
      then show ?thesis using event_progress [OF assms(1) laws p Inl] p by blast
    next
      case (Inr x)
      have "sys_step K U (ph, w) (ph(l := Dispatching chs'), x)" by (rule ss_event [where l = l and ph = ph, OF assms(5) p Inr])
      moreover have "Dispatching chs' \<noteq> ph l" by (simp add: p)
      ultimately show ?thesis by blast
    qed
  qed
next
  case c: (Calling fs)
  show ?thesis
  proof (cases fs)
    case Nil
    obtain x where "release K (el_functors (loops w l)) (end_batch l (in_thread l w)) = Inr x" by (auto simp: release_def)
    from ss_release [where l = l and ph = ph, OF assms(5) _ this] c Nil have "sys_step K U (ph, w) (ph(l := Polling), x)" by blast
    moreover have "Polling \<noteq> ph l" by (simp add: c)
    ultimately show ?thesis by blast
  next
    case (Cons f fs')
    show ?thesis
    proof (cases "run_functor K U f (in_thread l w)")
      case (Inl e)
      have "ph l = Calling (f # fs')" by (simp add: c Cons)
      from functor_errors [OF assms(1,2) this Inl]
      have "tolerated U e \<or> functor_raw f \<noteq> None \<or> f = Bind_Acceptor_listen"
        by (elim disjE exE conjE) (blast intro: call_connection_error user_errors)+
      then show ?thesis using Inl c Cons by blast
    next
      case (Inr x)
      have "sys_step K U (ph, w) (ph(l := Calling fs'), x)"
        by (rule ss_functor [where l = l and ph = ph and f = f, OF assms(5) _ Inr]) (simp add: c Cons)
      moreover have "Calling fs' \<noteq> ph l" by (simp add: c Cons)
      ultimately show ?thesis by blast
    qed
  qed
qed

theorem loop_progress_witness:
  "\<exists>ph w c l p x. reachable visitor_kernel (echo_user visitor_kernel) (ph, w :: sworld)
    \<and> el_pendingFunctors (loops w l) = [Bind_connectEstablished c] \<and> p \<noteq> ph l
    \<and> sys_step visitor_kernel (echo_user visitor_kernel) (ph, w) (ph(l := p), x)"
proof -
  obtain ph w c l where w: "reachable visitor_kernel (echo_user visitor_kernel) (ph, w :: sworld)" "l \<in> set (server_loops w)"
    "ph l = Polling" "el_pendingFunctors (loops w l) = [Bind_connectEstablished c]" "\<not> el_quit (loops w l)"
    using visitor_connects by blast
  have "\<exists>p x. p \<noteq> ph l \<and> sys_step visitor_kernel (echo_user visitor_kernel) (ph, w) (ph(l := p), x)"
    using loop_progress [OF w(1) visitor_laws visitor_io w(2)] w(3,5) by simp
  then show ?thesis using w(1,4) by blast
qed

end
