(* ===== verification/Teardown.thy ===== *)
theory Teardown
  imports Progress
begin

text \<open>
  The end of a server: its destructor hands every connection over to the connection's own loop.
\<close>

section \<open>Destroying the connections\<close>

text \<open>One connection whose loop belongs to another thread: its destruction is queued there, with a wakeup.\<close>

lemma destroy_one_queues:
  fixes k :: string
  assumes "\<not> isInLoopThread (tc_loop (conns w c)) w" "tc_loop (conns w c) \<in> set (server_loops w)"
  defines "v \<equiv> map_server (\<lambda>s. s\<lparr>sv_connections := erase k (sv_connections s)\<rparr>) w"
  shows "destroy_one K U (k, c) w = Inr (queueInLoop K (tc_loop (conns w c)) (Bind_connectDestroyed c) v)"
proof -
  let ?x = "queueInLoop K (tc_loop (conns w c)) (Bind_connectDestroyed c) v"
  have "referenced c ?x"
    by (rule held_queue [where f = "Bind_connectDestroyed c" and l = "tc_loop (conns w c)"])
      (use assms(2) in \<open>simp_all add: v_def queueInLoop_spec(1) server_loops_def\<close>)
  then have "release_one K c ?x = ?x" by (simp add: release_one_def)
  moreover have "\<not> isInLoopThread (tc_loop (conns v c)) v" using assms(1) by (simp add: v_def isInLoopThread_def)
  ultimately show ?thesis by (simp add: destroy_one_def runInLoop_def flip: v_def) (simp add: v_def)
qed

lemma signalled_write: "signalled f (tr @ [EvWrite g d r]) \<longleftrightarrow> g = f \<or> signalled f tr"
  by (simp add: signalled_def)

lemma queue_woken:
  assumes "\<not> isInLoopThread l w"
  shows "woken k (queueInLoop K l f w) \<longleftrightarrow> el_wakeupFd (loops w l) = el_wakeupFd (loops w k) \<or> woken k w"
proof -
  obtain r where "ktrace (queueInLoop K l f w) = ktrace w @ [EvWrite (el_wakeupFd (loops w l)) uint64_one r]"
    using queueInLoop_spec(6) [where K = K and l = l and cb = f and w = w] assms by auto
  then show ?thesis by (simp add: woken_def signalled_write queueInLoop_spec(1))
qed

definition destroyed_on :: "loop_id \<Rightarrow> (string \<times> conn_id) list \<Rightarrow> 'z sworld_scheme \<Rightarrow> Functor list" where
  "destroyed_on l xs w = map (\<lambda>x. Bind_connectDestroyed (snd x)) (filter (\<lambda>x. tc_loop (conns w (snd x)) = l) xs)"

lemma destroy_all:
  assumes "\<forall>x \<in> set xs. \<not> isInLoopThread (tc_loop (conns w (snd x))) w \<and> tc_loop (conns w (snd x)) \<in> set (server_loops w)"
  shows "\<exists>w'. foldE (destroy_one K U) xs w = Inr w' \<and> live w' = live w \<and> conns w' = conns w
    \<and> sv_connections (server w') = filter (\<lambda>x. fst x \<notin> fst ` set xs) (sv_connections (server w))
    \<and> (\<forall>l. el_pendingFunctors (loops w' l) = el_pendingFunctors (loops w l) @ destroyed_on l xs w)
    \<and> (\<forall>l. woken l w \<or> destroyed_on l xs w \<noteq> [] \<longrightarrow> woken l w')"
  using assms
proof (induction xs arbitrary: w)
  case Nil
  then show ?case by (simp add: destroyed_on_def)
next
  case (Cons x xs)
  obtain k c where x: "x = (k, c)" by (cases x)
  let ?l = "tc_loop (conns w c)"
  let ?v = "map_server (\<lambda>s. s\<lparr>sv_connections := erase k (sv_connections s)\<rparr>) w"
  let ?y = "queueInLoop K ?l (Bind_connectDestroyed c) ?v"
  have out: "\<not> isInLoopThread ?l w" "?l \<in> set (server_loops w)" using Cons.prems x by simp_all
  have one: "destroy_one K U (k, c) w = Inr ?y" by (rule destroy_one_queues [OF out])
  have y: "live ?y = live w" "conns ?y = conns w" "server_loops ?y = server_loops w"
    "isInLoopThread l ?y = isInLoopThread l w" for l
    by (simp_all add: server_loops_def isInLoopThread_def queueInLoop_spec(1,3))
  have "\<forall>x \<in> set xs. \<not> isInLoopThread (tc_loop (conns ?y (snd x))) ?y \<and> tc_loop (conns ?y (snd x)) \<in> set (server_loops ?y)"
    using Cons.prems y by simp
  from Cons.IH [OF this] obtain w' where w': "foldE (destroy_one K U) xs ?y = Inr w'" "live w' = live w" "conns w' = conns w"
    "sv_connections (server w') = filter (\<lambda>x. fst x \<notin> fst ` set xs) (sv_connections (server ?y))"
    "\<And>l. el_pendingFunctors (loops w' l) = el_pendingFunctors (loops ?y l) @ destroyed_on l xs ?y"
    "\<And>l. woken l ?y \<or> destroyed_on l xs ?y \<noteq> [] \<Longrightarrow> woken l w'"
    unfolding y by auto
  have d: "destroyed_on l xs ?y = destroyed_on l xs w" for l by (simp add: destroyed_on_def y)
  have ov: "\<not> isInLoopThread ?l ?v" using out(1) by (simp add: isInLoopThread_def)
  have wk: "woken l ?y \<longleftrightarrow> el_wakeupFd (loops w ?l) = el_wakeupFd (loops w l) \<or> woken l w" for l
    using queue_woken [OF ov, of l K "Bind_connectDestroyed c"] by (simp add: woken_def)
  have "sv_connections (server w') = filter (\<lambda>z. fst z \<notin> fst ` set (x # xs)) (sv_connections (server w))"
    using w'(4) by (simp add: erase_def x filter_filter split_def conj_commute cong: filter_cong)
  moreover have "el_pendingFunctors (loops w' l) = el_pendingFunctors (loops w l) @ destroyed_on l (x # xs) w" for l
    using w'(5) [of l] unfolding d by (cases "?l = l") (simp_all add: destroyed_on_def x queueInLoop_spec(1))
  moreover have "woken l w'" if "woken l w \<or> destroyed_on l (x # xs) w \<noteq> []" for l
    using that w'(6) [of l] wk [of l] unfolding d by (cases "?l = l") (auto simp: destroyed_on_def x)
  ultimately show ?case using w'(1-3) one x by simp
qed



end
