(* ===== verification/Handshake.thy ===== *)
theory Handshake
  imports ThreadPool
begin

text \<open>
  The two threads of \<open>EventLoopThread_startLoop\<close>, step by step: the semaphore of \<^verbatim>\<open>Thread::start\<close>, the mutex
  and the condition variable of \<^verbatim>\<open>EventLoopThread\<close>.  The definition of \<open>ThreadPool\<close> runs the new thread where
  its starter waits for it; here the two are interleaved, condition variables may wake up spuriously,
  and the new thread goes on into its loop and, when that returns, to its end.
\<close>

section \<open>State\<close>

text \<open>Where the two threads are.\<close>

datatype parent_at = Creating | Sem_waiting | Locking | Testing | Waiting | Leaving | Returned

datatype child_at = Unborn | Naming | Posting | Beginning | Publishing | Storing | Notifying | Unlocking | In_loop
  | Ending | Clearing | Destroying | Ended

datatype holder = Parent | Child

record 'z handshake =
  hs_parent :: parent_at
  hs_child :: child_at
  hs_sem :: nat
  hs_mutex :: "holder option"
  hs_thread :: EventLoopThread
  hs_world :: "'z pworld_scheme"
  hs_result :: "loop_id option"

definition hs_start :: "EventLoopThread \<Rightarrow> 'z pworld_scheme \<Rightarrow> 'z handshake" where
  "hs_start t w = \<lparr>hs_parent = Creating, hs_child = Unborn, hs_sem = 0, hs_mutex = None, hs_thread = t, hs_world = w,
     hs_result = None\<rparr>"

section \<open>Steps\<close>

text \<open>The thread that calls \<^verbatim>\<open>startLoop\<close>: \<^verbatim>\<open>Thread::start\<close> and then the wait for the pointer.\<close>

inductive parent_step :: "kernel \<Rightarrow> 'z handshake \<Rightarrow> 'z handshake \<Rightarrow> bool" for K where
  ps_create: "hs_parent s = Creating \<Longrightarrow> sys_clone K (hs_world s) = (i, w) \<Longrightarrow>
    parent_step K s (s\<lparr>hs_parent := Sem_waiting, hs_child := Naming, hs_world := w,
      hs_thread := (hs_thread s)\<lparr>et_thread := (et_thread (hs_thread s))\<lparr>th_started := True, th_thread := Some i\<rparr>\<rparr>\<rparr>)"
| ps_sem: "hs_parent s = Sem_waiting \<Longrightarrow> 0 < hs_sem s \<Longrightarrow> parent_step K s (s\<lparr>hs_parent := Locking, hs_sem := hs_sem s - 1\<rparr>)"
| ps_lock: "hs_parent s = Locking \<Longrightarrow> hs_mutex s = None \<Longrightarrow> parent_step K s (s\<lparr>hs_parent := Testing, hs_mutex := Some Parent\<rparr>)"
| ps_wait: "hs_parent s = Testing \<Longrightarrow> et_loop (hs_thread s) = None \<Longrightarrow> parent_step K s (s\<lparr>hs_parent := Waiting, hs_mutex := None\<rparr>)"
| ps_read: "hs_parent s = Testing \<Longrightarrow> et_loop (hs_thread s) = Some l \<Longrightarrow> parent_step K s (s\<lparr>hs_parent := Leaving, hs_result := Some l\<rparr>)"
| ps_leave: "hs_parent s = Leaving \<Longrightarrow> parent_step K s (s\<lparr>hs_parent := Returned, hs_mutex := None\<rparr>)"

text \<open>The new thread, up to its loop: the lambda of \<^verbatim>\<open>Thread::start\<close> and the first half of \<^verbatim>\<open>threadFunc\<close>.\<close>

inductive child_step :: "kernel \<Rightarrow> 'z pworld_scheme user \<Rightarrow> loop_id \<Rightarrow> 'z handshake \<Rightarrow> 'z handshake \<Rightarrow> bool" for K U l where
  cs_name: "hs_child s = Naming \<Longrightarrow> th_thread (et_thread (hs_thread s)) = Some i \<Longrightarrow>
    child_step K U l s (s\<lparr>hs_child := Posting, hs_thread := (hs_thread s)\<lparr>et_thread := (et_thread (hs_thread s))\<lparr>th_tid := i\<rparr>\<rparr>\<rparr>)"
| cs_post: "hs_child s = Posting \<Longrightarrow> child_step K U l s (s\<lparr>hs_child := Beginning, hs_sem := hs_sem s + 1\<rparr>)"
| cs_begin: "hs_child s = Beginning \<Longrightarrow>
    run_in (th_tid (et_thread (hs_thread s))) (threadFunc_begin K U l (hs_thread s)) (hs_world s) = Inr w \<Longrightarrow>
    child_step K U l s (s\<lparr>hs_child := Publishing, hs_world := w\<rparr>)"
| cs_lock: "hs_child s = Publishing \<Longrightarrow> hs_mutex s = None \<Longrightarrow> child_step K U l s (s\<lparr>hs_child := Storing, hs_mutex := Some Child\<rparr>)"
| cs_store: "hs_child s = Storing \<Longrightarrow> child_step K U l s (s\<lparr>hs_child := Notifying, hs_thread := (hs_thread s)\<lparr>et_loop := Some l\<rparr>\<rparr>)"
| cs_notify: "hs_child s = Notifying \<Longrightarrow> child_step K U l s (s\<lparr>hs_child := Unlocking,
      hs_parent := (if hs_parent s = Waiting then Locking else hs_parent s)\<rparr>)"
| cs_unlock: "hs_child s = Unlocking \<Longrightarrow> child_step K U l s (s\<lparr>hs_child := In_loop, hs_mutex := None\<rparr>)"

text \<open>The loop returns, having done to the world what \<open>R\<close> says, and the thread ends.\<close>

inductive end_step :: "kernel \<Rightarrow> ('z pworld_scheme \<Rightarrow> 'z pworld_scheme \<Rightarrow> bool) \<Rightarrow> loop_id \<Rightarrow> 'z handshake \<Rightarrow> 'z handshake \<Rightarrow> bool"
  for K R l where
  es_return: "hs_child s = In_loop \<Longrightarrow> R (hs_world s) w \<Longrightarrow> end_step K R l s (s\<lparr>hs_child := Ending, hs_world := w\<rparr>)"
| es_lock: "hs_child s = Ending \<Longrightarrow> hs_mutex s = None \<Longrightarrow> end_step K R l s (s\<lparr>hs_child := Clearing, hs_mutex := Some Child\<rparr>)"
| es_clear: "hs_child s = Clearing \<Longrightarrow> end_step K R l s (s\<lparr>hs_child := Destroying, hs_mutex := None,
      hs_thread := (hs_thread s)\<lparr>et_loop := None\<rparr>\<rparr>)"
| es_destroy: "hs_child s = Destroying \<Longrightarrow> run_in (th_tid (et_thread (hs_thread s))) (EventLoop_dtor K l) (hs_world s) = Inr w \<Longrightarrow>
    end_step K R l s (s\<lparr>hs_child := Ended, hs_world := w\<rparr>)"

inductive spurious_step :: "'z handshake \<Rightarrow> 'z handshake \<Rightarrow> bool" where
  ss_spurious: "hs_parent s = Waiting \<Longrightarrow> spurious_step s (s\<lparr>hs_parent := Locking\<rparr>)"

definition hs_step :: "kernel \<Rightarrow> 'z pworld_scheme user \<Rightarrow> loop_id \<Rightarrow> 'z handshake \<Rightarrow> 'z handshake \<Rightarrow> bool" where
  "hs_step K U l s s' \<longleftrightarrow> parent_step K s s' \<or> child_step K U l s s'"

definition hs_any :: "kernel \<Rightarrow> 'z pworld_scheme user \<Rightarrow> ('z pworld_scheme \<Rightarrow> 'z pworld_scheme \<Rightarrow> bool) \<Rightarrow> loop_id
    \<Rightarrow> 'z handshake \<Rightarrow> 'z handshake \<Rightarrow> bool" where
  "hs_any K U R l s s' \<longleftrightarrow> hs_step K U l s s' \<or> end_step K R l s s' \<or> spurious_step s s'"

inductive_cases parent_stepE: "parent_step K s s'"
inductive_cases child_stepE: "child_step K U l s s'"
inductive_cases end_stepE: "end_step K R l s s'"
inductive_simps spurious_step_iff: "spurious_step s s'"

section \<open>The invariant\<close>

text \<open>The thread and the world of the atomic definition, before and after the new thread's part.\<close>

definition named :: "kernel \<Rightarrow> EventLoopThread \<Rightarrow> 'z pworld_scheme \<Rightarrow> EventLoopThread" where
  "named K t w = t\<lparr>et_thread := fst (Thread_start K (et_thread t) w)\<rparr>"

definition created :: "kernel \<Rightarrow> EventLoopThread \<Rightarrow> 'z pworld_scheme \<Rightarrow> 'z pworld_scheme" where
  "created K t w = snd (Thread_start K (et_thread t) w)"

definition begun :: "kernel \<Rightarrow> 'z pworld_scheme user \<Rightarrow> loop_id \<Rightarrow> EventLoopThread \<Rightarrow> 'z pworld_scheme \<Rightarrow> 'z pworld_scheme res" where
  "begun K U l t w = run_in (th_tid (et_thread (named K t w))) (threadFunc_begin K U l (named K t w)) (created K t w)"

lemma startLoop_parts:
  "EventLoopThread_startLoop K U l t w = bindE (begun K U l t w) (\<lambda>v. Inr (l, (named K t w)\<lparr>et_loop := Some l\<rparr>, v))"
  by (simp add: EventLoopThread_startLoop_def begun_def named_def created_def split_beta Let_def)

text \<open>How far the new thread is.\<close>

fun child_rank :: "child_at \<Rightarrow> nat" where
  "child_rank Unborn = 8" | "child_rank Naming = 7" | "child_rank Posting = 6" | "child_rank Beginning = 5"
| "child_rank Publishing = 4" | "child_rank Storing = 3" | "child_rank Notifying = 2" | "child_rank Unlocking = 1"
| "child_rank _ = 0"

fun parent_rank :: "parent_at \<Rightarrow> nat" where
  "parent_rank Creating = 5" | "parent_rank Sem_waiting = 4" | "parent_rank Locking = 3" | "parent_rank Testing = 2"
| "parent_rank Waiting = 1" | "parent_rank Leaving = 1" | "parent_rank Returned = 0"

text \<open>What the new thread has done to the \<open>EventLoopThread\<close> and the world at each point.\<close>

fun data_at :: "kernel \<Rightarrow> 'z pworld_scheme user \<Rightarrow> loop_id \<Rightarrow> EventLoopThread \<Rightarrow> 'z pworld_scheme \<Rightarrow> child_at
    \<Rightarrow> EventLoopThread \<Rightarrow> 'z pworld_scheme \<Rightarrow> bool" where
  "data_at K U l t w Unborn t' w' \<longleftrightarrow> t' = t \<and> w' = w"
| "data_at K U l t w Naming t' w' \<longleftrightarrow> t'\<lparr>et_thread := (et_thread t')\<lparr>th_tid := the (th_thread (et_thread t'))\<rparr>\<rparr> = named K t w
     \<and> w' = created K t w \<and> th_thread (et_thread t') \<noteq> None"
| "data_at K U l t w Posting t' w' \<longleftrightarrow> t' = named K t w \<and> w' = created K t w"
| "data_at K U l t w Beginning t' w' \<longleftrightarrow> t' = named K t w \<and> w' = created K t w"
| "data_at K U l t w Publishing t' w' \<longleftrightarrow> t' = named K t w \<and> begun K U l t w = Inr w'"
| "data_at K U l t w Storing t' w' \<longleftrightarrow> t' = named K t w \<and> begun K U l t w = Inr w'"
| "data_at K U l t w Notifying t' w' \<longleftrightarrow> t' = (named K t w)\<lparr>et_loop := Some l\<rparr> \<and> begun K U l t w = Inr w'"
| "data_at K U l t w Unlocking t' w' \<longleftrightarrow> t' = (named K t w)\<lparr>et_loop := Some l\<rparr> \<and> begun K U l t w = Inr w'"
| "data_at K U l t w In_loop t' w' \<longleftrightarrow> t' = (named K t w)\<lparr>et_loop := Some l\<rparr> \<and> begun K U l t w = Inr w'"
| "data_at K U l t w Ending t' w' \<longleftrightarrow> et_loop t' = Some l"
| "data_at K U l t w Clearing t' w' \<longleftrightarrow> et_loop t' = Some l"
| "data_at K U l t w _ t' w' \<longleftrightarrow> et_loop t' = None"

definition hs_inv :: "kernel \<Rightarrow> 'z pworld_scheme user \<Rightarrow> loop_id \<Rightarrow> EventLoopThread \<Rightarrow> 'z pworld_scheme \<Rightarrow> 'z handshake \<Rightarrow> bool" where
  "hs_inv K U l t w s \<longleftrightarrow> data_at K U l t w (hs_child s) (hs_thread s) (hs_world s)
     \<and> (hs_parent s = Creating \<longleftrightarrow> hs_child s = Unborn)
     \<and> hs_sem s = (if hs_parent s = Sem_waiting \<and> child_rank (hs_child s) < 6 then 1 else 0)
     \<and> (hs_parent s \<in> {Creating, Sem_waiting} \<or> child_rank (hs_child s) < 6)
     \<and> (hs_mutex s = Some Child \<longleftrightarrow> hs_child s \<in> {Storing, Notifying, Unlocking, Clearing})
     \<and> (hs_mutex s = Some Parent \<longleftrightarrow> hs_parent s \<in> {Testing, Leaving})
     \<and> (hs_parent s \<in> {Leaving, Returned} \<longrightarrow> hs_result s = Some l \<and> child_rank (hs_child s) = 0)
     \<and> (hs_parent s = Waiting \<longrightarrow> hs_child s \<notin> {Unlocking, In_loop, Ending, Clearing})"

lemma hs_start_inv: "hs_inv K U l t w (hs_start t w)"
  by (simp add: hs_inv_def hs_start_def)

lemma parent_step_inv:
  assumes "parent_step K s s'" "hs_inv K U l t w s" "et_loop t = None"
  shows "hs_inv K U l t w s'"
  using assms
proof cases
  case (ps_create i v)
  then show ?thesis using assms(2)
    by (auto simp: hs_inv_def named_def created_def Thread_start_def Let_def)
next
  case (ps_read k)
  then show ?thesis using assms(2,3) by (cases "hs_child s") (auto simp: hs_inv_def named_def)
next
  case ps_wait
  then show ?thesis using assms(2,3) by (cases "hs_child s") (auto simp: hs_inv_def named_def)
qed (use assms(2) in \<open>auto simp: hs_inv_def\<close>)

lemma child_step_inv:
  assumes "child_step K U l s s'" "hs_inv K U l t w s"
  shows "hs_inv K U l t w s'"
  using assms by cases (auto simp: hs_inv_def begun_def)

lemma end_step_inv:
  assumes "end_step K R l s s'" "hs_inv K U l t w s"
  shows "hs_inv K U l t w s'"
  using assms by cases (auto simp: hs_inv_def)

lemma spurious_step_inv:
  assumes "spurious_step s s'" "hs_inv K U l t w s"
  shows "hs_inv K U l t w s'"
  using assms by (auto simp: hs_inv_def spurious_step_iff)

lemma hs_step_inv:
  assumes "hs_step K U l s s'" "hs_inv K U l t w s" "et_loop t = None"
  shows "hs_inv K U l t w s'"
  using assms(1) parent_step_inv [OF _ assms(2,3)] child_step_inv [OF _ assms(2)] unfolding hs_step_def by blast

lemma hs_any_inv:
  assumes "(hs_any K U R l)\<^sup>*\<^sup>* (hs_start t w) s" "et_loop t = None"
  shows "hs_inv K U l t w s"
  using assms(1)
proof (induction rule: rtranclp_induct)
  case base
  show ?case by (rule hs_start_inv)
next
  case (step x y)
  then show ?case
    using hs_step_inv [OF _ step.IH assms(2)] end_step_inv [OF _ step.IH] spurious_step_inv [OF _ step.IH] unfolding hs_any_def by blast
qed

text \<open>Before the loop returns.\<close>

definition early :: "'z handshake \<Rightarrow> bool" where
  "early s \<longleftrightarrow> hs_child s \<notin> {Ending, Clearing, Destroying, Ended}"

definition hs_wait :: "kernel \<Rightarrow> 'z pworld_scheme user \<Rightarrow> loop_id \<Rightarrow> 'z handshake \<Rightarrow> 'z handshake \<Rightarrow> bool" where
  "hs_wait K U l s s' \<longleftrightarrow> hs_step K U l s s' \<or> spurious_step s s'"

lemma early_step: "hs_step K U l s s' \<Longrightarrow> early s \<Longrightarrow> early s'"
  unfolding hs_step_def by (auto simp: early_def elim!: parent_stepE child_stepE)

lemma early_spurious: "spurious_step s s' \<Longrightarrow> early s \<Longrightarrow> early s'"
  by (auto simp: early_def spurious_step_iff)

lemma hs_wait_inv:
  assumes "(hs_wait K U l)\<^sup>*\<^sup>* (hs_start t w) s" "et_loop t = None"
  shows "hs_inv K U l t w s" "early s"
  using assms(1)
proof (induction rule: rtranclp_induct)
  case base
  show "hs_inv K U l t w (hs_start t w)" "early (hs_start t w)" by (rule hs_start_inv) (simp add: early_def hs_start_def)
next
  case (step x y)
  show "hs_inv K U l t w y" "early y"
    using step(2) hs_step_inv [OF _ step.IH(1) assms(2)] spurious_step_inv [OF _ step.IH(1)] early_step [OF _ step.IH(2)]
      early_spurious [OF _ step.IH(2)] unfolding hs_wait_def by blast+
qed

text \<open>Every step goes forward.\<close>

definition hs_rank :: "'z handshake \<Rightarrow> nat" where
  "hs_rank s = 3 * child_rank (hs_child s) + parent_rank (hs_parent s)"

lemma hs_step_rank:
  assumes "hs_step K U l s s'" "hs_inv K U l t w s"
  shows "hs_rank s' < hs_rank s"
proof -
  have born: "hs_parent s = Creating \<Longrightarrow> hs_child s = Unborn" using assms(2) by (simp add: hs_inv_def)
  consider "parent_step K s s'" | "child_step K U l s s'" using assms(1) by (auto simp: hs_step_def)
  then show ?thesis
  proof cases
    case 1
    then show ?thesis by cases (simp_all add: hs_rank_def born)
  next
    case 2
    then show ?thesis by cases (simp_all add: hs_rank_def)
  qed
qed

lemma hs_steps_rank:
  assumes "(hs_step K U l ^^ n) s s'" "hs_inv K U l t w s" "et_loop t = None"
  shows "hs_rank s' + n \<le> hs_rank s"
  using assms(1,2)
proof (induction n arbitrary: s)
  case (Suc n)
  then obtain x where x: "hs_step K U l s x" "(hs_step K U l ^^ n) x s'" by (blast dest: relpowp_Suc_D2)
  have "hs_rank s' + n \<le> hs_rank x" by (rule Suc.IH [OF x(2) hs_step_inv [OF x(1) Suc.prems(2) assms(3)]])
  then show ?case using hs_step_rank [OF x(1) Suc.prems(2)] by simp
qed simp

lemma parent_moves:
  assumes "hs_inv K U l t w s" "hs_child s = In_loop" "hs_parent s \<noteq> Returned"
  shows "\<exists>s'. parent_step K s s'"
proof (cases "hs_parent s")
  case Sem_waiting
  then show ?thesis using ps_sem [of s K] assms by (auto simp: hs_inv_def)
next
  case Locking
  have "hs_mutex s = None" using assms Locking by (cases "hs_mutex s"; cases "the (hs_mutex s)") (auto simp: hs_inv_def)
  then show ?thesis using ps_lock [OF Locking] by blast
next
  case Testing
  then show ?thesis using ps_wait [OF Testing] ps_read [OF Testing] by (cases "et_loop (hs_thread s)") blast+
next
  case Leaving
  then show ?thesis using ps_leave by blast
qed (use assms in \<open>auto simp: hs_inv_def\<close>)

lemma hs_progress:
  assumes inv: "hs_inv K U l t w s" and e: "early s" and b: "begun K U l t w = Inr v" and r: "hs_parent s \<noteq> Returned"
  shows "\<exists>s'. hs_step K U l s s'"
proof -
  have child: "\<exists>s'. child_step K U l s s' \<Longrightarrow> ?thesis" and parent: "\<exists>s'. parent_step K s s' \<Longrightarrow> ?thesis"
    by (auto simp: hs_step_def)
  show ?thesis
  proof (cases "hs_child s")
    case Unborn
    then have "hs_parent s = Creating" using inv by (simp add: hs_inv_def)
    then show ?thesis using ps_create [of s K] by (intro parent) (metis surj_pair)
  next
    case Naming
    then have "th_thread (et_thread (hs_thread s)) \<noteq> None" using inv by (simp add: hs_inv_def)
    then show ?thesis using cs_name [OF Naming, of _ K U l] by (intro child) blast
  next
    case Posting
    then show ?thesis using cs_post by (intro child) blast
  next
    case Beginning
    then have "run_in (th_tid (et_thread (hs_thread s))) (threadFunc_begin K U l (hs_thread s)) (hs_world s) = Inr v"
      using inv b by (simp add: hs_inv_def begun_def)
    then show ?thesis using cs_begin [OF Beginning] by (intro child) blast
  next
    case Publishing
    show ?thesis
    proof (cases "hs_mutex s = None")
      case True
      then show ?thesis using cs_lock [OF Publishing] by (intro child) blast
    next
      case False
      then have "hs_parent s \<in> {Testing, Leaving}" using inv Publishing by (cases "the (hs_mutex s)") (auto simp: hs_inv_def)
      then show ?thesis using ps_wait [of s K] ps_read [of s _ K] ps_leave [of s K]
        by (intro parent) (cases "et_loop (hs_thread s)"; blast)
    qed
  next
    case Storing
    then show ?thesis using cs_store by (intro child) blast
  next
    case Notifying
    then show ?thesis using cs_notify by (intro child) blast
  next
    case Unlocking
    then show ?thesis using cs_unlock by (intro child) blast
  next
    case In_loop
    then show ?thesis using parent_moves [OF inv _ r] parent by blast
  qed (use e in \<open>simp_all add: early_def\<close>)
qed

lemma hs_finishes:
  assumes "hs_inv K U l t w s" "early s" "begun K U l t w = Inr v" "et_loop t = None"
  shows "\<exists>s'. (hs_step K U l)\<^sup>*\<^sup>* s s' \<and> hs_parent s' = Returned \<and> early s'"
  using assms(1,2)
proof (induction "hs_rank s" arbitrary: s rule: less_induct)
  case less
  show ?case
  proof (cases "hs_parent s = Returned")
    case False
    then obtain x where x: "hs_step K U l s x" using hs_progress [OF less.prems assms(3)] by blast
    have inv: "hs_inv K U l t w x" "early x" by (rule hs_step_inv [OF x less.prems(1) assms(4)], rule early_step [OF x less.prems(2)])
    from less.hyps [OF hs_step_rank [OF x less.prems(1)] inv] obtain s' where
      "(hs_step K U l)\<^sup>*\<^sup>* x s'" "hs_parent s' = Returned" "early s'" by blast
    then show ?thesis using converse_rtranclp_into_rtranclp [of "hs_step K U l", OF x] by blast
  qed (use less.prems in blast)
qed

text \<open>
  Where the wait goes wrong: a loop that returns before its starter has looked clears the pointer again, and
  the notification is spent; the starter finds the null pointer and waits for ever.
\<close>

lemma startLoop_lost:
  fixes w :: "'z pworld_scheme"
  assumes "et_loop t = None" "begun K U l t w = Inr v" "R v v'"
    and "run_in (th_tid (et_thread (named K t w))) (EventLoop_dtor K l) v' = Inr x"
  shows "\<exists>s. (hs_any K U R l)\<^sup>*\<^sup>* (hs_start t w) s \<and> hs_parent s = Waiting \<and> hs_result s = None
    \<and> (\<nexists>s'. hs_step K U l s s' \<or> end_step K R l s s')"
proof -
  obtain i u where c: "sys_clone K w = (i, u)" by force
  let ?a = "t\<lparr>et_thread := (et_thread t)\<lparr>th_started := True, th_thread := Some i\<rparr>\<rparr>"
  have n: "named K t w = ?a\<lparr>et_thread := (et_thread ?a)\<lparr>th_tid := i\<rparr>\<rparr>" "created K t w = u"
    using c by (simp_all add: named_def created_def Thread_start_def Let_def)
  let ?n = "named K t w"
  define st where "st = (\<lambda>p c k m e (y :: 'z pworld_scheme). \<lparr>hs_parent = p, hs_child = c, hs_sem = k, hs_mutex = m, hs_thread = e, hs_world = y,
     hs_result = None\<rparr>)"
  have P: "parent_step K s s' \<Longrightarrow> (hs_any K U R l)\<^sup>*\<^sup>* s s'" and C: "child_step K U l s s' \<Longrightarrow> (hs_any K U R l)\<^sup>*\<^sup>* s s'"
    and E: "end_step K R l s s' \<Longrightarrow> (hs_any K U R l)\<^sup>*\<^sup>* s s'" for s s' by (auto simp: hs_any_def hs_step_def)
  have "(hs_any K U R l)\<^sup>*\<^sup>* (hs_start t w) (st Sem_waiting Naming 0 None ?a u)"
    using ps_create [of "hs_start t w" K i u] c by (intro P) (simp add: hs_start_def st_def)
  also have "(hs_any K U R l)\<^sup>*\<^sup>* (st Sem_waiting Naming 0 None ?a u) (st Sem_waiting Posting 0 None ?n u)"
    using cs_name [of "st Sem_waiting Naming 0 None ?a u" i K U l] n(1) by (intro C) (simp add: st_def)
  also have "(hs_any K U R l)\<^sup>*\<^sup>* (st Sem_waiting Posting 0 None ?n u) (st Sem_waiting Beginning 1 None ?n u)"
    using cs_post [of "st Sem_waiting Posting 0 None ?n u" K U l] by (intro C) (simp add: st_def)
  also have "(hs_any K U R l)\<^sup>*\<^sup>* (st Sem_waiting Beginning 1 None ?n u) (st Sem_waiting Publishing 1 None ?n v)"
    using cs_begin [of "st Sem_waiting Beginning 1 None ?n u" K U l v] assms(2) n(2) by (intro C) (simp add: st_def begun_def)
  also have "(hs_any K U R l)\<^sup>*\<^sup>* (st Sem_waiting Publishing 1 None ?n v) (st Sem_waiting Storing 1 (Some Child) ?n v)"
    using cs_lock [of "st Sem_waiting Publishing 1 None ?n v" K U l] by (intro C) (simp add: st_def)
  also have "(hs_any K U R l)\<^sup>*\<^sup>* (st Sem_waiting Storing 1 (Some Child) ?n v) (st Sem_waiting Notifying 1 (Some Child) (?n\<lparr>et_loop := Some l\<rparr>) v)"
    using cs_store [of "st Sem_waiting Storing 1 (Some Child) ?n v" K U l] by (intro C) (simp add: st_def)
  also have "(hs_any K U R l)\<^sup>*\<^sup>* (st Sem_waiting Notifying 1 (Some Child) (?n\<lparr>et_loop := Some l\<rparr>) v)
      (st Sem_waiting Unlocking 1 (Some Child) (?n\<lparr>et_loop := Some l\<rparr>) v)"
    using cs_notify [of "st Sem_waiting Notifying 1 (Some Child) (?n\<lparr>et_loop := Some l\<rparr>) v" K U l] by (intro C) (simp add: st_def)
  also have "(hs_any K U R l)\<^sup>*\<^sup>* (st Sem_waiting Unlocking 1 (Some Child) (?n\<lparr>et_loop := Some l\<rparr>) v)
      (st Sem_waiting In_loop 1 None (?n\<lparr>et_loop := Some l\<rparr>) v)"
    using cs_unlock [of "st Sem_waiting Unlocking 1 (Some Child) (?n\<lparr>et_loop := Some l\<rparr>) v" K U l] by (intro C) (simp add: st_def)
  also have "(hs_any K U R l)\<^sup>*\<^sup>* (st Sem_waiting In_loop 1 None (?n\<lparr>et_loop := Some l\<rparr>) v)
      (st Sem_waiting Ending 1 None (?n\<lparr>et_loop := Some l\<rparr>) v')"
    using es_return [of "st Sem_waiting In_loop 1 None (?n\<lparr>et_loop := Some l\<rparr>) v" R v' K l] assms(3) by (intro E) (simp add: st_def)
  also have "(hs_any K U R l)\<^sup>*\<^sup>* (st Sem_waiting Ending 1 None (?n\<lparr>et_loop := Some l\<rparr>) v')
      (st Sem_waiting Clearing 1 (Some Child) (?n\<lparr>et_loop := Some l\<rparr>) v')"
    using es_lock [of "st Sem_waiting Ending 1 None (?n\<lparr>et_loop := Some l\<rparr>) v'" K R l] by (intro E) (simp add: st_def)
  also have "(hs_any K U R l)\<^sup>*\<^sup>* (st Sem_waiting Clearing 1 (Some Child) (?n\<lparr>et_loop := Some l\<rparr>) v')
      (st Sem_waiting Destroying 1 None (?n\<lparr>et_loop := None\<rparr>) v')"
    using es_clear [of "st Sem_waiting Clearing 1 (Some Child) (?n\<lparr>et_loop := Some l\<rparr>) v'" K R l] by (intro E) (simp add: st_def)
  also have "(hs_any K U R l)\<^sup>*\<^sup>* (st Sem_waiting Destroying 1 None (?n\<lparr>et_loop := None\<rparr>) v')
      (st Sem_waiting Ended 1 None (?n\<lparr>et_loop := None\<rparr>) x)"
    using es_destroy [of "st Sem_waiting Destroying 1 None (?n\<lparr>et_loop := None\<rparr>) v'" K l x R] assms(4) by (intro E) (simp add: st_def)
  also have "(hs_any K U R l)\<^sup>*\<^sup>* (st Sem_waiting Ended 1 None (?n\<lparr>et_loop := None\<rparr>) x) (st Locking Ended 0 None (?n\<lparr>et_loop := None\<rparr>) x)"
    using ps_sem [of "st Sem_waiting Ended 1 None (?n\<lparr>et_loop := None\<rparr>) x" K] by (intro P) (simp add: st_def)
  also have "(hs_any K U R l)\<^sup>*\<^sup>* (st Locking Ended 0 None (?n\<lparr>et_loop := None\<rparr>) x) (st Testing Ended 0 (Some Parent) (?n\<lparr>et_loop := None\<rparr>) x)"
    using ps_lock [of "st Locking Ended 0 None (?n\<lparr>et_loop := None\<rparr>) x" K] by (intro P) (simp add: st_def)
  also have "(hs_any K U R l)\<^sup>*\<^sup>* (st Testing Ended 0 (Some Parent) (?n\<lparr>et_loop := None\<rparr>) x) (st Waiting Ended 0 None (?n\<lparr>et_loop := None\<rparr>) x)"
    using ps_wait [of "st Testing Ended 0 (Some Parent) (?n\<lparr>et_loop := None\<rparr>) x" K] by (intro P) (simp add: st_def)
  finally have run: "(hs_any K U R l)\<^sup>*\<^sup>* (hs_start t w) (st Waiting Ended 0 None (?n\<lparr>et_loop := None\<rparr>) x)" .
  have stuck: "\<nexists>s'. hs_step K U l (st Waiting Ended 0 None (?n\<lparr>et_loop := None\<rparr>) x) s'
      \<or> end_step K R l (st Waiting Ended 0 None (?n\<lparr>et_loop := None\<rparr>) x) s'"
    by (auto simp: hs_step_def st_def elim!: parent_stepE child_stepE end_stepE)
  show ?thesis by (rule exI, intro conjI, rule run, simp add: st_def, simp add: st_def, rule stuck)
qed

text \<open>
  C13: \<^verbatim>\<open>startLoop\<close> returns the loop of the new thread, constructed and initialised, under every interleaving
  of the two threads, every spurious wakeup, and whatever the loop does afterwards; while the loop runs,
  the \<^verbatim>\<open>EventLoopThread\<close> and the world are exactly what running the new thread's part in one piece gives.
\<close>

theorem startLoop_refines:
  assumes "(hs_any K U R l)\<^sup>*\<^sup>* (hs_start t w) s" "et_loop t = None" "hs_parent s = Returned"
  shows "hs_result s = Some l
    \<and> (hs_child s = In_loop \<longrightarrow> EventLoopThread_startLoop K U l t w = Inr (l, hs_thread s, hs_world s))"
  using hs_any_inv [OF assms(1,2)] assms(3) by (auto simp: hs_inv_def startLoop_parts)

text \<open>
  C14: \<^verbatim>\<open>startLoop\<close> does return: as long as the new loop runs, the two threads are never both stuck before it
  has, spurious wakeups or not, and without those they take at most 29 steps.
\<close>

theorem startLoop_returns:
  assumes "et_loop t = None" "EventLoopThread_startLoop K U l t w = Inr r"
  shows "((hs_wait K U l)\<^sup>*\<^sup>* (hs_start t w) s \<longrightarrow> hs_parent s = Returned \<or> (\<exists>s'. hs_step K U l s s'))
    \<and> ((hs_step K U l ^^ n) (hs_start t w) s \<longrightarrow> n \<le> 29)"
proof -
  obtain v where v: "begun K U l t w = Inr v" using assms(2) by (auto simp: startLoop_parts)
  have "hs_parent s = Returned \<or> (\<exists>s'. hs_step K U l s s')" if "(hs_wait K U l)\<^sup>*\<^sup>* (hs_start t w) s"
    using hs_progress [OF hs_wait_inv [OF that assms(1)] v] by blast
  moreover have "n \<le> 29" if "(hs_step K U l ^^ n) (hs_start t w) s"
    using hs_steps_rank [OF that hs_start_inv assms(1)] by (simp add: hs_rank_def hs_start_def)
  ultimately show ?thesis by blast
qed

text \<open>A thread to start, as the pool constructs it.\<close>

definition io_thread :: EventLoopThread where
  "io_thread = fst (EventLoopThread_ctor None ''io0'' start_pworld)"

lemma io_thread_fields [simp]: "et_loop io_thread = None" "et_callback io_thread = None"
  by (simp_all add: io_thread_def EventLoopThread_ctor_def split_beta Let_def)

lemma io_starts: "\<exists>r. EventLoopThread_startLoop (plain_kernel 4 []) (idle_user :: pworld user) 1 io_thread start_pworld = Inr r"
  using startLoop_new [of "plain_kernel 4 []" 1 "idle_user :: pworld user" io_thread start_pworld 1]
  by (auto simp: init_law_def)

theorem startLoop_refines_witness:
  "\<exists>s. (hs_any (plain_kernel 4 []) (idle_user :: pworld user) (\<lambda>w w'. True) 1)\<^sup>*\<^sup>* (hs_start io_thread start_pworld) s
    \<and> hs_parent s = Returned \<and> hs_result s = Some 1"
proof -
  let ?K = "plain_kernel 4 []" and ?U = "idle_user :: pworld user" and ?s = "hs_start io_thread start_pworld :: unit handshake"
  obtain v where v: "begun ?K ?U 1 io_thread start_pworld = Inr v" using io_starts by (auto simp: startLoop_parts)
  have "early ?s" by (simp add: early_def hs_start_def)
  from hs_finishes [OF hs_start_inv this v io_thread_fields(1)] obtain s where
    s: "(hs_step ?K ?U 1)\<^sup>*\<^sup>* ?s s" "hs_parent s = Returned" by blast
  have "(hs_any ?K ?U (\<lambda>w w'. True) 1)\<^sup>*\<^sup>* ?s s"
    using s(1) by (rule rtranclp_mono [THEN predicate2D, rotated]) (auto simp: hs_any_def)
  then show ?thesis using startLoop_refines [OF _ io_thread_fields(1) s(2)] s(2) by blast
qed

theorem startLoop_returns_witness:
  "\<exists>s'. hs_step (plain_kernel 4 []) (idle_user :: pworld user) 1 (hs_start io_thread start_pworld) s'"
proof -
  let ?K = "plain_kernel 4 []" and ?U = "idle_user :: pworld user" and ?s = "hs_start io_thread start_pworld :: unit handshake"
  obtain r where r: "EventLoopThread_startLoop ?K ?U 1 io_thread start_pworld = Inr r" using io_starts by blast
  have "hs_parent ?s = Returned \<or> (\<exists>s'. hs_step ?K ?U 1 ?s s')"
    using startLoop_returns [OF io_thread_fields(1) r] by blast
  then show ?thesis by (simp add: hs_start_def)
qed

end
