(* ===== verification/Spec2Isabelle.thy ===== *)
theory Spec2Isabelle
  imports Teardown Handshake
begin

text \<open>
  A model of DDmuduo, a C++ network library in the reactor style (\<^verbatim>\<open>src/src\<close>), and of the server built on it
  (\<^verbatim>\<open>src/src/example/testserver.cc\<close>).

  The program.  An \<^verbatim>\<open>EventLoop\<close> belongs to one thread.  It polls its descriptors through an \<^verbatim>\<open>EPollPoller\<close>, passes
  each reported event to the \<^verbatim>\<open>Channel\<close> of the descriptor, and then calls the functors other threads and its
  own handlers have put into its queue; an eventfd wakes it up.  A \<^verbatim>\<open>TcpServer\<close> accepts connections with an
  \<^verbatim>\<open>Acceptor\<close> on the loop of its creator and gives each \<^verbatim>\<open>TcpConnection\<close> to a loop of an \<^verbatim>\<open>EventLoopThreadPool\<close>,
  round robin.  Connections are shared pointers held by the server's table and by queued functors.

  The theories, in the order of their imports.
  \<^item> \<open>Prelude\<close>: abnormal ends as values (\<open>err\<close>, \<open>'a res\<close>, \<open>bindE\<close>, \<open>foldE\<close>), \<^verbatim>\<open>size_t\<close> and vector operations.
  \<^item> \<open>CFormat\<close>, \<open>Kernel\<close>, \<open>Timestamp\<close>, \<open>CurrentThread\<close>, \<open>Logger\<close>, \<open>InetAddress\<close>: \<^verbatim>\<open>snprintf\<close>; the operating
    system as a parameter that answers each call from the history of calls, with what its documentation
    promises as named laws (\<open>write_law\<close>, \<open>epoll_ctl_law\<close>, \<open>fresh_law\<close> and so on); the classes of these names.
  \<^item> \<open>Buffer\<close>: \<^verbatim>\<open>Buffer.cc\<close>, with the interface \<open>byte_queue\<close> and its refinement to a list of bytes.
  \<^item> \<open>Callbacks\<close>, \<open>Channel\<close>, \<open>EPollPoller\<close>, \<open>EventLoop\<close>: the reactor.  \<open>poller_inv\<close> relates the map of the poller,
    the channels and the interest list of the kernel; \<open>channel_registry\<close> is the interface of the poller,
    \<open>callback_runner\<close> that of event dispatch, \<open>functor_runner\<close> that of the queue.
  \<^item> \<open>Acceptor\<close> (with \<^verbatim>\<open>Socket.cc\<close>), \<open>TcpConnection\<close>: definitions; \<open>ConnectionOutput\<close>: what a connection sends;
    \<open>ConnectionEvents\<close>: what user code may do (\<open>user_law\<close>) and what events do.
  \<^item> \<open>ThreadPool\<close>: \<^verbatim>\<open>Thread\<close>, \<^verbatim>\<open>EventLoopThread\<close>, \<^verbatim>\<open>EventLoopThreadPool\<close>; \<open>Handshake\<close>: the two threads of
    \<^verbatim>\<open>startLoop\<close> interleaved, refining the definition of \<open>ThreadPool\<close>.
  \<^item> \<open>TcpServer\<close>: the server, and \<open>run_functor\<close> and \<open>run_cb\<close>, which call what the program binds; \<open>Reactor\<close>: the
    loop with these.
  \<^item> \<open>Steps\<close>, \<open>Handlers\<close>: the invariant \<open>sound\<close> of the whole world, proved once per elementary step
    (\<open>code_step\<close>), and every handler and functor as a run of such steps.
  \<^item> \<open>System\<close>: the loops and outside threads interleaved (\<open>sys_step\<close>, \<open>reachable\<close>) and the invariant \<open>sys_ok\<close>;
    \<open>EchoServer\<close>: the example as lawful user code; \<open>Startup\<close>: from a blank process to an \<open>initial\<close>
    configuration; \<open>Running\<close>: what follows for the running server.
  \<^item> \<open>Streams\<close>, \<open>Interest\<close>, \<open>Progress\<close>: the invariant of all connections (\<open>conns_inv\<close>), the interest of open
    connections (\<open>attentive\<close>) and the possible errors (\<open>tolerated\<close>), along the steps of \<open>System\<close>; \<open>Teardown\<close>: the
    destructor of the server, from any of its configurations.

  The world is one record, extended by the theories in turn: \<open>kworld\<close> (history of system calls, log, the
  running thread), \<open>cworld\<close> (channels), \<open>lworld\<close> (loops), \<open>tworld\<close> (connections, which of them exist, the
  strings of callers of \<^verbatim>\<open>send\<close>), \<open>pworld\<close> (threads), \<open>sworld\<close> (the server).  An operation of a lower theory is
  polymorphic in the extension.  A class is a record with the members' names, a pointer the name of an
  object, a null or dangling one a value the operation tests (\<open>Inl Null_dereference\<close>, \<open>Inl Use_after_free\<close>).

  The lemmas.  Of each component: its invariant and that the operations keep it, their results on every
  branch, and what they leave alone.  Of the system, for every reachable configuration: a connection exists
  exactly while it is referenced; the kernel watches what the program believes it watches; no wakeup is
  lost; callbacks come in order and on the loop of the connection; what a connection sends is only added to,
  at its end; an open connection is watched for reading, and for writing while it has unsent bytes; every
  loop can take its next step, but for errors of the user's code and the limits of the machine; a pass
  through the body of \<^verbatim>\<open>loop\<close> is a sequence of the steps considered.

  Granularity and bounds.  In \<open>System\<close> a handler or a functor of one loop is one step: the state of a
  connection is touched by its own loop only, and what threads share, the queues, is behind a mutex that is
  held for one append or swap, so that finer interleavings only reorder independent parts; this reduction
  is not itself proved.  \<open>Handshake\<close> interleaves single accesses; its 29 steps are the bound of its rank.
  \<^verbatim>\<open>while (!quit_)\<close> is a \<open>partial_function\<close>: a loop that never ends is \<open>None\<close>.  There is no fuel.  A
  \<^verbatim>\<open>size_t\<close> is a natural number with its overflow tested, an \<^verbatim>\<open>int\<close> an integer with its bounds tested or its
  wrap-around written out, event masks are 32-bit words, ports 16-bit words.

  Hypotheses.  Laws on the kernel say what the manual pages say; \<open>user_law\<close> says that the callbacks of the user
  call the library and nothing else.  Each property that assumes them has a witness on a concrete kernel,
  and for the system properties on the started example.

  Not modelled: the destruction of a running server as a step of \<open>System\<close> (\<open>TcpServer_dtor\<close> is modelled, and
  \<open>Teardown\<close> says what it does with the connections; what the loops do after it is not followed); memory exhaustion; the memory model below the mutexes and atomics; \<^verbatim>\<open>noncopyable\<close>, where
  nothing runs; \<^verbatim>\<open>main\<close> in \<^verbatim>\<open>Timestamp.cc\<close>, a test left in the file; generated build files; the programs under
  \<^verbatim>\<open>src/test\<close>, which use another library.
\<close>

end
